theory Spec2Isabelle
  imports Main
begin

section \<open>Pointers, panics and the node arena\<close>

text \<open>
  A Go pointer to a node is either \<open>nil\<close> or the address of an allocated node. The nodes a
  list has allocated so far live in an arena (a list of node records); the address of a node is
  its position in the arena, and allocation places the new node at the next free position.
  Dereferencing \<open>nil\<close> panics in Go; \<open>Panic\<close> is that outcome. A loop whose exit depends on
  the links it follows may run forever: such loops are partial functions whose value \<open>None\<close>
  stands for not returning.

  The Go type \<open>int\<close> of sizes and indices is modelled by \<open>int\<close>: the size counts allocated
  nodes, so it stays far below \<open>2^63\<close>.
\<close>

type_synonym ptr = "nat option"

datatype 'r res = Ok 'r | Panic

datatype error = OutOfBounds int

definition bind_res :: "'r res \<Rightarrow> ('r \<Rightarrow> 's res) \<Rightarrow> 's res" where
  "bind_res m f = (case m of Panic \<Rightarrow> Panic | Ok x \<Rightarrow> f x)"

definition deref :: "'n list \<Rightarrow> ptr \<Rightarrow> 'n res" where
  "deref h p = (case p of None \<Rightarrow> Panic | Some a \<Rightarrow> if a < length h then Ok (h ! a) else Panic)"

definition assign :: "'n list \<Rightarrow> ptr \<Rightarrow> ('n \<Rightarrow> 'n) \<Rightarrow> 'n list res" where
  "assign h p g = (case p of None \<Rightarrow> Panic
                   | Some a \<Rightarrow> if a < length h then Ok (h[a := g (h ! a)]) else Panic)"

definition alloc :: "'n list \<Rightarrow> 'n \<Rightarrow> ptr \<times> 'n list" where
  "alloc h n = (Some (length h), h @ [n])"

subsection \<open>Chains of links\<close>

text \<open>
  \<open>seg f p as q\<close>: starting at pointer \<open>p\<close> and following the link \<open>f\<close> visits exactly the
  addresses \<open>as\<close>, in this order, and then arrives at \<open>q\<close>. The link map \<open>f\<close> gives
  \<open>None\<close> at an address that is not allocated and \<open>Some r\<close> at a node whose link field is \<open>r\<close>.
\<close>

fun seg :: "(nat \<Rightarrow> ptr option) \<Rightarrow> ptr \<Rightarrow> nat list \<Rightarrow> ptr \<Rightarrow> bool" where
  "seg f p [] q = (p = q)"
| "seg f p (a # as) q = (p = Some a \<and> (case f a of None \<Rightarrow> False | Some r \<Rightarrow> seg f r as q))"

text \<open>A ring: the chain from the first address leads through all of them back to the first.\<close>

definition ring :: "(nat \<Rightarrow> ptr option) \<Rightarrow> nat list \<Rightarrow> bool" where
  "ring f as = (as = [] \<or> seg f (Some (hd as)) as (Some (hd as)))"

section \<open>Nodes\<close>

record 'a SinglyLinkedNode =
  value_sn :: 'a
  next_sn :: ptr

definition NewSinglyLinkedNode :: "'a \<Rightarrow> 'a SinglyLinkedNode" where
  "NewSinglyLinkedNode v = \<lparr>value_sn = v, next_sn = None\<rparr>"

definition SetValue_sn :: "'a SinglyLinkedNode list \<Rightarrow> ptr \<Rightarrow> 'a \<Rightarrow> 'a SinglyLinkedNode list res" where
  "SetValue_sn h n v = assign h n (\<lambda>c. c\<lparr>value_sn := v\<rparr>)"

definition Value_sn :: "'a SinglyLinkedNode list \<Rightarrow> ptr \<Rightarrow> 'a res" where
  "Value_sn h n = bind_res (deref h n) (\<lambda>c. Ok (value_sn c))"

definition SetNext_sn :: "'a SinglyLinkedNode list \<Rightarrow> ptr \<Rightarrow> ptr \<Rightarrow> 'a SinglyLinkedNode list res" where
  "SetNext_sn h n newNext = assign h n (\<lambda>c. c\<lparr>next_sn := newNext\<rparr>)"

definition Next_sn :: "'a SinglyLinkedNode list \<Rightarrow> ptr \<Rightarrow> ptr res" where
  "Next_sn h n = bind_res (deref h n) (\<lambda>c. Ok (next_sn c))"

definition HasNext_sn :: "'a SinglyLinkedNode list \<Rightarrow> ptr \<Rightarrow> bool res" where
  "HasNext_sn h n = bind_res (deref h n) (\<lambda>c. Ok (next_sn c \<noteq> None))"

record 'a DoublyLinkedNode =
  value_dn :: 'a
  next_dn :: ptr
  prev_dn :: ptr

definition NewDoublyLinkedNode :: "'a \<Rightarrow> 'a DoublyLinkedNode" where
  "NewDoublyLinkedNode v = \<lparr>value_dn = v, next_dn = None, prev_dn = None\<rparr>"

definition SetValue_dn :: "'a DoublyLinkedNode list \<Rightarrow> ptr \<Rightarrow> 'a \<Rightarrow> 'a DoublyLinkedNode list res" where
  "SetValue_dn h n v = assign h n (\<lambda>c. c\<lparr>value_dn := v\<rparr>)"

definition Value_dn :: "'a DoublyLinkedNode list \<Rightarrow> ptr \<Rightarrow> 'a res" where
  "Value_dn h n = bind_res (deref h n) (\<lambda>c. Ok (value_dn c))"

definition SetNext_dn :: "'a DoublyLinkedNode list \<Rightarrow> ptr \<Rightarrow> ptr \<Rightarrow> 'a DoublyLinkedNode list res" where
  "SetNext_dn h n newNext = assign h n (\<lambda>c. c\<lparr>next_dn := newNext\<rparr>)"

definition Next_dn :: "'a DoublyLinkedNode list \<Rightarrow> ptr \<Rightarrow> ptr res" where
  "Next_dn h n = bind_res (deref h n) (\<lambda>c. Ok (next_dn c))"

definition HasNext_dn :: "'a DoublyLinkedNode list \<Rightarrow> ptr \<Rightarrow> bool res" where
  "HasNext_dn h n = bind_res (deref h n) (\<lambda>c. Ok (next_dn c \<noteq> None))"

definition SetPrev_dn :: "'a DoublyLinkedNode list \<Rightarrow> ptr \<Rightarrow> ptr \<Rightarrow> 'a DoublyLinkedNode list res" where
  "SetPrev_dn h n newPrev = assign h n (\<lambda>c. c\<lparr>prev_dn := newPrev\<rparr>)"

definition Prev_dn :: "'a DoublyLinkedNode list \<Rightarrow> ptr \<Rightarrow> ptr res" where
  "Prev_dn h n = bind_res (deref h n) (\<lambda>c. Ok (prev_dn c))"

definition HasPrev_dn :: "'a DoublyLinkedNode list \<Rightarrow> ptr \<Rightarrow> bool res" where
  "HasPrev_dn h n = bind_res (deref h n) (\<lambda>c. Ok (prev_dn c \<noteq> None))"

text \<open>The link maps of an arena, and the value stored at an address.\<close>

definition nxs :: "'a SinglyLinkedNode list \<Rightarrow> nat \<Rightarrow> ptr option" where
  "nxs h a = (if a < length h then Some (next_sn (h ! a)) else None)"

definition vls :: "'a SinglyLinkedNode list \<Rightarrow> nat \<Rightarrow> 'a" where
  "vls h a = value_sn (h ! a)"

definition nxd :: "'a DoublyLinkedNode list \<Rightarrow> nat \<Rightarrow> ptr option" where
  "nxd h a = (if a < length h then Some (next_dn (h ! a)) else None)"

definition pvd :: "'a DoublyLinkedNode list \<Rightarrow> nat \<Rightarrow> ptr option" where
  "pvd h a = (if a < length h then Some (prev_dn (h ! a)) else None)"

definition vld :: "'a DoublyLinkedNode list \<Rightarrow> nat \<Rightarrow> 'a" where
  "vld h a = value_dn (h ! a)"


text \<open>Sequencing after a call that may fail to return.\<close>

definition bind_out :: "'r res option \<Rightarrow> ('r \<Rightarrow> 's res option) \<Rightarrow> 's res option" where
  "bind_out m f = (case m of None \<Rightarrow> None | Some Panic \<Rightarrow> Some Panic | Some (Ok x) \<Rightarrow> f x)"

text \<open>The loop \<open>for range n { current = current.Next() }\<close>.\<close>

fun advance_sn :: "'a SinglyLinkedNode list \<Rightarrow> nat \<Rightarrow> ptr \<Rightarrow> ptr res" where
  "advance_sn h 0 current = Ok current"
| "advance_sn h (Suc n) current = bind_res (Next_sn h current) (\<lambda>nx. advance_sn h n nx)"

fun advance_dn :: "'a DoublyLinkedNode list \<Rightarrow> nat \<Rightarrow> ptr \<Rightarrow> ptr res" where
  "advance_dn h 0 current = Ok current"
| "advance_dn h (Suc n) current = bind_res (Next_dn h current) (\<lambda>nx. advance_dn h n nx)"

text \<open>The loop \<open>for current.Next() != target { current = current.Next() }\<close>.\<close>

partial_function (option) seek_sn :: "'a SinglyLinkedNode list \<Rightarrow> ptr \<Rightarrow> ptr \<Rightarrow> ptr res option" where
  "seek_sn h current target =
     (case Next_sn h current of Panic \<Rightarrow> Some Panic
      | Ok nx \<Rightarrow> if nx \<noteq> target then seek_sn h nx target else Some (Ok current))"

section \<open>SinglyLinkedList\<close>

record 'a SinglyLinkedList =
  cells_sl :: "'a SinglyLinkedNode list"
  head_sl :: ptr
  tail_sl :: ptr
  size_sl :: int

definition NewSinglyLinkedList :: "'a SinglyLinkedList" where
  "NewSinglyLinkedList = \<lparr>cells_sl = [], head_sl = None, tail_sl = None, size_sl = 0\<rparr>"

definition Head_sl :: "'a SinglyLinkedList \<Rightarrow> ptr" where
  "Head_sl l = head_sl l"

definition Tail_sl :: "'a SinglyLinkedList \<Rightarrow> ptr" where
  "Tail_sl l = tail_sl l"

definition Size_sl :: "'a SinglyLinkedList \<Rightarrow> int" where
  "Size_sl l = size_sl l"

definition IsEmpty_sl :: "'a SinglyLinkedList \<Rightarrow> bool" where
  "IsEmpty_sl l = (Size_sl l = 0)"

definition Clear_sl :: "'a SinglyLinkedList \<Rightarrow> 'a SinglyLinkedList" where
  "Clear_sl l = l\<lparr>head_sl := None, tail_sl := None, size_sl := 0\<rparr>"

definition Prepend_sl :: "'a \<Rightarrow> 'a SinglyLinkedList \<Rightarrow> 'a SinglyLinkedList res" where
  "Prepend_sl v l =
     (case alloc (cells_sl l) (NewSinglyLinkedNode v) of (newNode, h0) \<Rightarrow>
        bind_res (SetNext_sn h0 newNode (Head_sl l)) (\<lambda>h1.
          let l1 = l\<lparr>cells_sl := h1, head_sl := newNode\<rparr>;
              l2 = (if Tail_sl l1 = None then l1\<lparr>tail_sl := newNode\<rparr> else l1)
          in Ok (l2\<lparr>size_sl := size_sl l2 + 1\<rparr>)))"

definition Append_sl :: "'a \<Rightarrow> 'a SinglyLinkedList \<Rightarrow> 'a SinglyLinkedList res" where
  "Append_sl v l =
     (case alloc (cells_sl l) (NewSinglyLinkedNode v) of (newNode, h0) \<Rightarrow>
        let l1 = l\<lparr>cells_sl := h0\<rparr>;
            l2 = (if Head_sl l1 = None then l1\<lparr>head_sl := newNode\<rparr> else l1)
        in bind_res (if Tail_sl l2 \<noteq> None then SetNext_sn (cells_sl l2) (Tail_sl l2) newNode
                     else Ok (cells_sl l2)) (\<lambda>h1.
             Ok (l2\<lparr>cells_sl := h1, tail_sl := newNode, size_sl := size_sl l2 + 1\<rparr>)))"

partial_function (option) Find_sl_loop :: "'a SinglyLinkedNode list \<Rightarrow> ptr \<Rightarrow> 'a \<Rightarrow> ptr res option" where
  "Find_sl_loop h current v =
     (if current \<noteq> None then
        (case Value_sn h current of Panic \<Rightarrow> Some Panic
         | Ok x \<Rightarrow> if x = v then Some (Ok current)
                   else (case Next_sn h current of Panic \<Rightarrow> Some Panic
                         | Ok nx \<Rightarrow> Find_sl_loop h nx v))
      else Some (Ok None))"

definition Find_sl :: "'a \<Rightarrow> 'a SinglyLinkedList \<Rightarrow> (ptr \<times> 'a SinglyLinkedList) res option" where
  "Find_sl v l = bind_out (Find_sl_loop (cells_sl l) (Head_sl l) v) (\<lambda>node. Some (Ok (node, l)))"

definition RemoveFirst_sl :: "'a SinglyLinkedList \<Rightarrow> 'a SinglyLinkedList res" where
  "RemoveFirst_sl l =
     (if IsEmpty_sl l then Ok l
      else bind_res (Next_sn (cells_sl l) (Head_sl l)) (\<lambda>nx.
        let l1 = l\<lparr>head_sl := nx\<rparr>;
            l2 = (if Head_sl l1 = None then l1\<lparr>tail_sl := None\<rparr> else l1)
        in Ok (l2\<lparr>size_sl := size_sl l2 - 1\<rparr>)))"

definition RemoveLast_sl :: "'a SinglyLinkedList \<Rightarrow> 'a SinglyLinkedList res option" where
  "RemoveLast_sl l =
     (if IsEmpty_sl l then Some (Ok l)
      else if Size_sl l = 1 then Some (Ok (l\<lparr>head_sl := None, tail_sl := None, size_sl := size_sl l - 1\<rparr>))
      else bind_out (seek_sn (cells_sl l) (Head_sl l) (Tail_sl l)) (\<lambda>current.
        case SetNext_sn (cells_sl l) current None of Panic \<Rightarrow> Some Panic
        | Ok h1 \<Rightarrow> Some (Ok (l\<lparr>cells_sl := h1, tail_sl := current, size_sl := size_sl l - 1\<rparr>))))"

definition Remove_sl :: "'a \<Rightarrow> 'a SinglyLinkedList \<Rightarrow> 'a SinglyLinkedList res option" where
  "Remove_sl v l0 =
     bind_out (Find_sl v l0) (\<lambda>(node, l).
       if node = None then Some (Ok l)
       else if node = Head_sl l then Some (RemoveFirst_sl l)
       else bind_out (seek_sn (cells_sl l) (Head_sl l) node) (\<lambda>prev.
         Some (bind_res (Next_sn (cells_sl l) node) (\<lambda>nn.
               bind_res (SetNext_sn (cells_sl l) prev nn) (\<lambda>h1.
                 let l1 = l\<lparr>cells_sl := h1\<rparr>;
                     l2 = (if node = Tail_sl l1 then l1\<lparr>tail_sl := prev\<rparr> else l1)
                 in Ok (l2\<lparr>size_sl := size_sl l2 - 1\<rparr>))))))"

text \<open>\<open>showv\<close> is the rendering of a value by the format verb \<open>%v\<close>.\<close>

partial_function (option) String_sl_loop ::
  "('a \<Rightarrow> string) \<Rightarrow> 'a SinglyLinkedNode list \<Rightarrow> string \<Rightarrow> ptr \<Rightarrow> string res option" where
  "String_sl_loop showv h result current =
     (case Value_sn h current of Panic \<Rightarrow> Some Panic
      | Ok x \<Rightarrow>
         (case HasNext_sn h current of Panic \<Rightarrow> Some Panic
          | Ok hasNext \<Rightarrow>
             if \<not> hasNext then Some (Ok (result @ ''['' @ showv x @ '']''))
             else (case Next_sn h current of Panic \<Rightarrow> Some Panic
                   | Ok nx \<Rightarrow> String_sl_loop showv h (result @ ''['' @ showv x @ '']'' @ '' -> '') nx)))"

definition String_sl :: "('a \<Rightarrow> string) \<Rightarrow> 'a SinglyLinkedList \<Rightarrow> (string \<times> 'a SinglyLinkedList) res option" where
  "String_sl showv l =
     (if IsEmpty_sl l then Some (Ok (''SinglyLinkedList: []'', l))
      else bind_out (String_sl_loop showv (cells_sl l) ''SinglyLinkedList: '' (Head_sl l))
             (\<lambda>result. Some (Ok (result, l))))"

definition InsertAt_sl :: "int \<Rightarrow> 'a \<Rightarrow> 'a SinglyLinkedList \<Rightarrow> (error option \<times> 'a SinglyLinkedList) res" where
  "InsertAt_sl index v l =
     (if index < 0 \<or> index > Size_sl l then Ok (Some (OutOfBounds index), l)
      else if index = 0 then bind_res (Prepend_sl v l) (\<lambda>l1. Ok (None, l1))
      else if index = Size_sl l then bind_res (Append_sl v l) (\<lambda>l1. Ok (None, l1))
      else (case alloc (cells_sl l) (NewSinglyLinkedNode v) of (newNode, h0) \<Rightarrow>
        bind_res (advance_sn h0 (nat (index - 1)) (Head_sl l)) (\<lambda>current.
        bind_res (Next_sn h0 current) (\<lambda>cn.
        bind_res (SetNext_sn h0 newNode cn) (\<lambda>h1.
        bind_res (SetNext_sn h1 current newNode) (\<lambda>h2.
          Ok (None, l\<lparr>cells_sl := h2, size_sl := size_sl l + 1\<rparr>)))))))"

definition Get_sl :: "int \<Rightarrow> 'a SinglyLinkedList \<Rightarrow> ((ptr \<times> error option) \<times> 'a SinglyLinkedList) res" where
  "Get_sl index l =
     (if index < 0 \<or> index \<ge> Size_sl l then Ok ((None, Some (OutOfBounds index)), l)
      else bind_res (advance_sn (cells_sl l) (nat index) (Head_sl l)) (\<lambda>current.
             Ok ((current, None), l)))"

definition Set_sl :: "int \<Rightarrow> 'a \<Rightarrow> 'a SinglyLinkedList \<Rightarrow> (error option \<times> 'a SinglyLinkedList) res" where
  "Set_sl index v l0 =
     bind_res (Get_sl index l0) (\<lambda>((node, err), l).
       if err \<noteq> None then Ok (Some (OutOfBounds index), l)
       else bind_res (SetValue_sn (cells_sl l) node v) (\<lambda>h1. Ok (None, l\<lparr>cells_sl := h1\<rparr>)))"

partial_function (option) Reverse_sl_loop ::
  "'a SinglyLinkedNode list \<Rightarrow> ptr \<Rightarrow> ptr \<Rightarrow> ('a SinglyLinkedNode list \<times> ptr) res option" where
  "Reverse_sl_loop h prev current =
     (if current \<noteq> None then
        (case Next_sn h current of Panic \<Rightarrow> Some Panic
         | Ok nx \<Rightarrow> (case SetNext_sn h current prev of Panic \<Rightarrow> Some Panic
                     | Ok h1 \<Rightarrow> Reverse_sl_loop h1 current nx))
      else Some (Ok (h, prev)))"

definition Reverse_sl :: "'a SinglyLinkedList \<Rightarrow> 'a SinglyLinkedList res option" where
  "Reverse_sl l =
     (let current = Head_sl l;
          l1 = l\<lparr>tail_sl := Head_sl l\<rparr>
      in bind_out (Reverse_sl_loop (cells_sl l1) None current) (\<lambda>(h1, prev).
           Some (Ok (l1\<lparr>cells_sl := h1, head_sl := prev\<rparr>))))"

definition Contains_sl :: "'a \<Rightarrow> 'a SinglyLinkedList \<Rightarrow> (bool \<times> 'a SinglyLinkedList) res option" where
  "Contains_sl v l0 = bind_out (Find_sl v l0) (\<lambda>(node, l). Some (Ok (node \<noteq> None, l)))"

text \<open>
  The action of \<open>ForEach\<close> is a Go closure: it may change the state of its caller, and through
  a captured reference the list itself. It is a function on the list paired with the
  caller's state \<open>'e\<close>.
\<close>

partial_function (option) ForEach_sl_loop ::
  "('a \<Rightarrow> 'a SinglyLinkedList \<times> 'e \<Rightarrow> 'a SinglyLinkedList \<times> 'e) \<Rightarrow> ptr
     \<Rightarrow> 'a SinglyLinkedList \<times> 'e \<Rightarrow> ('a SinglyLinkedList \<times> 'e) res option" where
  "ForEach_sl_loop action current st =
     (if current \<noteq> None then
        (case Value_sn (cells_sl (fst st)) current of Panic \<Rightarrow> Some Panic
         | Ok x \<Rightarrow> (case Next_sn (cells_sl (fst (action x st))) current of Panic \<Rightarrow> Some Panic
                    | Ok nx \<Rightarrow> ForEach_sl_loop action nx (action x st)))
      else Some (Ok st))"

definition ForEach_sl ::
  "('a \<Rightarrow> 'a SinglyLinkedList \<times> 'e \<Rightarrow> 'a SinglyLinkedList \<times> 'e)
     \<Rightarrow> 'a SinglyLinkedList \<times> 'e \<Rightarrow> ('a SinglyLinkedList \<times> 'e) res option" where
  "ForEach_sl action st = ForEach_sl_loop action (Head_sl (fst st)) st"


section \<open>CircularSinglyLinkedList\<close>

record 'a CircularSinglyLinkedList =
  cells_cs :: "'a SinglyLinkedNode list"
  tail_cs :: ptr
  size_cs :: int

definition NewCircularSinglyLinkedList :: "'a CircularSinglyLinkedList" where
  "NewCircularSinglyLinkedList = \<lparr>cells_cs = [], tail_cs = None, size_cs = 0\<rparr>"

definition Tail_cs :: "'a CircularSinglyLinkedList \<Rightarrow> ptr" where
  "Tail_cs l = tail_cs l"

definition Head_cs :: "'a CircularSinglyLinkedList \<Rightarrow> ptr res" where
  "Head_cs l = (if Tail_cs l = None then Ok None else Next_sn (cells_cs l) (Tail_cs l))"

definition Size_cs :: "'a CircularSinglyLinkedList \<Rightarrow> int" where
  "Size_cs l = size_cs l"

definition IsEmpty_cs :: "'a CircularSinglyLinkedList \<Rightarrow> bool" where
  "IsEmpty_cs l = (Size_cs l = 0)"

definition Clear_cs :: "'a CircularSinglyLinkedList \<Rightarrow> 'a CircularSinglyLinkedList" where
  "Clear_cs l = l\<lparr>tail_cs := None, size_cs := 0\<rparr>"

definition Prepend_cs :: "'a \<Rightarrow> 'a CircularSinglyLinkedList \<Rightarrow> 'a CircularSinglyLinkedList res" where
  "Prepend_cs v l =
     (case alloc (cells_cs l) (NewSinglyLinkedNode v) of (newNode, h0) \<Rightarrow>
        bind_res
          (if IsEmpty_cs l then
             bind_res (SetNext_sn h0 newNode newNode) (\<lambda>h1.
               Ok (l\<lparr>cells_cs := h1, tail_cs := newNode\<rparr>))
           else
             bind_res (Next_sn h0 (Tail_cs l)) (\<lambda>tn.
             bind_res (SetNext_sn h0 newNode tn) (\<lambda>h1.
             bind_res (SetNext_sn h1 (Tail_cs l) newNode) (\<lambda>h2.
               Ok (l\<lparr>cells_cs := h2\<rparr>)))))
          (\<lambda>l1. Ok (l1\<lparr>size_cs := size_cs l1 + 1\<rparr>)))"

definition Append_cs :: "'a \<Rightarrow> 'a CircularSinglyLinkedList \<Rightarrow> 'a CircularSinglyLinkedList res" where
  "Append_cs v l =
     bind_res (Prepend_cs v l) (\<lambda>l1.
     bind_res (Next_sn (cells_cs l1) (Tail_cs l1)) (\<lambda>tn.
       Ok (l1\<lparr>tail_cs := tn\<rparr>)))"

partial_function (option) Find_cs_loop :: "'a CircularSinglyLinkedList \<Rightarrow> ptr \<Rightarrow> 'a \<Rightarrow> ptr res option" where
  "Find_cs_loop l current v =
     (case Value_sn (cells_cs l) current of Panic \<Rightarrow> Some Panic
      | Ok x \<Rightarrow>
         if x = v then Some (Ok current)
         else (case Next_sn (cells_cs l) current of Panic \<Rightarrow> Some Panic
               | Ok nx \<Rightarrow> (case Head_cs l of Panic \<Rightarrow> Some Panic
                           | Ok hp \<Rightarrow> if nx = hp then Some (Ok None) else Find_cs_loop l nx v)))"

definition Find_cs :: "'a \<Rightarrow> 'a CircularSinglyLinkedList \<Rightarrow> (ptr \<times> 'a CircularSinglyLinkedList) res option" where
  "Find_cs v l =
     (if IsEmpty_cs l then Some (Ok (None, l))
      else bind_out (Some (Head_cs l)) (\<lambda>current.
           bind_out (Find_cs_loop l current v) (\<lambda>node. Some (Ok (node, l)))))"

definition RemoveFirst_cs :: "'a CircularSinglyLinkedList \<Rightarrow> 'a CircularSinglyLinkedList res" where
  "RemoveFirst_cs l =
     (if IsEmpty_cs l then Ok l
      else if Size_cs l = 1 then Ok (Clear_cs l)
      else bind_res (Next_sn (cells_cs l) (Tail_cs l)) (\<lambda>tn.
           bind_res (Next_sn (cells_cs l) tn) (\<lambda>tnn.
           bind_res (SetNext_sn (cells_cs l) (Tail_cs l) tnn) (\<lambda>h1.
             Ok (l\<lparr>cells_cs := h1, size_cs := size_cs l - 1\<rparr>)))))"

definition RemoveLast_cs :: "'a CircularSinglyLinkedList \<Rightarrow> 'a CircularSinglyLinkedList res option" where
  "RemoveLast_cs l =
     (if IsEmpty_cs l then Some (Ok l)
      else if Size_cs l = 1 then Some (Ok (Clear_cs l))
      else bind_out (Some (Head_cs l)) (\<lambda>hp.
           bind_out (seek_sn (cells_cs l) hp (Tail_cs l)) (\<lambda>current.
             Some (bind_res (Next_sn (cells_cs l) (Tail_cs l)) (\<lambda>tn.
                   bind_res (SetNext_sn (cells_cs l) current tn) (\<lambda>h1.
                     Ok (l\<lparr>cells_cs := h1, tail_cs := current, size_cs := size_cs l - 1\<rparr>)))))))"

fun Remove_cs_loop :: "nat \<Rightarrow> 'a \<Rightarrow> ptr \<Rightarrow> ptr \<Rightarrow> 'a CircularSinglyLinkedList \<Rightarrow> 'a CircularSinglyLinkedList res" where
  "Remove_cs_loop 0 v prev current l = Ok l"
| "Remove_cs_loop (Suc n) v prev current l =
     bind_res (Value_sn (cells_cs l) current) (\<lambda>x.
       if x = v then
         (if Size_cs l = 1 then Ok (Clear_cs l)
          else bind_res (Next_sn (cells_cs l) current) (\<lambda>cn.
               bind_res (SetNext_sn (cells_cs l) prev cn) (\<lambda>h1.
                 let l1 = l\<lparr>cells_cs := h1\<rparr>;
                     l2 = (if current = Tail_cs l1 then l1\<lparr>tail_cs := prev\<rparr> else l1)
                 in Ok (l2\<lparr>size_cs := size_cs l2 - 1\<rparr>))))
       else bind_res (Next_sn (cells_cs l) current) (\<lambda>nx. Remove_cs_loop n v current nx l))"

definition Remove_cs :: "'a \<Rightarrow> 'a CircularSinglyLinkedList \<Rightarrow> 'a CircularSinglyLinkedList res" where
  "Remove_cs v l =
     (if IsEmpty_cs l then Ok l
      else bind_res (Next_sn (cells_cs l) (Tail_cs l)) (\<lambda>current.
             Remove_cs_loop (nat (Size_cs l)) v (Tail_cs l) current l))"

fun String_cs_loop ::
  "('a \<Rightarrow> string) \<Rightarrow> 'a CircularSinglyLinkedList \<Rightarrow> nat \<Rightarrow> int \<Rightarrow> string \<Rightarrow> ptr \<Rightarrow> string res" where
  "String_cs_loop showv l 0 i result current = Ok result"
| "String_cs_loop showv l (Suc n) i result current =
     bind_res (Value_sn (cells_cs l) current) (\<lambda>x.
       let result1 = result @ ''['' @ showv x @ '']'';
           result2 = (if i < Size_cs l - 1 then result1 @ '' -> '' else result1)
       in bind_res (Next_sn (cells_cs l) current) (\<lambda>nx.
            String_cs_loop showv l n (i + 1) result2 nx))"

definition String_cs ::
  "('a \<Rightarrow> string) \<Rightarrow> 'a CircularSinglyLinkedList \<Rightarrow> (string \<times> 'a CircularSinglyLinkedList) res" where
  "String_cs showv l =
     (if IsEmpty_cs l then Ok (''CircularSinglyLinkedList: []'', l)
      else bind_res (Head_cs l) (\<lambda>current.
           bind_res (String_cs_loop showv l (nat (Size_cs l)) 0 ''CircularSinglyLinkedList: '' current)
             (\<lambda>result. Ok (result, l))))"

definition InsertAt_cs ::
  "int \<Rightarrow> 'a \<Rightarrow> 'a CircularSinglyLinkedList \<Rightarrow> (error option \<times> 'a CircularSinglyLinkedList) res" where
  "InsertAt_cs index v l =
     (if index < 0 \<or> index > Size_cs l then Ok (Some (OutOfBounds index), l)
      else if index = 0 then bind_res (Prepend_cs v l) (\<lambda>l1. Ok (None, l1))
      else if index = Size_cs l then bind_res (Append_cs v l) (\<lambda>l1. Ok (None, l1))
      else bind_res (Head_cs l) (\<lambda>hp.
           bind_res (advance_sn (cells_cs l) (nat (index - 1)) hp) (\<lambda>current.
             case alloc (cells_cs l) (NewSinglyLinkedNode v) of (newNode, h0) \<Rightarrow>
               bind_res (Next_sn h0 current) (\<lambda>cn.
               bind_res (SetNext_sn h0 newNode cn) (\<lambda>h1.
               bind_res (SetNext_sn h1 current newNode) (\<lambda>h2.
                 Ok (None, l\<lparr>cells_cs := h2, size_cs := size_cs l + 1\<rparr>)))))))"

definition Get_cs ::
  "int \<Rightarrow> 'a CircularSinglyLinkedList \<Rightarrow> ((ptr \<times> error option) \<times> 'a CircularSinglyLinkedList) res" where
  "Get_cs index l =
     (if index < 0 \<or> index \<ge> Size_cs l then Ok ((None, Some (OutOfBounds index)), l)
      else bind_res (Head_cs l) (\<lambda>hp.
           bind_res (advance_sn (cells_cs l) (nat index) hp) (\<lambda>current.
             Ok ((current, None), l))))"

definition Set_cs ::
  "int \<Rightarrow> 'a \<Rightarrow> 'a CircularSinglyLinkedList \<Rightarrow> (error option \<times> 'a CircularSinglyLinkedList) res" where
  "Set_cs index v l0 =
     bind_res (Get_cs index l0) (\<lambda>((node, err), l).
       if err \<noteq> None then Ok (err, l)
       else bind_res (SetValue_sn (cells_cs l) node v) (\<lambda>h1. Ok (None, l\<lparr>cells_cs := h1\<rparr>)))"

fun Reverse_cs_loop ::
  "nat \<Rightarrow> 'a SinglyLinkedNode list \<Rightarrow> ptr \<Rightarrow> ptr \<Rightarrow> ('a SinglyLinkedNode list \<times> ptr) res" where
  "Reverse_cs_loop 0 h prev current = Ok (h, prev)"
| "Reverse_cs_loop (Suc n) h prev current =
     bind_res (Next_sn h current) (\<lambda>nx.
     bind_res (SetNext_sn h current prev) (\<lambda>h1.
       Reverse_cs_loop n h1 current nx))"

definition Reverse_cs :: "'a CircularSinglyLinkedList \<Rightarrow> 'a CircularSinglyLinkedList res" where
  "Reverse_cs l =
     (if IsEmpty_cs l \<or> Size_cs l = 1 then Ok l
      else bind_res (Head_cs l) (\<lambda>head.
           bind_res (Reverse_cs_loop (nat (Size_cs l)) (cells_cs l) None head) (\<lambda>(h1, prev).
           bind_res (SetNext_sn h1 head prev) (\<lambda>h2.
             Ok (l\<lparr>cells_cs := h2, tail_cs := head\<rparr>)))))"

definition Contains_cs :: "'a \<Rightarrow> 'a CircularSinglyLinkedList \<Rightarrow> (bool \<times> 'a CircularSinglyLinkedList) res option" where
  "Contains_cs v l0 = bind_out (Find_cs v l0) (\<lambda>(node, l). Some (Ok (node \<noteq> None, l)))"

fun ForEach_cs_loop ::
  "('a \<Rightarrow> 'a CircularSinglyLinkedList \<times> 'e \<Rightarrow> 'a CircularSinglyLinkedList \<times> 'e) \<Rightarrow> nat \<Rightarrow> ptr
     \<Rightarrow> 'a CircularSinglyLinkedList \<times> 'e \<Rightarrow> ('a CircularSinglyLinkedList \<times> 'e) res" where
  "ForEach_cs_loop action 0 current st = Ok st"
| "ForEach_cs_loop action (Suc n) current st =
     bind_res (Value_sn (cells_cs (fst st)) current) (\<lambda>x.
     bind_res (Next_sn (cells_cs (fst (action x st))) current) (\<lambda>nx.
       ForEach_cs_loop action n nx (action x st)))"

definition ForEach_cs ::
  "('a \<Rightarrow> 'a CircularSinglyLinkedList \<times> 'e \<Rightarrow> 'a CircularSinglyLinkedList \<times> 'e)
     \<Rightarrow> 'a CircularSinglyLinkedList \<times> 'e \<Rightarrow> ('a CircularSinglyLinkedList \<times> 'e) res" where
  "ForEach_cs action st =
     (if IsEmpty_cs (fst st) then Ok st
      else bind_res (Head_cs (fst st)) (\<lambda>current.
             ForEach_cs_loop action (nat (Size_cs (fst st))) current st))"


section \<open>DoublyLinkedList\<close>

record 'a DoublyLinkedList =
  cells_dl :: "'a DoublyLinkedNode list"
  head_dl :: ptr
  tail_dl :: ptr
  size_dl :: int

definition NewDoublyLinkedList :: "'a DoublyLinkedList" where
  "NewDoublyLinkedList = \<lparr>cells_dl = [], head_dl = None, tail_dl = None, size_dl = 0\<rparr>"

definition Head_dl :: "'a DoublyLinkedList \<Rightarrow> ptr" where
  "Head_dl l = head_dl l"

definition Tail_dl :: "'a DoublyLinkedList \<Rightarrow> ptr" where
  "Tail_dl l = tail_dl l"

definition Size_dl :: "'a DoublyLinkedList \<Rightarrow> int" where
  "Size_dl l = size_dl l"

definition IsEmpty_dl :: "'a DoublyLinkedList \<Rightarrow> bool" where
  "IsEmpty_dl l = (Size_dl l = 0)"

definition Clear_dl :: "'a DoublyLinkedList \<Rightarrow> 'a DoublyLinkedList" where
  "Clear_dl l = l\<lparr>head_dl := None, tail_dl := None, size_dl := 0\<rparr>"

definition Prepend_dl :: "'a \<Rightarrow> 'a DoublyLinkedList \<Rightarrow> 'a DoublyLinkedList res" where
  "Prepend_dl v l =
     (case alloc (cells_dl l) (NewDoublyLinkedNode v) of (newNode, h0) \<Rightarrow>
        bind_res
          (if Size_dl l = 0 then Ok (l\<lparr>cells_dl := h0, tail_dl := newNode\<rparr>)
           else
             bind_res (SetNext_dn h0 newNode (head_dl l)) (\<lambda>h1.
             bind_res (SetPrev_dn h1 (head_dl l) newNode) (\<lambda>h2.
               Ok (l\<lparr>cells_dl := h2\<rparr>))))
          (\<lambda>l1. Ok (l1\<lparr>head_dl := newNode, size_dl := size_dl l1 + 1\<rparr>)))"

definition Append_dl :: "'a \<Rightarrow> 'a DoublyLinkedList \<Rightarrow> 'a DoublyLinkedList res" where
  "Append_dl v l =
     (case alloc (cells_dl l) (NewDoublyLinkedNode v) of (newNode, h0) \<Rightarrow>
        bind_res
          (if Size_dl l = 0 then Ok (l\<lparr>cells_dl := h0, head_dl := newNode\<rparr>)
           else
             bind_res (SetNext_dn h0 (tail_dl l) newNode) (\<lambda>h1.
             bind_res (SetPrev_dn h1 newNode (Tail_dl l)) (\<lambda>h2.
               Ok (l\<lparr>cells_dl := h2\<rparr>))))
          (\<lambda>l1. Ok (l1\<lparr>tail_dl := newNode, size_dl := size_dl l1 + 1\<rparr>)))"

partial_function (option) Find_dl_loop :: "'a DoublyLinkedNode list \<Rightarrow> ptr \<Rightarrow> 'a \<Rightarrow> ptr res option" where
  "Find_dl_loop h current v =
     (if current \<noteq> None then
        (case Value_dn h current of Panic \<Rightarrow> Some Panic
         | Ok x \<Rightarrow> if x = v then Some (Ok current)
                   else (case Next_dn h current of Panic \<Rightarrow> Some Panic
                         | Ok nx \<Rightarrow> Find_dl_loop h nx v))
      else Some (Ok None))"

definition Find_dl :: "'a \<Rightarrow> 'a DoublyLinkedList \<Rightarrow> (ptr \<times> 'a DoublyLinkedList) res option" where
  "Find_dl v l = bind_out (Find_dl_loop (cells_dl l) (Head_dl l) v) (\<lambda>node. Some (Ok (node, l)))"

definition RemoveFirst_dl :: "'a DoublyLinkedList \<Rightarrow> 'a DoublyLinkedList res" where
  "RemoveFirst_dl l =
     (if IsEmpty_dl l then Ok l
      else bind_res (Next_dn (cells_dl l) (Head_dl l)) (\<lambda>nx.
        let l1 = l\<lparr>head_dl := nx, size_dl := size_dl l - 1\<rparr>
        in if IsEmpty_dl l1 then Ok (l1\<lparr>tail_dl := None\<rparr>)
           else bind_res (SetPrev_dn (cells_dl l1) (head_dl l1) None) (\<lambda>h1.
                  Ok (l1\<lparr>cells_dl := h1\<rparr>))))"

definition RemoveLast_dl :: "'a DoublyLinkedList \<Rightarrow> 'a DoublyLinkedList res" where
  "RemoveLast_dl l =
     (if IsEmpty_dl l then Ok l
      else if Size_dl l = 1 then Ok (l\<lparr>head_dl := None, tail_dl := None, size_dl := 0\<rparr>)
      else bind_res (Prev_dn (cells_dl l) (Tail_dl l)) (\<lambda>tp.
           let l1 = l\<lparr>tail_dl := tp\<rparr>
           in bind_res (SetNext_dn (cells_dl l1) (tail_dl l1) None) (\<lambda>h1.
                Ok (l1\<lparr>cells_dl := h1, size_dl := size_dl l1 - 1\<rparr>))))"

definition Remove_dl :: "'a \<Rightarrow> 'a DoublyLinkedList \<Rightarrow> 'a DoublyLinkedList res option" where
  "Remove_dl v l0 =
     bind_out (Find_dl v l0) (\<lambda>(node, l).
       if node = None then Some (Ok l)
       else if node = Head_dl l then Some (RemoveFirst_dl l)
       else if node = Tail_dl l then Some (RemoveLast_dl l)
       else Some (
         bind_res (Prev_dn (cells_dl l) node) (\<lambda>np.
         bind_res (Next_dn (cells_dl l) node) (\<lambda>nn.
         bind_res (SetNext_dn (cells_dl l) np nn) (\<lambda>h1.
         bind_res (Next_dn h1 node) (\<lambda>nn1.
         bind_res (Prev_dn h1 node) (\<lambda>np1.
         bind_res (SetPrev_dn h1 nn1 np1) (\<lambda>h2.
           Ok (l\<lparr>cells_dl := h2, size_dl := size_dl l - 1\<rparr>)))))))))"

text \<open>The separator of the display is the UTF-8 encoding of the arrow U+2194 between spaces.\<close>

definition sep_dl :: string where
  "sep_dl = [CHR '' '', CHR 0xE2, CHR 0x86, CHR 0x94, CHR '' '']"

partial_function (option) String_dl_loop ::
  "('a \<Rightarrow> string) \<Rightarrow> 'a DoublyLinkedNode list \<Rightarrow> string \<Rightarrow> ptr \<Rightarrow> string res option" where
  "String_dl_loop showv h result current =
     (case Value_dn h current of Panic \<Rightarrow> Some Panic
      | Ok x \<Rightarrow>
         (case HasNext_dn h current of Panic \<Rightarrow> Some Panic
          | Ok hasNext \<Rightarrow>
             if \<not> hasNext then Some (Ok (result @ ''['' @ showv x @ '']''))
             else (case Next_dn h current of Panic \<Rightarrow> Some Panic
                   | Ok nx \<Rightarrow> String_dl_loop showv h (result @ ''['' @ showv x @ '']'' @ sep_dl) nx)))"

definition String_dl :: "('a \<Rightarrow> string) \<Rightarrow> 'a DoublyLinkedList \<Rightarrow> (string \<times> 'a DoublyLinkedList) res option" where
  "String_dl showv l =
     (if IsEmpty_dl l then Some (Ok (''DoublyLinkedList: []'', l))
      else bind_out (String_dl_loop showv (cells_dl l) ''DoublyLinkedList: '' (Head_dl l))
             (\<lambda>result. Some (Ok (result, l))))"

definition InsertAt_dl :: "int \<Rightarrow> 'a \<Rightarrow> 'a DoublyLinkedList \<Rightarrow> (error option \<times> 'a DoublyLinkedList) res" where
  "InsertAt_dl index v l =
     (if index < 0 \<or> index > Size_dl l then Ok (Some (OutOfBounds index), l)
      else if index = 0 then bind_res (Prepend_dl v l) (\<lambda>l1. Ok (None, l1))
      else if index = Size_dl l then bind_res (Append_dl v l) (\<lambda>l1. Ok (None, l1))
      else (case alloc (cells_dl l) (NewDoublyLinkedNode v) of (newNode, h0) \<Rightarrow>
        bind_res (advance_dn h0 (nat index) (Head_dl l)) (\<lambda>current.
        bind_res (Prev_dn h0 current) (\<lambda>prev.
        bind_res (SetNext_dn h0 prev newNode) (\<lambda>h1.
        bind_res (SetPrev_dn h1 newNode prev) (\<lambda>h2.
        bind_res (SetNext_dn h2 newNode current) (\<lambda>h3.
        bind_res (SetPrev_dn h3 current newNode) (\<lambda>h4.
          Ok (None, l\<lparr>cells_dl := h4, size_dl := size_dl l + 1\<rparr>)))))))))"

definition Get_dl :: "int \<Rightarrow> 'a DoublyLinkedList \<Rightarrow> ((ptr \<times> error option) \<times> 'a DoublyLinkedList) res" where
  "Get_dl index l =
     (if index < 0 \<or> index \<ge> Size_dl l then Ok ((None, Some (OutOfBounds index)), l)
      else bind_res (advance_dn (cells_dl l) (nat index) (Head_dl l)) (\<lambda>current.
             Ok ((current, None), l)))"

definition Set_dl :: "int \<Rightarrow> 'a \<Rightarrow> 'a DoublyLinkedList \<Rightarrow> (error option \<times> 'a DoublyLinkedList) res" where
  "Set_dl index v l0 =
     bind_res (Get_dl index l0) (\<lambda>((node, err), l).
       if err \<noteq> None then Ok (err, l)
       else bind_res (SetValue_dn (cells_dl l) node v) (\<lambda>h1. Ok (None, l\<lparr>cells_dl := h1\<rparr>)))"

partial_function (option) Reverse_dl_loop ::
  "'a DoublyLinkedNode list \<Rightarrow> ptr \<Rightarrow> ptr \<Rightarrow> ('a DoublyLinkedNode list \<times> ptr) res option" where
  "Reverse_dl_loop h prev current =
     (if current \<noteq> None then
        (case Next_dn h current of Panic \<Rightarrow> Some Panic
         | Ok nx \<Rightarrow> (case SetNext_dn h current prev of Panic \<Rightarrow> Some Panic
                     | Ok h1 \<Rightarrow> (case SetPrev_dn h1 current nx of Panic \<Rightarrow> Some Panic
                                 | Ok h2 \<Rightarrow> Reverse_dl_loop h2 current nx)))
      else Some (Ok (h, prev)))"

definition Reverse_dl :: "'a DoublyLinkedList \<Rightarrow> 'a DoublyLinkedList res option" where
  "Reverse_dl l =
     (let current = Head_dl l;
          l1 = l\<lparr>tail_dl := Head_dl l\<rparr>
      in bind_out (Reverse_dl_loop (cells_dl l1) None current) (\<lambda>(h1, prev).
           Some (Ok (l1\<lparr>cells_dl := h1, head_dl := prev\<rparr>))))"

partial_function (option) ForEach_dl_loop ::
  "('a \<Rightarrow> 'a DoublyLinkedList \<times> 'e \<Rightarrow> 'a DoublyLinkedList \<times> 'e) \<Rightarrow> ptr
     \<Rightarrow> 'a DoublyLinkedList \<times> 'e \<Rightarrow> ('a DoublyLinkedList \<times> 'e) res option" where
  "ForEach_dl_loop action current st =
     (if current \<noteq> None then
        (case Value_dn (cells_dl (fst st)) current of Panic \<Rightarrow> Some Panic
         | Ok x \<Rightarrow> (case Next_dn (cells_dl (fst (action x st))) current of Panic \<Rightarrow> Some Panic
                    | Ok nx \<Rightarrow> ForEach_dl_loop action nx (action x st)))
      else Some (Ok st))"

definition ForEach_dl ::
  "('a \<Rightarrow> 'a DoublyLinkedList \<times> 'e \<Rightarrow> 'a DoublyLinkedList \<times> 'e)
     \<Rightarrow> 'a DoublyLinkedList \<times> 'e \<Rightarrow> ('a DoublyLinkedList \<times> 'e) res option" where
  "ForEach_dl action st = ForEach_dl_loop action (Head_dl (fst st)) st"

partial_function (option) ToSlice_dl_loop ::
  "'a DoublyLinkedNode list \<Rightarrow> 'a list \<Rightarrow> ptr \<Rightarrow> 'a list res option" where
  "ToSlice_dl_loop h result current =
     (if current \<noteq> None then
        (case Value_dn h current of Panic \<Rightarrow> Some Panic
         | Ok x \<Rightarrow> (case Next_dn h current of Panic \<Rightarrow> Some Panic
                    | Ok nx \<Rightarrow> ToSlice_dl_loop h (result @ [x]) nx))
      else Some (Ok result))"

definition ToSlice_dl :: "'a DoublyLinkedList \<Rightarrow> ('a list \<times> 'a DoublyLinkedList) res option" where
  "ToSlice_dl l = bind_out (ToSlice_dl_loop (cells_dl l) [] (Head_dl l)) (\<lambda>result. Some (Ok (result, l)))"

section \<open>CircularDoublyLinkedList\<close>

record 'a CircularDoublyLinkedList =
  cells_cd :: "'a DoublyLinkedNode list"
  tail_cd :: ptr
  size_cd :: int

definition NewCircularDoublyLinkedList :: "'a CircularDoublyLinkedList" where
  "NewCircularDoublyLinkedList = \<lparr>cells_cd = [], tail_cd = None, size_cd = 0\<rparr>"

definition Tail_cd :: "'a CircularDoublyLinkedList \<Rightarrow> ptr" where
  "Tail_cd l = tail_cd l"

definition Head_cd :: "'a CircularDoublyLinkedList \<Rightarrow> ptr res" where
  "Head_cd l = (if Tail_cd l = None then Ok None else Next_dn (cells_cd l) (Tail_cd l))"

definition Size_cd :: "'a CircularDoublyLinkedList \<Rightarrow> int" where
  "Size_cd l = size_cd l"

definition IsEmpty_cd :: "'a CircularDoublyLinkedList \<Rightarrow> bool" where
  "IsEmpty_cd l = (Size_cd l = 0)"

definition Clear_cd :: "'a CircularDoublyLinkedList \<Rightarrow> 'a CircularDoublyLinkedList" where
  "Clear_cd l = l\<lparr>tail_cd := None, size_cd := 0\<rparr>"

definition Prepend_cd :: "'a \<Rightarrow> 'a CircularDoublyLinkedList \<Rightarrow> 'a CircularDoublyLinkedList res" where
  "Prepend_cd v l =
     (case alloc (cells_cd l) (NewDoublyLinkedNode v) of (newNode, h0) \<Rightarrow>
        bind_res
          (if IsEmpty_cd l then
             bind_res (SetNext_dn h0 newNode newNode) (\<lambda>h1.
             bind_res (SetPrev_dn h1 newNode newNode) (\<lambda>h2.
               Ok (l\<lparr>cells_cd := h2, tail_cd := newNode\<rparr>)))
           else
             bind_res (Head_cd (l\<lparr>cells_cd := h0\<rparr>)) (\<lambda>head.
             bind_res (SetNext_dn h0 newNode head) (\<lambda>h1.
             bind_res (SetPrev_dn h1 newNode (Tail_cd l)) (\<lambda>h2.
             bind_res (SetPrev_dn h2 head newNode) (\<lambda>h3.
             bind_res (SetNext_dn h3 (Tail_cd l) newNode) (\<lambda>h4.
               Ok (l\<lparr>cells_cd := h4\<rparr>)))))))
          (\<lambda>l1. Ok (l1\<lparr>size_cd := size_cd l1 + 1\<rparr>)))"

definition Append_cd :: "'a \<Rightarrow> 'a CircularDoublyLinkedList \<Rightarrow> 'a CircularDoublyLinkedList res" where
  "Append_cd v l =
     bind_res (Prepend_cd v l) (\<lambda>l1.
     bind_res (Next_dn (cells_cd l1) (Tail_cd l1)) (\<lambda>tn.
       Ok (l1\<lparr>tail_cd := tn\<rparr>)))"

fun Find_cd_loop :: "nat \<Rightarrow> 'a DoublyLinkedNode list \<Rightarrow> ptr \<Rightarrow> 'a \<Rightarrow> ptr res" where
  "Find_cd_loop 0 h current v = Ok None"
| "Find_cd_loop (Suc n) h current v =
     bind_res (Value_dn h current) (\<lambda>x.
       if x = v then Ok current
       else bind_res (Next_dn h current) (\<lambda>nx. Find_cd_loop n h nx v))"

definition Find_cd :: "'a \<Rightarrow> 'a CircularDoublyLinkedList \<Rightarrow> (ptr \<times> 'a CircularDoublyLinkedList) res" where
  "Find_cd v l =
     (if IsEmpty_cd l then Ok (None, l)
      else bind_res (Head_cd l) (\<lambda>current.
           bind_res (Find_cd_loop (nat (Size_cd l)) (cells_cd l) current v) (\<lambda>node. Ok (node, l))))"

definition RemoveFirst_cd :: "'a CircularDoublyLinkedList \<Rightarrow> 'a CircularDoublyLinkedList res" where
  "RemoveFirst_cd l =
     (if IsEmpty_cd l then Ok l
      else if Size_cd l = 1 then Ok (Clear_cd l)
      else bind_res (Head_cd l) (\<lambda>head.
           bind_res (Next_dn (cells_cd l) head) (\<lambda>newHead.
           bind_res (SetNext_dn (cells_cd l) (Tail_cd l) newHead) (\<lambda>h1.
           bind_res (SetPrev_dn h1 newHead (Tail_cd l)) (\<lambda>h2.
             Ok (l\<lparr>cells_cd := h2, size_cd := size_cd l - 1\<rparr>))))))"

definition RemoveLast_cd :: "'a CircularDoublyLinkedList \<Rightarrow> 'a CircularDoublyLinkedList res" where
  "RemoveLast_cd l =
     (if IsEmpty_cd l then Ok l
      else if Size_cd l = 1 then Ok (Clear_cd l)
      else (let lastNode = Tail_cd l in
           bind_res (Prev_dn (cells_cd l) lastNode) (\<lambda>prev.
           bind_res (Head_cd l) (\<lambda>head.
           bind_res (SetNext_dn (cells_cd l) prev head) (\<lambda>h1.
           bind_res (Head_cd (l\<lparr>cells_cd := h1\<rparr>)) (\<lambda>head1.
           bind_res (SetPrev_dn h1 head1 prev) (\<lambda>h2.
             Ok (l\<lparr>cells_cd := h2, tail_cd := prev, size_cd := size_cd l - 1\<rparr>))))))))"

fun Remove_cd_loop :: "nat \<Rightarrow> 'a \<Rightarrow> ptr \<Rightarrow> 'a CircularDoublyLinkedList \<Rightarrow> 'a CircularDoublyLinkedList res" where
  "Remove_cd_loop 0 v current l = Ok l"
| "Remove_cd_loop (Suc n) v current l =
     bind_res (Value_dn (cells_cd l) current) (\<lambda>x.
       if x = v then
         (if Size_cd l = 1 then Ok (Clear_cd l)
          else bind_res (Prev_dn (cells_cd l) current) (\<lambda>prev.
               bind_res (Next_dn (cells_cd l) current) (\<lambda>nx.
               bind_res (SetNext_dn (cells_cd l) prev nx) (\<lambda>h1.
               bind_res (SetPrev_dn h1 nx prev) (\<lambda>h2.
                 let l1 = l\<lparr>cells_cd := h2\<rparr>;
                     l2 = (if current = Tail_cd l1 then l1\<lparr>tail_cd := prev\<rparr> else l1)
                 in Ok (l2\<lparr>size_cd := size_cd l2 - 1\<rparr>))))))
       else bind_res (Next_dn (cells_cd l) current) (\<lambda>nx. Remove_cd_loop n v nx l))"

definition Remove_cd :: "'a \<Rightarrow> 'a CircularDoublyLinkedList \<Rightarrow> 'a CircularDoublyLinkedList res" where
  "Remove_cd v l =
     (if IsEmpty_cd l then Ok l
      else bind_res (Head_cd l) (\<lambda>current.
             Remove_cd_loop (nat (Size_cd l)) v current l))"

fun String_cd_loop ::
  "('a \<Rightarrow> string) \<Rightarrow> 'a CircularDoublyLinkedList \<Rightarrow> nat \<Rightarrow> int \<Rightarrow> string \<Rightarrow> ptr \<Rightarrow> string res" where
  "String_cd_loop showv l 0 i result current = Ok result"
| "String_cd_loop showv l (Suc n) i result current =
     bind_res (Value_dn (cells_cd l) current) (\<lambda>x.
       let result1 = result @ ''['' @ showv x @ '']'';
           result2 = (if i < Size_cd l - 1 then result1 @ '' <-> '' else result1)
       in bind_res (Next_dn (cells_cd l) current) (\<lambda>nx.
            String_cd_loop showv l n (i + 1) result2 nx))"

definition String_cd ::
  "('a \<Rightarrow> string) \<Rightarrow> 'a CircularDoublyLinkedList \<Rightarrow> (string \<times> 'a CircularDoublyLinkedList) res" where
  "String_cd showv l =
     (if IsEmpty_cd l then Ok (''CircularDoublyLinkedList: []'', l)
      else bind_res (Head_cd l) (\<lambda>current.
           bind_res (String_cd_loop showv l (nat (Size_cd l)) 0 ''CircularDoublyLinkedList: '' current)
             (\<lambda>result. Ok (result, l))))"

definition InsertAt_cd ::
  "int \<Rightarrow> 'a \<Rightarrow> 'a CircularDoublyLinkedList \<Rightarrow> (error option \<times> 'a CircularDoublyLinkedList) res" where
  "InsertAt_cd index v l =
     (if index < 0 \<or> index > Size_cd l then Ok (Some (OutOfBounds index), l)
      else if index = 0 then bind_res (Prepend_cd v l) (\<lambda>l1. Ok (None, l1))
      else if index = Size_cd l then bind_res (Append_cd v l) (\<lambda>l1. Ok (None, l1))
      else bind_res (Head_cd l) (\<lambda>hp.
           bind_res (advance_dn (cells_cd l) (nat index) hp) (\<lambda>current.
             case alloc (cells_cd l) (NewDoublyLinkedNode v) of (newNode, h0) \<Rightarrow>
               bind_res (Prev_dn h0 current) (\<lambda>prev.
               bind_res (SetNext_dn h0 prev newNode) (\<lambda>h1.
               bind_res (SetPrev_dn h1 newNode prev) (\<lambda>h2.
               bind_res (SetNext_dn h2 newNode current) (\<lambda>h3.
               bind_res (SetPrev_dn h3 current newNode) (\<lambda>h4.
                 Ok (None, l\<lparr>cells_cd := h4, size_cd := size_cd l + 1\<rparr>)))))))))"

definition Get_cd ::
  "int \<Rightarrow> 'a CircularDoublyLinkedList \<Rightarrow> ((ptr \<times> error option) \<times> 'a CircularDoublyLinkedList) res" where
  "Get_cd index l =
     (if index < 0 \<or> index \<ge> Size_cd l then Ok ((None, Some (OutOfBounds index)), l)
      else bind_res (Head_cd l) (\<lambda>hp.
           bind_res (advance_dn (cells_cd l) (nat index) hp) (\<lambda>current.
             Ok ((current, None), l))))"

definition Set_cd ::
  "int \<Rightarrow> 'a \<Rightarrow> 'a CircularDoublyLinkedList \<Rightarrow> (error option \<times> 'a CircularDoublyLinkedList) res" where
  "Set_cd index v l0 =
     bind_res (Get_cd index l0) (\<lambda>((node, err), l).
       if err \<noteq> None then Ok (err, l)
       else bind_res (SetValue_dn (cells_cd l) node v) (\<lambda>h1. Ok (None, l\<lparr>cells_cd := h1\<rparr>)))"

fun Reverse_cd_loop :: "nat \<Rightarrow> 'a DoublyLinkedNode list \<Rightarrow> ptr \<Rightarrow> 'a DoublyLinkedNode list res" where
  "Reverse_cd_loop 0 h current = Ok h"
| "Reverse_cd_loop (Suc n) h current =
     bind_res (Prev_dn h current) (\<lambda>cp.
     bind_res (Next_dn h current) (\<lambda>cn.
     bind_res (SetNext_dn h current cp) (\<lambda>h1.
     bind_res (SetPrev_dn h1 current cn) (\<lambda>h2.
     bind_res (Prev_dn h2 current) (\<lambda>nx.
       Reverse_cd_loop n h2 nx)))))"

definition Reverse_cd :: "'a CircularDoublyLinkedList \<Rightarrow> 'a CircularDoublyLinkedList res" where
  "Reverse_cd l =
     (if IsEmpty_cd l \<or> Size_cd l = 1 then Ok l
      else bind_res (Head_cd l) (\<lambda>originalHead.
           bind_res (Reverse_cd_loop (nat (size_cd l)) (cells_cd l) originalHead) (\<lambda>h1.
             Ok (l\<lparr>cells_cd := h1, tail_cd := originalHead\<rparr>))))"

definition Contains_cd :: "'a \<Rightarrow> 'a CircularDoublyLinkedList \<Rightarrow> (bool \<times> 'a CircularDoublyLinkedList) res" where
  "Contains_cd v l0 = bind_res (Find_cd v l0) (\<lambda>(node, l). Ok (node \<noteq> None, l))"

fun ForEach_cd_loop ::
  "('a \<Rightarrow> 'a CircularDoublyLinkedList \<times> 'e \<Rightarrow> 'a CircularDoublyLinkedList \<times> 'e) \<Rightarrow> nat \<Rightarrow> ptr
     \<Rightarrow> 'a CircularDoublyLinkedList \<times> 'e \<Rightarrow> ('a CircularDoublyLinkedList \<times> 'e) res" where
  "ForEach_cd_loop action 0 current st = Ok st"
| "ForEach_cd_loop action (Suc n) current st =
     bind_res (Value_dn (cells_cd (fst st)) current) (\<lambda>x.
     bind_res (Next_dn (cells_cd (fst (action x st))) current) (\<lambda>nx.
       ForEach_cd_loop action n nx (action x st)))"

definition ForEach_cd ::
  "('a \<Rightarrow> 'a CircularDoublyLinkedList \<times> 'e \<Rightarrow> 'a CircularDoublyLinkedList \<times> 'e)
     \<Rightarrow> 'a CircularDoublyLinkedList \<times> 'e \<Rightarrow> ('a CircularDoublyLinkedList \<times> 'e) res" where
  "ForEach_cd action st =
     (if IsEmpty_cd (fst st) then Ok st
      else bind_res (Head_cd (fst st)) (\<lambda>current.
             ForEach_cd_loop action (nat (Size_cd (fst st))) current st))"


section \<open>Sequences of public operations\<close>

datatype 'a op =
    OpPrepend 'a | OpAppend 'a | OpInsertAt int 'a | OpRemove 'a | OpRemoveFirst | OpRemoveLast
  | OpSet int 'a | OpReverse | OpClear

fun apply_sl :: "'a op \<Rightarrow> 'a SinglyLinkedList \<Rightarrow> 'a SinglyLinkedList res option" where
  "apply_sl (OpPrepend v) l = Some (Prepend_sl v l)"
| "apply_sl (OpAppend v) l = Some (Append_sl v l)"
| "apply_sl (OpInsertAt i v) l = Some (bind_res (InsertAt_sl i v l) (\<lambda>r. Ok (snd r)))"
| "apply_sl (OpRemove v) l = Remove_sl v l"
| "apply_sl OpRemoveFirst l = Some (RemoveFirst_sl l)"
| "apply_sl OpRemoveLast l = RemoveLast_sl l"
| "apply_sl (OpSet i v) l = Some (bind_res (Set_sl i v l) (\<lambda>r. Ok (snd r)))"
| "apply_sl OpReverse l = Reverse_sl l"
| "apply_sl OpClear l = Some (Ok (Clear_sl l))"

fun run_sl :: "'a op list \<Rightarrow> 'a SinglyLinkedList \<Rightarrow> 'a SinglyLinkedList res option" where
  "run_sl [] l = Some (Ok l)"
| "run_sl (c # cs) l = bind_out (apply_sl c l) (run_sl cs)"

fun apply_cs :: "'a op \<Rightarrow> 'a CircularSinglyLinkedList \<Rightarrow> 'a CircularSinglyLinkedList res option" where
  "apply_cs (OpPrepend v) l = Some (Prepend_cs v l)"
| "apply_cs (OpAppend v) l = Some (Append_cs v l)"
| "apply_cs (OpInsertAt i v) l = Some (bind_res (InsertAt_cs i v l) (\<lambda>r. Ok (snd r)))"
| "apply_cs (OpRemove v) l = Some (Remove_cs v l)"
| "apply_cs OpRemoveFirst l = Some (RemoveFirst_cs l)"
| "apply_cs OpRemoveLast l = RemoveLast_cs l"
| "apply_cs (OpSet i v) l = Some (bind_res (Set_cs i v l) (\<lambda>r. Ok (snd r)))"
| "apply_cs OpReverse l = Some (Reverse_cs l)"
| "apply_cs OpClear l = Some (Ok (Clear_cs l))"

fun run_cs :: "'a op list \<Rightarrow> 'a CircularSinglyLinkedList \<Rightarrow> 'a CircularSinglyLinkedList res option" where
  "run_cs [] l = Some (Ok l)"
| "run_cs (c # cs) l = bind_out (apply_cs c l) (run_cs cs)"

fun apply_dl :: "'a op \<Rightarrow> 'a DoublyLinkedList \<Rightarrow> 'a DoublyLinkedList res option" where
  "apply_dl (OpPrepend v) l = Some (Prepend_dl v l)"
| "apply_dl (OpAppend v) l = Some (Append_dl v l)"
| "apply_dl (OpInsertAt i v) l = Some (bind_res (InsertAt_dl i v l) (\<lambda>r. Ok (snd r)))"
| "apply_dl (OpRemove v) l = Remove_dl v l"
| "apply_dl OpRemoveFirst l = Some (RemoveFirst_dl l)"
| "apply_dl OpRemoveLast l = Some (RemoveLast_dl l)"
| "apply_dl (OpSet i v) l = Some (bind_res (Set_dl i v l) (\<lambda>r. Ok (snd r)))"
| "apply_dl OpReverse l = Reverse_dl l"
| "apply_dl OpClear l = Some (Ok (Clear_dl l))"

fun run_dl :: "'a op list \<Rightarrow> 'a DoublyLinkedList \<Rightarrow> 'a DoublyLinkedList res option" where
  "run_dl [] l = Some (Ok l)"
| "run_dl (c # cs) l = bind_out (apply_dl c l) (run_dl cs)"

fun apply_cd :: "'a op \<Rightarrow> 'a CircularDoublyLinkedList \<Rightarrow> 'a CircularDoublyLinkedList res option" where
  "apply_cd (OpPrepend v) l = Some (Prepend_cd v l)"
| "apply_cd (OpAppend v) l = Some (Append_cd v l)"
| "apply_cd (OpInsertAt i v) l = Some (bind_res (InsertAt_cd i v l) (\<lambda>r. Ok (snd r)))"
| "apply_cd (OpRemove v) l = Some (Remove_cd v l)"
| "apply_cd OpRemoveFirst l = Some (RemoveFirst_cd l)"
| "apply_cd OpRemoveLast l = Some (RemoveLast_cd l)"
| "apply_cd (OpSet i v) l = Some (bind_res (Set_cd i v l) (\<lambda>r. Ok (snd r)))"
| "apply_cd OpReverse l = Some (Reverse_cd l)"
| "apply_cd OpClear l = Some (Ok (Clear_cd l))"

fun run_cd :: "'a op list \<Rightarrow> 'a CircularDoublyLinkedList \<Rightarrow> 'a CircularDoublyLinkedList res option" where
  "run_cd [] l = Some (Ok l)"
| "run_cd (c # cs) l = bind_out (apply_cd c l) (run_cd cs)"

text \<open>
  The abstraction of a list state: the addresses of its nodes from head to tail. For the
  linear variants the chain of \<open>next\<close> links from the head runs through them to \<open>nil\<close>; for the
  circular variants it is a ring whose last address is the tail. In the doubly linked variants
  the \<open>prev\<close> links run through the same addresses in the opposite order.
\<close>

definition sl_inv :: "'a SinglyLinkedList \<Rightarrow> nat list \<Rightarrow> bool" where
  "sl_inv l as \<longleftrightarrow>
     distinct as \<and> seg (nxs (cells_sl l)) (head_sl l) as None \<and>
     tail_sl l = (if as = [] then None else Some (last as)) \<and> size_sl l = int (length as)"

definition cs_inv :: "'a CircularSinglyLinkedList \<Rightarrow> nat list \<Rightarrow> bool" where
  "cs_inv l as \<longleftrightarrow>
     distinct as \<and> ring (nxs (cells_cs l)) as \<and>
     tail_cs l = (if as = [] then None else Some (last as)) \<and> size_cs l = int (length as)"

definition dl_inv :: "'a DoublyLinkedList \<Rightarrow> nat list \<Rightarrow> bool" where
  "dl_inv l as \<longleftrightarrow>
     distinct as \<and> seg (nxd (cells_dl l)) (head_dl l) as None \<and>
     seg (pvd (cells_dl l)) (tail_dl l) (rev as) None \<and> size_dl l = int (length as)"

definition cd_inv :: "'a CircularDoublyLinkedList \<Rightarrow> nat list \<Rightarrow> bool" where
  "cd_inv l as \<longleftrightarrow>
     distinct as \<and> ring (nxd (cells_cd l)) as \<and> ring (pvd (cells_cd l)) (rev as) \<and>
     tail_cd l = (if as = [] then None else Some (last as)) \<and> size_cd l = int (length as)"


definition sl_rep :: "'a SinglyLinkedList \<Rightarrow> nat list \<Rightarrow> 'a list \<Rightarrow> bool" where
  "sl_rep l as vs \<longleftrightarrow> sl_inv l as \<and> vs = map (vls (cells_sl l)) as"

definition cs_rep :: "'a CircularSinglyLinkedList \<Rightarrow> nat list \<Rightarrow> 'a list \<Rightarrow> bool" where
  "cs_rep l as vs \<longleftrightarrow> cs_inv l as \<and> vs = map (vls (cells_cs l)) as"

definition dl_rep :: "'a DoublyLinkedList \<Rightarrow> nat list \<Rightarrow> 'a list \<Rightarrow> bool" where
  "dl_rep l as vs \<longleftrightarrow> dl_inv l as \<and> vs = map (vld (cells_dl l)) as"

definition cd_rep :: "'a CircularDoublyLinkedList \<Rightarrow> nat list \<Rightarrow> 'a list \<Rightarrow> bool" where
  "cd_rep l as vs \<longleftrightarrow> cd_inv l as \<and> vs = map (vld (cells_cd l)) as"

text \<open>The arena after one field of the node at an address has been overwritten.\<close>

definition put_next_dn :: "'a DoublyLinkedNode list \<Rightarrow> nat \<Rightarrow> ptr \<Rightarrow> 'a DoublyLinkedNode list" where
  "put_next_dn h a q = h[a := (h ! a)\<lparr>next_dn := q\<rparr>]"

definition put_prev_dn :: "'a DoublyLinkedNode list \<Rightarrow> nat \<Rightarrow> ptr \<Rightarrow> 'a DoublyLinkedNode list" where
  "put_prev_dn h a q = h[a := (h ! a)\<lparr>prev_dn := q\<rparr>]"

definition put_value_dn :: "'a DoublyLinkedNode list \<Rightarrow> nat \<Rightarrow> 'a \<Rightarrow> 'a DoublyLinkedNode list" where
  "put_value_dn h a v = h[a := (h ! a)\<lparr>value_dn := v\<rparr>]"

section \<open>The display format and the sequence of values\<close>

text \<open>
  The display of a list as the specification words it: the container name and \<open>: []\<close> for an
  empty list; otherwise the name, \<open>: \<close>, and every value wrapped in brackets, joined by the
  separator, with no separator after the last element.
\<close>

fun join :: "string \<Rightarrow> string list \<Rightarrow> string" where
  "join sep [] = []"
| "join sep [x] = x"
| "join sep (x # y # ys) = x @ sep @ join sep (y # ys)"

definition boxed :: "('a \<Rightarrow> string) \<Rightarrow> 'a \<Rightarrow> string" where
  "boxed showv v = ''['' @ showv v @ '']''"

definition display :: "string \<Rightarrow> string \<Rightarrow> ('a \<Rightarrow> string) \<Rightarrow> 'a list \<Rightarrow> string" where
  "display name sep showv vs =
     name @ '': '' @ (if vs = [] then ''[]'' else join sep (map (boxed showv) vs))"

text \<open>
  The head-to-tail sequence of values of a list is what \<open>ForEach\<close> hands to an action that
  appends each value to a slice of its caller.
\<close>

definition collect :: "'a \<Rightarrow> 'l \<times> 'a list \<Rightarrow> 'l \<times> 'a list" where
  "collect x st = (fst st, snd st @ [x])"

definition values_sl :: "'a SinglyLinkedList \<Rightarrow> 'a list res option" where
  "values_sl l = bind_out (ForEach_sl collect (l, [])) (\<lambda>st. Some (Ok (snd st)))"

definition values_cs :: "'a CircularSinglyLinkedList \<Rightarrow> 'a list res" where
  "values_cs l = bind_res (ForEach_cs collect (l, [])) (\<lambda>st. Ok (snd st))"

definition values_dl :: "'a DoublyLinkedList \<Rightarrow> 'a list res option" where
  "values_dl l = bind_out (ForEach_dl collect (l, [])) (\<lambda>st. Some (Ok (snd st)))"

definition values_cd :: "'a CircularDoublyLinkedList \<Rightarrow> 'a list res" where
  "values_cd l = bind_res (ForEach_cd collect (l, [])) (\<lambda>st. Ok (snd st))"


section \<open>Properties of a list state\<close>

text \<open>The node reached from the head after \<open>k\<close> steps along \<open>next\<close>.\<close>

definition nth_node_sl :: "'a SinglyLinkedList \<Rightarrow> nat \<Rightarrow> ptr res" where
  "nth_node_sl l k = advance_sn (cells_sl l) k (Head_sl l)"

definition nth_node_cs :: "'a CircularSinglyLinkedList \<Rightarrow> nat \<Rightarrow> ptr res" where
  "nth_node_cs l k = bind_res (Head_cs l) (advance_sn (cells_cs l) k)"

definition nth_node_dl :: "'a DoublyLinkedList \<Rightarrow> nat \<Rightarrow> ptr res" where
  "nth_node_dl l k = advance_dn (cells_dl l) k (Head_dl l)"

definition nth_node_cd :: "'a CircularDoublyLinkedList \<Rightarrow> nat \<Rightarrow> ptr res" where
  "nth_node_cd l k = bind_res (Head_cd l) (advance_dn (cells_cd l) k)"

text \<open>
  Ring closure: a list of positive size has a tail node, a head node, the tail's \<open>next\<close> is
  the head, and the tail is the node \<open>size - 1\<close> steps after the head; in the doubly linked
  ring the head's \<open>prev\<close> is the tail.
\<close>

definition ring_closed_cs :: "'a CircularSinglyLinkedList \<Rightarrow> bool" where
  "ring_closed_cs l \<longleftrightarrow>
     (0 < Size_cs l \<longrightarrow>
       (case Head_cs l of
          Ok (Some a) \<Rightarrow>
            Tail_cs l \<noteq> None \<and> Next_sn (cells_cs l) (Tail_cs l) = Ok (Some a) \<and>
            nth_node_cs l (nat (Size_cs l - 1)) = Ok (Tail_cs l)
        | _ \<Rightarrow> False))"

definition ring_closed_cd :: "'a CircularDoublyLinkedList \<Rightarrow> bool" where
  "ring_closed_cd l \<longleftrightarrow>
     (0 < Size_cd l \<longrightarrow>
       (case Head_cd l of
          Ok (Some a) \<Rightarrow>
            Tail_cd l \<noteq> None \<and> Next_dn (cells_cd l) (Tail_cd l) = Ok (Some a) \<and>
            Prev_dn (cells_cd l) (Some a) = Ok (Tail_cd l) \<and>
            nth_node_cd l (nat (Size_cd l - 1)) = Ok (Tail_cd l)
        | _ \<Rightarrow> False))"

text \<open>
  Symmetry of \<open>prev\<close> and \<open>next\<close> at a node \<open>a\<close>: when \<open>a.next\<close> is a node \<open>b\<close>, then
  \<open>b.prev\<close> is \<open>a\<close>. A list is symmetric at position \<open>k\<close> when this holds at the node \<open>k\<close>
  steps after its head, if there is one.
\<close>

definition linked_back :: "'a DoublyLinkedNode list \<Rightarrow> ptr \<Rightarrow> bool" where
  "linked_back h a \<longleftrightarrow>
     (case Next_dn h a of
        Ok (Some b) \<Rightarrow> Prev_dn h (Some b) = Ok a
      | Ok None \<Rightarrow> True
      | Panic \<Rightarrow> False)"

definition symmetric_dl :: "'a DoublyLinkedList \<Rightarrow> nat \<Rightarrow> bool" where
  "symmetric_dl l k \<longleftrightarrow>
     (case nth_node_dl l k of Ok (Some a) \<Rightarrow> linked_back (cells_dl l) (Some a) | _ \<Rightarrow> True)"

definition symmetric_cd :: "'a CircularDoublyLinkedList \<Rightarrow> nat \<Rightarrow> bool" where
  "symmetric_cd l k \<longleftrightarrow>
     (case nth_node_cd l k of Ok (Some a) \<Rightarrow> linked_back (cells_cd l) (Some a) | _ \<Rightarrow> True)"

text \<open>
  The contract of an operation that takes an index: it returns an error exactly when the index
  is \<open>bad\<close>, and then the list it leaves is the list it was given.
\<close>

definition index_contract :: "(error option \<times> 'l) res \<Rightarrow> 'l \<Rightarrow> bool \<Rightarrow> bool" where
  "index_contract r l bad \<longleftrightarrow>
     (case r of Ok (err, l') \<Rightarrow> (err \<noteq> None) = bad \<and> (bad \<longrightarrow> l' = l) | Panic \<Rightarrow> False)"

definition Get_result :: "((ptr \<times> error option) \<times> 'l) res \<Rightarrow> (error option \<times> 'l) res" where
  "Get_result r = bind_res r (\<lambda>x. Ok (snd (fst x), snd x))"

text \<open>
  The size agrees with a full traversal: in a linear list the walk from the head meets a node
  at each of the steps \<open>0, ..., size - 1\<close> and \<open>nil\<close> at step \<open>size\<close>; in a circular list it
  is back at the head at step \<open>size\<close>, and at no step in between.
\<close>

definition traversal_sl :: "'a SinglyLinkedList \<Rightarrow> bool" where
  "traversal_sl l \<longleftrightarrow>
     0 \<le> Size_sl l \<and> nth_node_sl l (nat (Size_sl l)) = Ok None \<and>
     (\<forall>k. k < nat (Size_sl l) \<longrightarrow> (case nth_node_sl l k of Ok (Some a) \<Rightarrow> True | _ \<Rightarrow> False))"

definition traversal_dl :: "'a DoublyLinkedList \<Rightarrow> bool" where
  "traversal_dl l \<longleftrightarrow>
     0 \<le> Size_dl l \<and> nth_node_dl l (nat (Size_dl l)) = Ok None \<and>
     (\<forall>k. k < nat (Size_dl l) \<longrightarrow> (case nth_node_dl l k of Ok (Some a) \<Rightarrow> True | _ \<Rightarrow> False))"

definition traversal_cs :: "'a CircularSinglyLinkedList \<Rightarrow> bool" where
  "traversal_cs l \<longleftrightarrow>
     0 \<le> Size_cs l \<and> (Head_cs l = Ok None) = (Size_cs l = 0) \<and> Head_cs l \<noteq> Panic \<and>
     nth_node_cs l (nat (Size_cs l)) = Head_cs l \<and>
     (\<forall>k. 0 < k \<and> k < nat (Size_cs l) \<longrightarrow>
        (case nth_node_cs l k of Ok (Some a) \<Rightarrow> Ok (Some a) \<noteq> Head_cs l | _ \<Rightarrow> False))"

definition traversal_cd :: "'a CircularDoublyLinkedList \<Rightarrow> bool" where
  "traversal_cd l \<longleftrightarrow>
     0 \<le> Size_cd l \<and> (Head_cd l = Ok None) = (Size_cd l = 0) \<and> Head_cd l \<noteq> Panic \<and>
     nth_node_cd l (nat (Size_cd l)) = Head_cd l \<and>
     (\<forall>k. 0 < k \<and> k < nat (Size_cd l) \<longrightarrow>
        (case nth_node_cd l k of Ok (Some a) \<Rightarrow> Ok (Some a) \<noteq> Head_cd l | _ \<Rightarrow> False))"

text \<open>
  \<open>Append\<close> of a circular list as the specification words it: \<open>Prepend\<close>, then the tail
  reference moves to the newly inserted node, the node that \<open>Prepend\<close> has allocated.
\<close>

definition Append_spec_cs :: "'a \<Rightarrow> 'a CircularSinglyLinkedList \<Rightarrow> 'a CircularSinglyLinkedList res" where
  "Append_spec_cs v l =
     bind_res (Prepend_cs v l) (\<lambda>l1.
       Ok (l1\<lparr>tail_cs := fst (alloc (cells_cs l) (NewSinglyLinkedNode v))\<rparr>))"

definition Append_spec_cd :: "'a \<Rightarrow> 'a CircularDoublyLinkedList \<Rightarrow> 'a CircularDoublyLinkedList res" where
  "Append_spec_cd v l =
     bind_res (Prepend_cd v l) (\<lambda>l1.
       Ok (l1\<lparr>tail_cd := fst (alloc (cells_cd l) (NewDoublyLinkedNode v))\<rparr>))"

text \<open>The position of the first occurrence of a value in a sequence.\<close>

definition first_index :: "'a \<Rightarrow> 'a list \<Rightarrow> nat" where
  "first_index v vs = length (takeWhile (\<lambda>x. x \<noteq> v) vs)"


text \<open>
  \<open>Find\<close> of the circular singly linked list as the specification words it: the scan starts at
  the head and is stopped by the count of \<open>size\<close> iterations.
\<close>

fun Find_count_loop :: "nat \<Rightarrow> 'a SinglyLinkedNode list \<Rightarrow> ptr \<Rightarrow> 'a \<Rightarrow> ptr res" where
  "Find_count_loop 0 h current v = Ok None"
| "Find_count_loop (Suc n) h current v =
     bind_res (Value_sn h current) (\<lambda>x.
       if x = v then Ok current
       else bind_res (Next_sn h current) (\<lambda>nx. Find_count_loop n h nx v))"

definition Find_spec_cs :: "'a \<Rightarrow> 'a CircularSinglyLinkedList \<Rightarrow> (ptr \<times> 'a CircularSinglyLinkedList) res" where
  "Find_spec_cs v l =
     (if IsEmpty_cs l then Ok (None, l)
      else bind_res (Head_cs l) (\<lambda>current.
           bind_res (Find_count_loop (nat (Size_cs l)) (cells_cs l) current v) (\<lambda>node. Ok (node, l))))"


text \<open>
  \<open>Find\<close> of the two circular lists with a trace: the same loops, which in addition record in
  \<open>visited\<close> every node whose value they compare with the argument, one node for each
  iteration of the loop. The trace is not a variable of the program; what the functions return
  besides it is what \<open>Find\<close> returns.
\<close>

partial_function (option) Find_trace_cs_loop ::
  "'a CircularSinglyLinkedList \<Rightarrow> ptr \<Rightarrow> 'a \<Rightarrow> ptr list \<Rightarrow> (ptr \<times> ptr list) res option" where
  "Find_trace_cs_loop l current v visited =
     (case Value_sn (cells_cs l) current of Panic \<Rightarrow> Some Panic
      | Ok x \<Rightarrow>
         if x = v then Some (Ok (current, visited @ [current]))
         else (case Next_sn (cells_cs l) current of Panic \<Rightarrow> Some Panic
               | Ok nx \<Rightarrow> (case Head_cs l of Panic \<Rightarrow> Some Panic
                           | Ok hp \<Rightarrow> if nx = hp then Some (Ok (None, visited @ [current]))
                                     else Find_trace_cs_loop l nx v (visited @ [current]))))"

definition Find_trace_cs ::
  "'a \<Rightarrow> 'a CircularSinglyLinkedList \<Rightarrow> ((ptr \<times> 'a CircularSinglyLinkedList) \<times> ptr list) res option" where
  "Find_trace_cs v l =
     (if IsEmpty_cs l then Some (Ok ((None, l), []))
      else bind_out (Some (Head_cs l)) (\<lambda>current.
           bind_out (Find_trace_cs_loop l current v []) (\<lambda>(node, visited).
             Some (Ok ((node, l), visited)))))"

fun Find_trace_cd_loop ::
  "nat \<Rightarrow> 'a DoublyLinkedNode list \<Rightarrow> ptr \<Rightarrow> 'a \<Rightarrow> ptr list \<Rightarrow> (ptr \<times> ptr list) res" where
  "Find_trace_cd_loop 0 h current v visited = Ok (None, visited)"
| "Find_trace_cd_loop (Suc n) h current v visited =
     bind_res (Value_dn h current) (\<lambda>x.
       if x = v then Ok (current, visited @ [current])
       else bind_res (Next_dn h current) (\<lambda>nx.
              Find_trace_cd_loop n h nx v (visited @ [current])))"

definition Find_trace_cd ::
  "'a \<Rightarrow> 'a CircularDoublyLinkedList \<Rightarrow> ((ptr \<times> 'a CircularDoublyLinkedList) \<times> ptr list) res" where
  "Find_trace_cd v l =
     (if IsEmpty_cd l then Ok ((None, l), [])
      else bind_res (Head_cd l) (\<lambda>current.
           bind_res (Find_trace_cd_loop (nat (Size_cd l)) (cells_cd l) current v [])
             (\<lambda>(node, visited). Ok ((node, l), visited))))"


section \<open>Example lists\<close>

text \<open>
  The four lists after \<open>Append(1)\<close>, \<open>Append(2)\<close>, \<open>Prepend(0)\<close>: the node at address 0 holds 1,
  the node at address 1 holds 2 and is the tail, the node at address 2 holds 0 and is the head.
\<close>

definition sl_012 :: "int SinglyLinkedList" where
  "sl_012 = \<lparr>cells_sl = [\<lparr>value_sn = 1, next_sn = Some 1\<rparr>, \<lparr>value_sn = 2, next_sn = None\<rparr>,
                          \<lparr>value_sn = 0, next_sn = Some 0\<rparr>],
             head_sl = Some 2, tail_sl = Some 1, size_sl = 3\<rparr>"

definition cs_012 :: "int CircularSinglyLinkedList" where
  "cs_012 = \<lparr>cells_cs = [\<lparr>value_sn = 1, next_sn = Some 1\<rparr>, \<lparr>value_sn = 2, next_sn = Some 2\<rparr>,
                          \<lparr>value_sn = 0, next_sn = Some 0\<rparr>],
             tail_cs = Some 1, size_cs = 3\<rparr>"

definition dl_012 :: "int DoublyLinkedList" where
  "dl_012 = \<lparr>cells_dl = [\<lparr>value_dn = 1, next_dn = Some 1, prev_dn = Some 2\<rparr>,
                          \<lparr>value_dn = 2, next_dn = None, prev_dn = Some 0\<rparr>,
                          \<lparr>value_dn = 0, next_dn = Some 0, prev_dn = None\<rparr>],
             head_dl = Some 2, tail_dl = Some 1, size_dl = 3\<rparr>"

definition cd_012 :: "int CircularDoublyLinkedList" where
  "cd_012 = \<lparr>cells_cd = [\<lparr>value_dn = 1, next_dn = Some 1, prev_dn = Some 2\<rparr>,
                          \<lparr>value_dn = 2, next_dn = Some 2, prev_dn = Some 0\<rparr>,
                          \<lparr>value_dn = 0, next_dn = Some 0, prev_dn = Some 1\<rparr>],
             tail_cd = Some 1, size_cd = 3\<rparr>"

text \<open>
  The four lists after \<open>Append(1)\<close>, \<open>RemoveFirst()\<close>: empty, with the unlinked node still in
  the arena.
\<close>

definition sl_none :: "int SinglyLinkedList" where
  "sl_none = \<lparr>cells_sl = [\<lparr>value_sn = 1, next_sn = None\<rparr>], head_sl = None, tail_sl = None,
              size_sl = 0\<rparr>"

definition cs_none :: "int CircularSinglyLinkedList" where
  "cs_none = \<lparr>cells_cs = [\<lparr>value_sn = 1, next_sn = Some 0\<rparr>], tail_cs = None, size_cs = 0\<rparr>"

definition dl_none :: "int DoublyLinkedList" where
  "dl_none = \<lparr>cells_dl = [\<lparr>value_dn = 1, next_dn = None, prev_dn = None\<rparr>], head_dl = None,
              tail_dl = None, size_dl = 0\<rparr>"

definition cd_none :: "int CircularDoublyLinkedList" where
  "cd_none = \<lparr>cells_cd = [\<lparr>value_dn = 1, next_dn = Some 0, prev_dn = Some 0\<rparr>], tail_cd = None,
              size_cd = 0\<rparr>"

text \<open>
  The two doubly linked lists after \<open>Append(5)\<close>, \<open>Append(10)\<close>, \<open>InsertAt(1, 7)\<close>,
  \<open>Reverse()\<close>: the sequence is 10, 7, 5 through the addresses 1, 2, 0.
\<close>

definition dl_10_7_5 :: "int DoublyLinkedList" where
  "dl_10_7_5 = \<lparr>cells_dl = [\<lparr>value_dn = 5, next_dn = None, prev_dn = Some 2\<rparr>,
                             \<lparr>value_dn = 10, next_dn = Some 2, prev_dn = None\<rparr>,
                             \<lparr>value_dn = 7, next_dn = Some 0, prev_dn = Some 1\<rparr>],
                head_dl = Some 1, tail_dl = Some 0, size_dl = 3\<rparr>"

definition cd_10_7_5 :: "int CircularDoublyLinkedList" where
  "cd_10_7_5 = \<lparr>cells_cd = [\<lparr>value_dn = 5, next_dn = Some 1, prev_dn = Some 2\<rparr>,
                             \<lparr>value_dn = 10, next_dn = Some 2, prev_dn = Some 0\<rparr>,
                             \<lparr>value_dn = 7, next_dn = Some 0, prev_dn = Some 1\<rparr>],
                tail_cd = Some 0, size_cd = 3\<rparr>"

text \<open>
  The four lists of strings after \<open>Append("b")\<close>, \<open>Append("c")\<close>, \<open>Prepend("a")\<close>; a string is
  displayed as it is.
\<close>

definition sl_abc :: "string SinglyLinkedList" where
  "sl_abc = \<lparr>cells_sl = [\<lparr>value_sn = ''b'', next_sn = Some 1\<rparr>, \<lparr>value_sn = ''c'', next_sn = None\<rparr>,
                          \<lparr>value_sn = ''a'', next_sn = Some 0\<rparr>],
             head_sl = Some 2, tail_sl = Some 1, size_sl = 3\<rparr>"

definition cs_abc :: "string CircularSinglyLinkedList" where
  "cs_abc = \<lparr>cells_cs = [\<lparr>value_sn = ''b'', next_sn = Some 1\<rparr>,
                          \<lparr>value_sn = ''c'', next_sn = Some 2\<rparr>,
                          \<lparr>value_sn = ''a'', next_sn = Some 0\<rparr>],
             tail_cs = Some 1, size_cs = 3\<rparr>"

definition dl_abc :: "string DoublyLinkedList" where
  "dl_abc = \<lparr>cells_dl = [\<lparr>value_dn = ''b'', next_dn = Some 1, prev_dn = Some 2\<rparr>,
                          \<lparr>value_dn = ''c'', next_dn = None, prev_dn = Some 0\<rparr>,
                          \<lparr>value_dn = ''a'', next_dn = Some 0, prev_dn = None\<rparr>],
             head_dl = Some 2, tail_dl = Some 1, size_dl = 3\<rparr>"

definition cd_abc :: "string CircularDoublyLinkedList" where
  "cd_abc = \<lparr>cells_cd = [\<lparr>value_dn = ''b'', next_dn = Some 1, prev_dn = Some 2\<rparr>,
                          \<lparr>value_dn = ''c'', next_dn = Some 2, prev_dn = Some 0\<rparr>,
                          \<lparr>value_dn = ''a'', next_dn = Some 0, prev_dn = Some 1\<rparr>],
             tail_cd = Some 1, size_cd = 3\<rparr>"

section \<open>Lemmas on results, chains and the arena of singly linked nodes\<close>

lemma bind_res_simps [simp]:
  "bind_res (Ok x) f = f x" "bind_res Panic f = Panic"
  by (simp_all add: bind_res_def)

lemma bind_out_simps [simp]:
  "bind_out None g = None" "bind_out (Some Panic) g = Some Panic" "bind_out (Some (Ok x)) g = g x"
  by (simp_all add: bind_out_def)

lemma alloc_simp [simp]: "alloc h n = (Some (length h), h @ [n])"
  by (simp add: alloc_def)

subsection \<open>Chains\<close>

lemma seg_Cons_iff [simp]: "seg f p (a # as) q \<longleftrightarrow> p = Some a \<and> (\<exists>r. f a = Some r \<and> seg f r as q)"
  by (auto split: option.splits)

declare seg.simps(2) [simp del]

lemma seg_None [simp]: "seg f None as q \<longleftrightarrow> as = [] \<and> q = None"
  by (cases as) auto

lemma seg_append: "seg f p (as @ bs) q \<longleftrightarrow> (\<exists>r. seg f p as r \<and> seg f r bs q)"
  by (induction as arbitrary: p) auto

lemma seg_snoc: "seg f p (as @ [a]) q \<longleftrightarrow> seg f p as (Some a) \<and> f a = Some q"
  by (auto simp: seg_append)

lemma seg_upd_other: "a \<notin> set as \<Longrightarrow> seg (f(a := x)) p as q = seg f p as q"
  by (induction as arbitrary: p) auto

lemma seg_cong_on: "(\<And>a. a \<in> set as \<Longrightarrow> f a = g a) \<Longrightarrow> seg f p as q = seg g p as q"
  by (induction as arbitrary: p) auto

lemma seg_allocated: "seg f p as q \<Longrightarrow> a \<in> set as \<Longrightarrow> f a \<noteq> None"
  by (induction as arbitrary: p) auto

lemma seg_start: "seg f p as q \<Longrightarrow> as \<noteq> [] \<Longrightarrow> p = Some (hd as)"
  by (cases as) auto


lemma seg_unique_end: "seg f p as q \<Longrightarrow> seg f p as q' \<Longrightarrow> q = q'"
  by (induction as arbitrary: p) auto

subsection \<open>Arena\<close>

lemma nxs_append [simp]: "nxs (h @ [n]) = (nxs h)(length h := Some (next_sn n))"
  by (auto simp: nxs_def fun_eq_iff nth_append)

lemma nxs_update [simp]: "a < length h \<Longrightarrow> nxs (h[a := c]) = (nxs h)(a := Some (next_sn c))"
  by (auto simp: nxs_def fun_eq_iff)

lemma nxs_upd_value [simp]: "nxs (h[a := (h ! a)\<lparr>value_sn := v\<rparr>]) = nxs h"
  by (cases "a < length h") (auto simp: nxs_def fun_eq_iff nth_list_update)

lemma nxs_Some_less: "nxs h a = Some q \<Longrightarrow> a < length h"
  by (auto simp: nxs_def split: if_splits)

lemma nxs_ge [simp]: "nxs h (length h) = None"
  by (simp add: nxs_def)

lemma Next_sn_nxs: "Next_sn h (Some a) = (case nxs h a of None \<Rightarrow> Panic | Some q \<Rightarrow> Ok q)"
  by (simp add: Next_sn_def deref_def nxs_def)

lemma Next_sn_None [simp]: "Next_sn h None = Panic"
  by (simp add: Next_sn_def deref_def)

lemma Value_sn_Some: "a < length h \<Longrightarrow> Value_sn h (Some a) = Ok (vls h a)"
  by (simp add: Value_sn_def deref_def vls_def)

lemma Value_sn_None [simp]: "Value_sn h None = Panic"
  by (simp add: Value_sn_def deref_def)

lemma HasNext_sn_nxs: "HasNext_sn h (Some a) = (case nxs h a of None \<Rightarrow> Panic | Some q \<Rightarrow> Ok (q \<noteq> None))"
  by (simp add: HasNext_sn_def deref_def nxs_def)

lemma SetNext_sn_Some: "a < length h \<Longrightarrow> SetNext_sn h (Some a) q = Ok (h[a := (h ! a)\<lparr>next_sn := q\<rparr>])"
  by (simp add: SetNext_sn_def assign_def)

lemma SetValue_sn_Some: "a < length h \<Longrightarrow> SetValue_sn h (Some a) v = Ok (h[a := (h ! a)\<lparr>value_sn := v\<rparr>])"
  by (simp add: SetValue_sn_def assign_def)

lemma value_sn_nth [simp]: "value_sn (h ! a) = vls h a"
  by (simp add: vls_def)

lemma vls_append: "a < length h \<Longrightarrow> vls (h @ [n]) a = vls h a"
  unfolding vls_def by (simp add: nth_append)

lemma vls_append_new [simp]: "vls (h @ [n]) (length h) = value_sn n"
  unfolding vls_def by simp

lemma vls_update [simp]: "a < length h \<Longrightarrow> vls (h[a := c]) = (vls h)(a := value_sn c)"
  unfolding vls_def by (auto simp: fun_eq_iff nth_list_update)

subsection \<open>Splicing chains and rings\<close>

lemma seg_splice_in:
  assumes "distinct (xs @ ys)" "xs \<noteq> []" "n \<notin> set (xs @ ys)" "seg f p (xs @ ys) e" "f (last xs) = Some q"
  shows "seg (f(n := Some q, last xs := Some (Some n))) p (xs @ n # ys) e"
proof -
  obtain xs' t where xs: "xs = xs' @ [t]" using assms(2) by (metis append_butlast_last_id)
  show ?thesis using assms unfolding xs
    by (auto simp: seg_append seg_upd_other)
qed

lemma seg_splice_out:
  assumes "distinct (xs @ a # ys)" "xs \<noteq> []" "seg f p (xs @ a # ys) e" 
  shows "\<exists>q. f a = Some q \<and> seg (f(last xs := Some q)) p (xs @ ys) e"
proof -
  obtain xs' t where xs: "xs = xs' @ [t]" using assms(2) by (metis append_butlast_last_id)
  show ?thesis using assms unfolding xs
    by (auto simp: seg_append seg_upd_other)
qed

lemma ring_Cons: "ring f (a # as) \<longleftrightarrow> (\<exists>r. f a = Some r \<and> seg f r as (Some a))"
  by (auto simp: ring_def)

lemma ring_snoc: "ring f (as @ [a]) \<longleftrightarrow> seg f (Some (hd (as @ [a]))) as (Some a) \<and> f a = Some (Some (hd (as @ [a])))"
  by (auto simp: ring_def seg_snoc)

lemma ring_rotate: "ring f (a # as) \<longleftrightarrow> ring f (as @ [a])"
proof (cases as)
  case Nil
  then show ?thesis by (simp add: ring_def)
next
  case (Cons b bs)
  then show ?thesis by (auto simp: ring_Cons ring_snoc seg_snoc)
qed

lemma ring_last: "ring f as \<Longrightarrow> as \<noteq> [] \<Longrightarrow> f (last as) = Some (Some (hd as))"
  by (cases as rule: rev_cases) (auto simp: ring_snoc)

lemma ring_allocated: "ring f as \<Longrightarrow> a \<in> set as \<Longrightarrow> f a \<noteq> None"
  unfolding ring_def using seg_allocated by fastforce

lemma ring_splice_in:
  assumes "distinct (xs @ ys)" "xs \<noteq> []" "n \<notin> set (xs @ ys)" "ring f (xs @ ys)" "f (last xs) = Some q"
  shows "ring (f(n := Some q, last xs := Some (Some n))) (xs @ n # ys)"
  using seg_splice_in[of xs ys n f _ _ q] assms by (auto simp: ring_def)

lemma ring_splice_out:
  assumes "distinct (xs @ a # ys)" "xs \<noteq> []" "ring f (xs @ a # ys)" 
  shows "\<exists>q. f a = Some q \<and> ring (f(last xs := Some q)) (xs @ ys)"
  using seg_splice_out[of xs a ys f] assms by (auto simp: ring_def)

lemma ring_upd_other: "a \<notin> set as \<Longrightarrow> ring (f(a := x)) as = ring f as"
  by (simp add: ring_def seg_upd_other)

lemma ring_cong_on: "(\<And>a. a \<in> set as \<Longrightarrow> f a = g a) \<Longrightarrow> ring f as = ring g as"
  unfolding ring_def using seg_cong_on[of as f g] by auto

section \<open>CircularSinglyLinkedList: the operations keep the representation\<close>

subsection \<open>Prepend, Append, Clear, RemoveFirst and RemoveLast\<close>

lemma ring_nxs_bound: "ring (nxs h) as \<Longrightarrow> a \<in> set as \<Longrightarrow> a < length h"
  using ring_allocated[of "nxs h" as a] by (auto simp: nxs_def split: if_splits)

lemma seg_nxs_bound: "seg (nxs h) p as q \<Longrightarrow> a \<in> set as \<Longrightarrow> a < length h"
  using seg_allocated[of "nxs h" p as q a] by (auto simp: nxs_def split: if_splits)


lemma cs_rep_emptyD: "cs_rep l [] vs \<Longrightarrow> tail_cs l = None \<and> size_cs l = 0 \<and> vs = []"
  by (simp add: cs_rep_def cs_inv_def)

lemma Prepend_cs_rep:
  assumes "cs_rep l as vs"
  shows "\<exists>l'. Prepend_cs v l = Ok l' \<and> cs_rep l' (length (cells_cs l) # as) (v # vs)"
proof (cases "as = []")
  case True
  with assms show ?thesis
    by (simp add: cs_rep_def cs_inv_def Prepend_cs_def IsEmpty_cs_def Size_cs_def SetNext_sn_Some
        NewSinglyLinkedNode_def ring_Cons)
next
  case False
  let ?h = "cells_cs l" and ?n = "length (cells_cs l)"
  from assms have inv: "distinct as" "ring (nxs ?h) as" "tail_cs l = Some (last as)"
    "size_cs l = int (length as)" and vs: "vs = map (vls ?h) as"
    using False by (simp_all add: cs_rep_def cs_inv_def)
  have bound: "\<forall>a\<in>set as. a < ?n" using ring_nxs_bound[OF inv(2)] by blast
  have fresh: "?n \<notin> set as" using bound by auto
  have lt: "last as < ?n" using bound False by simp
  have tl: "nxs ?h (last as) = Some (Some (hd as))" using ring_last[OF inv(2) False] .
  have r: "ring ((nxs ?h)(?n := Some (Some (hd as)), last as := Some (Some ?n))) (as @ [?n])"
    using ring_splice_in[of as "[]" ?n "nxs ?h" "Some (hd as)"] inv False fresh tl by simp
  have neq: "last as \<noteq> ?n" using lt by simp
  show ?thesis
    using False inv bound fresh lt tl r neq vs
    by (simp add: cs_rep_def cs_inv_def Prepend_cs_def IsEmpty_cs_def Size_cs_def Tail_cs_def
        SetNext_sn_Some Next_sn_nxs NewSinglyLinkedNode_def ring_rotate nth_append vls_append
        fun_upd_twist less_SucI)
qed


lemma advance_sn_seg:
  "seg (nxs h) p as q \<Longrightarrow> i \<le> length as \<Longrightarrow>
   advance_sn h i p = Ok (if i < length as then Some (as ! i) else q)"
proof (induction as arbitrary: p i)
  case Nil
  then show ?case by simp
next
  case (Cons a as)
  show ?case
  proof (cases i)
    case 0
    with Cons.prems show ?thesis by simp
  next
    case (Suc j)
    with Cons.prems Cons.IH[of _ j] show ?thesis by (auto simp: Next_sn_nxs)
  qed
qed

lemma seek_sn_seg:
  "seg (nxs h) p (xs @ [c]) (Some t) \<Longrightarrow> t \<notin> set (tl (xs @ [c])) \<Longrightarrow>
   seek_sn h p (Some t) = Some (Ok (Some c))"
proof (induction xs arbitrary: p)
  case Nil
  then show ?case by (subst seek_sn.simps) (auto simp: Next_sn_nxs)
next
  case (Cons x xs)
  from Cons.prems obtain r where r: "p = Some x" "nxs h x = Some r" "seg (nxs h) r (xs @ [c]) (Some t)"
    by auto
  have hd: "r = Some (hd (xs @ [c]))" using seg_start[OF r(3)] by simp
  have ne: "r \<noteq> Some t" using Cons.prems(2) hd by (cases xs) auto
  have "t \<notin> set (tl (xs @ [c]))" using Cons.prems(2) by (cases xs) auto
  from Cons.IH[OF r(3) this] show ?case
    using r ne by (subst seek_sn.simps) (simp add: Next_sn_nxs)
qed

lemma cs_rep_rotate:
  assumes "cs_rep l (a # as) (v # vs)"
  shows "cs_rep (l\<lparr>tail_cs := Some a\<rparr>) (as @ [a]) (vs @ [v])"
  using assms by (auto simp: cs_rep_def cs_inv_def ring_rotate)

lemma cs_rep_ring_last:
  "cs_rep l as vs \<Longrightarrow> as \<noteq> [] \<Longrightarrow> nxs (cells_cs l) (last as) = Some (Some (hd as))"
  by (simp add: cs_rep_def cs_inv_def ring_last)

lemma cs_rep_tail: "cs_rep l as vs \<Longrightarrow> tail_cs l = (if as = [] then None else Some (last as))"
  by (simp add: cs_rep_def cs_inv_def)

lemma cs_rep_size: "cs_rep l as vs \<Longrightarrow> size_cs l = int (length as)"
  by (simp add: cs_rep_def cs_inv_def)

lemma cs_rep_Head: "cs_rep l as vs \<Longrightarrow> Head_cs l = Ok (if as = [] then None else Some (hd as))"
  by (auto simp: Head_cs_def Tail_cs_def cs_rep_tail Next_sn_nxs cs_rep_ring_last)

lemma Append_cs_rep:
  assumes "cs_rep l as vs"
  shows "\<exists>l'. Append_cs v l = Ok l' \<and> cs_rep l' (as @ [length (cells_cs l)]) (vs @ [v])"
proof -
  from Prepend_cs_rep[OF assms, of v] obtain l1 where
    l1: "Prepend_cs v l = Ok l1" "cs_rep l1 (length (cells_cs l) # as) (v # vs)" by blast
  have "nxs (cells_cs l1) (last (length (cells_cs l) # as)) = Some (Some (length (cells_cs l)))"
    using cs_rep_ring_last[OF l1(2)] by simp
  moreover have "tail_cs l1 = Some (last (length (cells_cs l) # as))"
    using cs_rep_tail[OF l1(2)] by simp
  ultimately show ?thesis
    using cs_rep_rotate[OF l1(2)] l1(1)
    by (simp add: Append_cs_def Tail_cs_def Next_sn_nxs)
qed

lemma cs_rep_bound: "cs_rep l as vs \<Longrightarrow> a \<in> set as \<Longrightarrow> a < length (cells_cs l)"
  unfolding cs_rep_def cs_inv_def using ring_nxs_bound by blast

lemma Clear_cs_rep: "cs_rep (Clear_cs l) [] []"
  by (simp add: cs_rep_def cs_inv_def Clear_cs_def ring_def)

lemma RemoveFirst_cs_rep:
  assumes "cs_rep l as vs"
  shows "\<exists>l'. RemoveFirst_cs l = Ok l' \<and> cs_rep l' (tl as) (tl vs)"
proof -
  consider "as = []" | a where "as = [a]" | a as' where "as = a # as'" "as' \<noteq> []"
    by (cases as) auto
  then show ?thesis
  proof cases
    case 1
    with assms have "vs = []" by (simp add: cs_rep_def)
    with 1 assms show ?thesis by (simp add: RemoveFirst_cs_def IsEmpty_cs_def Size_cs_def cs_rep_size)
  next
    case 2
    with assms have "vs = [vls (cells_cs l) a]" by (simp add: cs_rep_def)
    with 2 assms show ?thesis
      by (simp add: RemoveFirst_cs_def IsEmpty_cs_def Size_cs_def cs_rep_size Clear_cs_rep)
  next
    case 3
    let ?f = "nxs (cells_cs l)"
    from assms 3 have inv: "distinct (as' @ [a])" "ring ?f (as' @ [a])" "tail_cs l = Some (last as')"
      "size_cs l = int (length as)" "vs = map (vls (cells_cs l)) as"
      by (auto simp: cs_rep_def cs_inv_def ring_rotate)
    from ring_splice_out[of as' a "[]" ?f] inv 3 obtain q where
      q: "?f a = Some q" "ring (?f(last as' := Some q)) as'" by auto
    have tl: "?f (last as') = Some (Some a)" using cs_rep_ring_last[OF assms] 3 by simp
    have b: "last as' < length (cells_cs l)" using cs_rep_bound[OF assms, of "last as'"] 3 by simp
    have "a \<noteq> last as'" using inv(1) 3 by auto
    then show ?thesis using inv 3 q tl b
      by (auto simp: RemoveFirst_cs_def IsEmpty_cs_def Size_cs_def Tail_cs_def Next_sn_nxs
          SetNext_sn_Some cs_rep_def cs_inv_def)
  qed
qed

lemma RemoveLast_cs_rep:
  assumes "cs_rep l as vs"
  shows "\<exists>l'. RemoveLast_cs l = Some (Ok l') \<and> cs_rep l' (butlast as) (butlast vs)"
proof -
  consider "as = []" | a where "as = [a]" | t as' where "as = as' @ [t]" "as' \<noteq> []"
    by (cases as rule: rev_cases) fastforce+
  then show ?thesis
  proof cases
    case 1
    with assms have "vs = []" by (simp add: cs_rep_def)
    with 1 assms show ?thesis by (simp add: RemoveLast_cs_def IsEmpty_cs_def Size_cs_def cs_rep_size)
  next
    case 2
    with assms have "vs = [vls (cells_cs l) a]" by (simp add: cs_rep_def)
    with 2 assms show ?thesis
      by (simp add: RemoveLast_cs_def IsEmpty_cs_def Size_cs_def cs_rep_size Clear_cs_rep)
  next
    case 3
    let ?f = "nxs (cells_cs l)"
    from assms 3 have inv: "distinct (as' @ [t])" "ring ?f (as' @ [t])" "tail_cs l = Some t"
      "size_cs l = int (length as)" "vs = map (vls (cells_cs l)) as"
      by (auto simp: cs_rep_def cs_inv_def)
    from ring_splice_out[of as' t "[]" ?f] inv 3 obtain q where
      q: "?f t = Some q" "ring (?f(last as' := Some q)) as'" by auto
    have sg: "seg ?f (Some (hd as)) (butlast as' @ [last as']) (Some t)"
      using inv(2) 3 by (simp add: ring_snoc)
    have "t \<notin> set (tl (butlast as' @ [last as']))" using inv(1) 3
      by (metis append_butlast_last_id distinct.simps(2) distinct1_rotate list.set_sel(2) rotate1.simps(2))
    from seek_sn_seg[OF sg this] have
      sk: "seek_sn (cells_cs l) (Some (hd as)) (Some t) = Some (Ok (Some (last as')))" .
    have b: "last as' < length (cells_cs l)" using cs_rep_bound[OF assms, of "last as'"] 3 by simp
    show ?thesis using inv 3 q b sk cs_rep_Head[OF assms]
      by (auto simp: RemoveLast_cs_def IsEmpty_cs_def Size_cs_def Tail_cs_def Next_sn_nxs
          SetNext_sn_Some cs_rep_def cs_inv_def butlast_append map_butlast[symmetric])
  qed
qed

subsection \<open>Remove\<close>

lemma first_occurrence:
  assumes "v \<in> set (map g as)"
  shows "\<exists>ys1 c ys2. as = ys1 @ c # ys2 \<and> v \<notin> set (map g ys1) \<and> g c = v"
  using assms
proof (induction as)
  case Nil
  then show ?case by simp
next
  case (Cons a as)
  show ?case
  proof (cases "g a = v")
    case True
    then have "a # as = [] @ a # as \<and> v \<notin> set (map g []) \<and> g a = v" by simp
    then show ?thesis by blast
  next
    case False
    with Cons obtain ys1 c ys2 where "as = ys1 @ c # ys2" "v \<notin> set (map g ys1)" "g c = v" by auto
    with False have "a # as = (a # ys1) @ c # ys2 \<and> v \<notin> set (map g (a # ys1)) \<and> g c = v" by auto
    then show ?thesis by blast
  qed
qed

lemma remove1_first: "v \<notin> set xs \<Longrightarrow> remove1 v (xs @ v # ys) = xs @ ys"
  by (induction xs) auto

lemma Remove_cs_loop_skip:
  assumes "seg (nxs (cells_cs l)) cur ys r" "\<forall>a\<in>set ys. vls (cells_cs l) a \<noteq> v"
  shows "Remove_cs_loop (length ys + n) v prev cur l
       = Remove_cs_loop n v (if ys = [] then prev else Some (last ys)) r l"
  using assms
proof (induction ys arbitrary: prev cur)
  case Nil
  then show ?case by simp
next
  case (Cons a ys)
  from Cons.prems obtain r' where r': "cur = Some a" "nxs (cells_cs l) a = Some r'"
    "seg (nxs (cells_cs l)) r' ys r" by auto
  have b: "a < length (cells_cs l)" using r'(2) by (rule nxs_Some_less)
  from Cons.prems(2) have nv: "vls (cells_cs l) a \<noteq> v" "\<forall>a\<in>set ys. vls (cells_cs l) a \<noteq> v" by auto
  show ?case using Cons.IH[OF r'(3) nv(2), of "Some a"] r' b nv(1)
    by (simp add: Value_sn_Some Next_sn_nxs)
qed

lemma Remove_cs_rep:
  assumes "cs_rep l as vs"
  shows "\<exists>l' as'. Remove_cs v l = Ok l' \<and> cs_rep l' as' (remove1 v vs)"
proof (cases "as = []")
  case True
  with assms have "vs = []" "size_cs l = 0" by (simp_all add: cs_rep_def cs_inv_def)
  with assms True show ?thesis by (auto simp: Remove_cs_def IsEmpty_cs_def Size_cs_def)
next
  case False
  let ?h = "cells_cs l" and ?f = "nxs (cells_cs l)"
  from assms False have inv: "distinct as" "ring ?f as" "tail_cs l = Some (last as)"
    "size_cs l = int (length as)" "vs = map (vls ?h) as"
    by (auto simp: cs_rep_def cs_inv_def)
  have hd: "?f (last as) = Some (Some (hd as))" using cs_rep_ring_last[OF assms False] .
  have sg: "seg ?f (Some (hd as)) as (Some (hd as))" using inv(2) False by (simp add: ring_def)
  have start: "Remove_cs v l = Remove_cs_loop (length as) v (Some (last as)) (Some (hd as)) l"
    using False inv hd by (simp add: Remove_cs_def IsEmpty_cs_def Size_cs_def Tail_cs_def Next_sn_nxs)
  show ?thesis
  proof (cases "v \<in> set vs")
    case False
    then have "\<forall>a\<in>set as. vls ?h a \<noteq> v" using inv(5) by auto
    from Remove_cs_loop_skip[OF sg this, of 0 "Some (last as)"]
    have "Remove_cs v l = Ok l" using start by simp
    moreover have "remove1 v vs = vs" using False by (simp add: remove1_idem)
    ultimately show ?thesis using assms by auto
  next
    case True
    then obtain ys1 c ys2 where sp: "as = ys1 @ c # ys2" "v \<notin> set (map (vls ?h) ys1)" "vls ?h c = v"
      using first_occurrence[of v "vls ?h" as] inv(5) by auto
    have vs': "remove1 v vs = map (vls ?h) (ys1 @ ys2)"
      using remove1_first[OF sp(2), of "map (vls ?h) ys2"] sp inv(5) by simp
    obtain r where r: "seg ?f (Some (hd as)) ys1 r" "seg ?f r (c # ys2) (Some (hd as))"
      using sg unfolding sp(1) seg_append by blast
    have rc: "r = Some c" using r(2) by simp
    have nv: "\<forall>a\<in>set ys1. vls ?h a \<noteq> v" using sp(2) by auto
    define prev where "prev = (if ys1 = [] then Some (last as) else Some (last ys1))"
    have loop: "Remove_cs v l = Remove_cs_loop (Suc (length ys2)) v prev (Some c) l"
      using Remove_cs_loop_skip[OF r(1) nv, of "Suc (length ys2)" "Some (last as)"] start rc sp(1)
      by (simp add: prev_def)
    have cb: "c < length ?h" using cs_rep_bound[OF assms, of c] sp(1) by simp
    show ?thesis
    proof (cases "length as = 1")
      case True
      then have "ys1 = []" "ys2 = []" using sp(1) by auto
      then show ?thesis using loop cb sp(3) inv(4) True vs' Clear_cs_rep[of l]
        by (auto simp: Value_sn_Some Size_cs_def)
    next
      case ne1: False
      show ?thesis
      proof (cases "ys1 = []")
        case True
        then have ys2: "ys2 \<noteq> []" "as = c # ys2" using ne1 sp(1) by auto
        have "ring ?f (ys2 @ [c])" using inv(2) ys2 by (simp add: ring_rotate)
        from ring_splice_out[of ys2 c "[]" ?f] this inv(1) ys2 obtain q where
          q: "?f c = Some q" "ring (?f(last ys2 := Some q)) ys2" by auto
        have tb: "last ys2 < length ?h" using cs_rep_bound[OF assms, of "last ys2"] ys2 by simp
        have "c \<noteq> last ys2" using inv(1) ys2 by auto
        then have "cs_rep (l\<lparr>cells_cs := ?h[last ys2 := (?h ! last ys2)\<lparr>next_sn := q\<rparr>],
                       size_cs := size_cs l - 1\<rparr>) ys2 (map (vls ?h) ys2)"
          using q tb inv ys2 by (auto simp: cs_rep_def cs_inv_def)
        moreover have "Remove_cs v l = Ok (l\<lparr>cells_cs := ?h[last ys2 := (?h ! last ys2)\<lparr>next_sn := q\<rparr>],
                       size_cs := size_cs l - 1\<rparr>)"
          using loop cb sp(3) inv(3,4) ne1 True ys2 q tb \<open>c \<noteq> last ys2\<close>
          by (simp add: prev_def Value_sn_Some Size_cs_def Next_sn_nxs SetNext_sn_Some Tail_cs_def)
        ultimately show ?thesis using vs' True by auto
      next
        case False
        from ring_splice_out[of ys1 c ys2 ?f] inv(1,2) False sp(1) obtain q where
          q: "?f c = Some q" "ring (?f(last ys1 := Some q)) (ys1 @ ys2)" by auto
        have pb: "last ys1 < length ?h" using cs_rep_bound[OF assms, of "last ys1"] False sp(1) by simp
        have pc: "last ys1 \<noteq> c" using inv(1) False sp(1) by auto
        let ?l1 = "l\<lparr>cells_cs := ?h[last ys1 := (?h ! last ys1)\<lparr>next_sn := q\<rparr>]\<rparr>"
        let ?l2 = "if Some c = tail_cs l then ?l1\<lparr>tail_cs := Some (last ys1)\<rparr> else ?l1"
        have res: "Remove_cs v l = Ok (?l2\<lparr>size_cs := size_cs l - 1\<rparr>)"
          using loop cb sp(3) inv(4) ne1 False q pb
          by (simp add: prev_def Value_sn_Some Size_cs_def Next_sn_nxs SetNext_sn_Some Tail_cs_def)
        have "cs_rep (?l2\<lparr>size_cs := size_cs l - 1\<rparr>) (ys1 @ ys2) (map (vls ?h) (ys1 @ ys2))"
        proof (cases "ys2 = []")
          case True
          then show ?thesis using q pb pc inv sp(1) False
            by (auto simp: cs_rep_def cs_inv_def)
        next
          case ys2: False
          then have "c \<noteq> last ys2" using inv(1) sp(1) by auto
          then show ?thesis using q pb pc inv sp(1) False ys2
            by (auto simp: cs_rep_def cs_inv_def)
        qed
        then show ?thesis using res vs' by auto
      qed
    qed
  qed
qed

subsection \<open>Get, Set and InsertAt\<close>

lemma map_upd_nth:
  "distinct as \<Longrightarrow> i < length as \<Longrightarrow> map (g(as ! i := v)) as = (map g as)[i := v]"
  by (auto simp: list_eq_iff_nth_eq nth_list_update nth_eq_iff_index_eq)

lemma cs_rep_seg: "cs_rep l as vs \<Longrightarrow> as \<noteq> [] \<Longrightarrow> seg (nxs (cells_cs l)) (Some (hd as)) as (Some (hd as))"
  by (simp add: cs_rep_def cs_inv_def ring_def)

lemma cs_rep_advance:
  assumes "cs_rep l as vs" "i < length as"
  shows "advance_sn (cells_cs l) i (Some (hd as)) = Ok (Some (as ! i))"
proof -
  have "as \<noteq> []" using assms(2) by auto
  from advance_sn_seg[OF cs_rep_seg[OF assms(1) this], of i] assms(2) show ?thesis by simp
qed

lemma cs_rep_length: "cs_rep l as vs \<Longrightarrow> length vs = length as"
  by (simp add: cs_rep_def)

lemma Get_cs_rep:
  assumes "cs_rep l as vs"
  shows "Get_cs index l =
           (if index < 0 \<or> int (length vs) \<le> index then Ok ((None, Some (OutOfBounds index)), l)
            else Ok ((Some (as ! nat index), None), l))"
proof (cases "index < 0 \<or> int (length vs) \<le> index")
  case True
  then show ?thesis using cs_rep_size[OF assms] cs_rep_length[OF assms]
    by (auto simp: Get_cs_def Size_cs_def)
next
  case False
  then have i: "nat index < length as" using cs_rep_length[OF assms] by auto
  then have "as \<noteq> []" by auto
  then show ?thesis using False cs_rep_size[OF assms] cs_rep_length[OF assms]
      cs_rep_Head[OF assms] cs_rep_advance[OF assms i]
    by (auto simp: Get_cs_def Size_cs_def)
qed

lemma Set_cs_rep:
  assumes "cs_rep l as vs"
  shows "if index < 0 \<or> int (length vs) \<le> index then Set_cs index v l = Ok (Some (OutOfBounds index), l)
         else (\<exists>l'. Set_cs index v l = Ok (None, l') \<and> cs_rep l' as (vs[nat index := v]))"
proof (cases "index < 0 \<or> int (length vs) \<le> index")
  case True
  then show ?thesis by (simp add: Set_cs_def Get_cs_rep[OF assms])
next
  case False
  then have i: "nat index < length as" using cs_rep_length[OF assms] by auto
  then have b: "as ! nat index < length (cells_cs l)" using cs_rep_bound[OF assms] by simp
  have "cs_rep (l\<lparr>cells_cs := (cells_cs l)[as ! nat index := (cells_cs l ! (as ! nat index))\<lparr>value_sn := v\<rparr>]\<rparr>)
          as (vs[nat index := v])"
    using assms i b by (auto simp: cs_rep_def cs_inv_def map_upd_nth)
  then show ?thesis using False b
    by (simp add: Set_cs_def Get_cs_rep[OF assms] SetValue_sn_Some)
qed

lemma InsertAt_cs_rep:
  assumes "cs_rep l as vs"
  shows "if index < 0 \<or> int (length vs) < index then InsertAt_cs index v l = Ok (Some (OutOfBounds index), l)
         else (\<exists>l' as'. InsertAt_cs index v l = Ok (None, l') \<and>
                 cs_rep l' as' (take (nat index) vs @ v # drop (nat index) vs))"
proof -
  have len: "length vs = length as" and sz: "size_cs l = int (length as)"
    using cs_rep_length[OF assms] cs_rep_size[OF assms] by auto
  consider (err) "index < 0 \<or> int (length vs) < index" | (first) "index = 0"
    | (atend) "index = int (length vs)" "index \<noteq> 0" | (mid) "0 < index" "index < int (length vs)"
    by linarith
  then show ?thesis
  proof cases
    case err
    then show ?thesis using len sz by (auto simp: InsertAt_cs_def Size_cs_def)
  next
    case first
    then show ?thesis using Prepend_cs_rep[OF assms, of v] len sz
      by (auto simp: InsertAt_cs_def Size_cs_def)
  next
    case atend
    then show ?thesis using Append_cs_rep[OF assms, of v] len sz
      by (auto simp: InsertAt_cs_def Size_cs_def)
  next
    case mid
    let ?h = "cells_cs l" and ?f = "nxs (cells_cs l)" and ?n = "length (cells_cs l)"
    define i where "i = nat index"
    define xs where "xs = take i as"
    define ys where "ys = drop i as"
    have i: "0 < i" "i < length as" using mid len by (auto simp: i_def)
    have sp: "as = xs @ ys" "xs \<noteq> []" "ys \<noteq> []" "length xs = i"
      using i by (auto simp: xs_def ys_def)
    have lx: "last xs = as ! (i - 1)" using sp i
      by (metis One_nat_def diff_less last_conv_nth length_greater_0_conv less_numeral_extra(1) nth_append)
    from assms have inv: "distinct as" "ring ?f as" "tail_cs l = Some (last as)" "vs = map (vls ?h) as"
      using sp by (auto simp: cs_rep_def cs_inv_def)
    have adv: "advance_sn ?h (nat (index - 1)) (Some (hd as)) = Ok (Some (last xs))"
      using cs_rep_advance[OF assms, of "i - 1"] i lx by (simp add: i_def nat_diff_distrib)
    have bnd: "\<forall>a\<in>set as. a < ?n" using cs_rep_bound[OF assms] by blast
    then have fresh: "?n \<notin> set (xs @ ys)" using sp(1) by auto
    have lb: "last xs < ?n" using bnd sp by simp
    obtain q where q: "?f (last xs) = Some q"
      using ring_allocated[OF inv(2), of "last xs"] sp by auto
    have r: "ring (?f(?n := Some q, last xs := Some (Some ?n))) (xs @ ?n # ys)"
      using ring_splice_in[of xs ys ?n ?f q] inv(1,2) sp fresh q by simp
    let ?l' = "l\<lparr>cells_cs := (?h @ [\<lparr>value_sn = v, next_sn = q\<rparr>])
                  [last xs := (?h ! last xs)\<lparr>next_sn := Some ?n\<rparr>], size_cs := size_cs l + 1\<rparr>"
    have res: "InsertAt_cs index v l = Ok (None, ?l')"
      using mid len sz cs_rep_Head[OF assms] sp adv q lb
      by (simp add: InsertAt_cs_def Size_cs_def Next_sn_nxs SetNext_sn_Some NewSinglyLinkedNode_def
          less_SucI nth_append)
    have tvs: "take i vs = map (vls ?h) xs" "drop i vs = map (vls ?h) ys"
      using inv(4) by (simp_all add: xs_def ys_def take_map drop_map)
    have d: "distinct (xs @ ys)" "last as = last ys" "length as = length xs + length ys"
      "\<forall>a\<in>set xs. a < ?n" "\<forall>a\<in>set ys. a < ?n"
      using inv(1) sp bnd by auto
    have lne: "last xs \<noteq> ?n" using lb by simp
    have "cs_rep ?l' (xs @ ?n # ys) (take i vs @ v # drop i vs)"
      unfolding tvs using r d inv(3) sp(2,3) lb lne fresh sz
      by (auto simp: cs_rep_def cs_inv_def less_SucI fun_upd_twist vls_append)
    then show ?thesis using res mid len by (auto simp: i_def)
  qed
qed

subsection \<open>Reverse, Find, Contains, String and ForEach\<close>

lemma Reverse_cs_loop_seg:
  assumes "seg (nxs h) cur rest e" "distinct rest"
  shows "\<exists>h'. Reverse_cs_loop (length rest) h prev cur
               = Ok (h', if rest = [] then prev else Some (last rest)) \<and>
              seg (nxs h') (if rest = [] then prev else Some (last rest)) (rev rest) prev \<and>
              (\<forall>b. b \<notin> set rest \<longrightarrow> nxs h' b = nxs h b) \<and> vls h' = vls h \<and> length h' = length h"
  using assms
proof (induction rest arbitrary: h prev cur)
  case Nil
  then show ?case by simp
next
  case (Cons a rs)
  from Cons.prems obtain r where r: "cur = Some a" "nxs h a = Some r" "seg (nxs h) r rs e" by auto
  have b: "a < length h" using r(2) by (rule nxs_Some_less)
  let ?h1 = "h[a := (h ! a)\<lparr>next_sn := prev\<rparr>]"
  have s1: "seg (nxs ?h1) r rs e" using r(3) Cons.prems(2) b by (simp add: seg_upd_other)
  from Cons.IH[OF s1, of "Some a"] Cons.prems(2) obtain h' where
    h': "Reverse_cs_loop (length rs) ?h1 (Some a) r = Ok (h', if rs = [] then Some a else Some (last rs))"
    "seg (nxs h') (if rs = [] then Some a else Some (last rs)) (rev rs) (Some a)"
    "\<forall>b. b \<notin> set rs \<longrightarrow> nxs h' b = nxs ?h1 b" "vls h' = vls ?h1" "length h' = length ?h1"
    by auto
  have na: "nxs h' a = Some prev" using h'(3) Cons.prems(2) b by simp
  have "Reverse_cs_loop (length (a # rs)) h prev cur = Ok (h', Some (last (a # rs)))"
    using h'(1) r b by (simp add: Next_sn_nxs SetNext_sn_Some)
  moreover have "seg (nxs h') (Some (last (a # rs))) (rev (a # rs)) prev"
    using h'(2) na by (cases "rs = []") (simp_all add: seg_snoc)
  moreover have "\<forall>b. b \<notin> set (a # rs) \<longrightarrow> nxs h' b = nxs h b" using h'(3) b by simp
  moreover have "vls h' = vls h" using h'(4) b by (simp add: fun_eq_iff)
  moreover have "length h' = length h" using h'(5) by simp
  ultimately show ?case by auto
qed

lemma Reverse_cs_rep:
  assumes "cs_rep l as vs"
  shows "\<exists>l'. Reverse_cs l = Ok l' \<and> cs_rep l' (rev as) (rev vs)"
proof (cases "length as \<le> 1")
  case True
  then have "rev as = as" by (cases as) auto
  moreover have "length vs \<le> 1" using True cs_rep_length[OF assms] by simp
  then have "rev vs = vs" by (cases vs) auto
  moreover have "Reverse_cs l = Ok l" using True cs_rep_size[OF assms]
    by (cases as) (auto simp: Reverse_cs_def IsEmpty_cs_def Size_cs_def)
  ultimately show ?thesis using assms by simp
next
  case False
  then have ne: "as \<noteq> []" by auto
  let ?h = "cells_cs l"
  from assms have inv: "distinct as" "size_cs l = int (length as)" "vs = map (vls ?h) as"
    by (auto simp: cs_rep_def cs_inv_def)
  from Reverse_cs_loop_seg[OF cs_rep_seg[OF assms ne] inv(1), of None] ne obtain h1 where
    h1: "Reverse_cs_loop (length as) ?h None (Some (hd as)) = Ok (h1, Some (last as))"
    "seg (nxs h1) (Some (last as)) (rev as) None" "vls h1 = vls ?h" "length h1 = length ?h"
    by auto
  have hb: "hd as < length h1" using cs_rep_bound[OF assms, of "hd as"] ne h1(4) by simp
  let ?h2 = "h1[hd as := (h1 ! hd as)\<lparr>next_sn := Some (last as)\<rparr>]"
  have res: "Reverse_cs l = Ok (l\<lparr>cells_cs := ?h2, tail_cs := Some (hd as)\<rparr>)"
    using False ne inv(2) cs_rep_Head[OF assms] h1(1) hb
    by (simp add: Reverse_cs_def IsEmpty_cs_def Size_cs_def SetNext_sn_Some)
  have ra: "rev as = rev (tl as) @ [hd as]" using ne by (cases as) auto
  have "hd as \<notin> set (tl as)" using inv(1) ne by (cases as) auto
  then have "seg (nxs ?h2) (Some (last as)) (rev (tl as) @ [hd as]) (Some (last as))"
    using h1(2)[unfolded ra] hb by (auto simp: seg_snoc seg_upd_other)
  then have "ring (nxs ?h2) (rev as)"
    using ne by (simp add: ring_def hd_rev ra[symmetric])
  then have "cs_rep (l\<lparr>cells_cs := ?h2, tail_cs := Some (hd as)\<rparr>) (rev as) (rev vs)"
    using inv ne hb h1(3) by (auto simp: cs_rep_def cs_inv_def last_rev rev_map)
  then show ?thesis using res by simp
qed

lemma Find_cs_loop_seg:
  assumes "seg (nxs (cells_cs l)) (Some c) (c # rest) (Some hp)" "hp \<notin> set rest"
    "Head_cs l = Ok (Some hp)"
  shows "Find_cs_loop l (Some c) v
           = Some (Ok (map_of (zip (map (vls (cells_cs l)) (c # rest)) (c # rest)) v))"
  using assms
proof (induction rest arbitrary: c)
  case Nil
  then have "c < length (cells_cs l)" by (auto dest: nxs_Some_less)
  with Nil show ?case by (subst Find_cs_loop.simps) (auto simp: Value_sn_Some Next_sn_nxs)
next
  case (Cons b rs)
  then have cb: "c < length (cells_cs l)" by (auto dest: nxs_Some_less)
  from Cons.prems have nx: "nxs (cells_cs l) c = Some (Some b)"
    "seg (nxs (cells_cs l)) (Some b) (b # rs) (Some hp)" "hp \<notin> set rs" "b \<noteq> hp" by auto
  show ?case using Cons.IH[OF nx(2,3) Cons.prems(3)] nx(1,4) cb Cons.prems(3)
    by (subst Find_cs_loop.simps) (auto simp: Value_sn_Some Next_sn_nxs)
qed

lemma Find_cs_rep:
  assumes "cs_rep l as vs"
  shows "Find_cs v l = Some (Ok (map_of (zip vs as) v, l))"
proof (cases as)
  case Nil
  then show ?thesis using cs_rep_size[OF assms] by (simp add: Find_cs_def IsEmpty_cs_def Size_cs_def)
next
  case (Cons c rest)
  have hdl: "Head_cs l = Ok (Some c)" using cs_rep_Head[OF assms] Cons by simp
  have "c \<notin> set rest" using assms Cons by (auto simp: cs_rep_def cs_inv_def)
  from Find_cs_loop_seg[OF _ this hdl, where v = v] cs_rep_seg[OF assms] Cons
  have "Find_cs_loop l (Some c) v = Some (Ok (map_of (zip vs as) v))"
    using assms by (simp add: cs_rep_def)
  then show ?thesis using hdl cs_rep_size[OF assms] Cons
    by (simp add: Find_cs_def IsEmpty_cs_def Size_cs_def)
qed

lemma Contains_cs_rep:
  assumes "cs_rep l as vs"
  shows "Contains_cs v l = Some (Ok (v \<in> set vs, l))"
proof -
  have "length vs = length as" using cs_rep_length[OF assms] .
  then have "(map_of (zip vs as) v \<noteq> None) = (v \<in> set vs)"
    by (simp add: map_of_eq_None_iff set_map[symmetric] del: set_map)
  then show ?thesis by (simp add: Contains_cs_def Find_cs_rep[OF assms])
qed

lemma join_Cons: "join sep (x # xs) = x @ (if xs = [] then [] else sep @ join sep xs)"
  by (cases xs) auto

lemma String_cs_loop_seg:
  assumes "seg (nxs (cells_cs l)) cur rest e" "i + int (length rest) = Size_cs l"
  shows "String_cs_loop showv l (length rest) i result cur
           = Ok (result @ join '' -> '' (map (boxed showv) (map (vls (cells_cs l)) rest)))"
  using assms
proof (induction rest arbitrary: cur i result)
  case Nil
  then show ?case by simp
next
  case (Cons a rs)
  from Cons.prems obtain r where r: "cur = Some a" "nxs (cells_cs l) a = Some r"
    "seg (nxs (cells_cs l)) r rs e" by auto
  have b: "a < length (cells_cs l)" using r(2) by (rule nxs_Some_less)
  have i: "(i + 1) + int (length rs) = Size_cs l" "(i < Size_cs l - 1) = (rs \<noteq> [])"
    using Cons.prems(2) by (auto simp: length_greater_0_conv[symmetric] simp del: length_greater_0_conv)
  show ?case using Cons.IH[OF r(3) i(1)] r b i(2)
    by (simp add: Value_sn_Some Next_sn_nxs join_Cons boxed_def)
qed

lemma String_cs_rep:
  assumes "cs_rep l as vs"
  shows "String_cs showv l = Ok (display ''CircularSinglyLinkedList'' '' -> '' showv vs, l)"
proof (cases "as = []")
  case True
  then show ?thesis using assms
    by (simp add: cs_rep_def cs_inv_def String_cs_def IsEmpty_cs_def Size_cs_def display_def)
next
  case False
  have sz: "size_cs l = int (length as)" "vs = map (vls (cells_cs l)) as"
    using assms by (auto simp: cs_rep_def cs_inv_def)
  from String_cs_loop_seg[OF cs_rep_seg[OF assms False], where i = 0 and showv = showv and result = "''CircularSinglyLinkedList: ''"]
  show ?thesis using False sz cs_rep_Head[OF assms]
    by (simp add: String_cs_def IsEmpty_cs_def Size_cs_def display_def)
qed

lemma ForEach_cs_loop_seg:
  assumes "seg (nxs (cells_cs l)) cur rest q" "\<And>x st. fst (action x st) = fst st"
  shows "ForEach_cs_loop action (length rest) cur (l, e)
           = Ok (l, foldl (\<lambda>e x. snd (action x (l, e))) e (map (vls (cells_cs l)) rest))"
  using assms(1)
proof (induction rest arbitrary: cur e)
  case Nil
  then show ?case by simp
next
  case (Cons a rs)
  from Cons.prems obtain r where r: "cur = Some a" "nxs (cells_cs l) a = Some r"
    "seg (nxs (cells_cs l)) r rs q" by auto
  have b: "a < length (cells_cs l)" using r(2) by (rule nxs_Some_less)
  have st: "action (vls (cells_cs l) a) (l, e) = (l, snd (action (vls (cells_cs l) a) (l, e)))"
    using assms(2)[of "vls (cells_cs l) a" "(l, e)"] by (metis fst_conv prod.collapse)
  show ?case using Cons.IH[OF r(3), of "snd (action (vls (cells_cs l) a) (l, e))"] r b assms(2)
    by (simp add: Value_sn_Some Next_sn_nxs) (metis st)
qed

lemma ForEach_cs_rep:
  assumes "cs_rep l as vs" "\<And>x st. fst (action x st) = fst st"
  shows "ForEach_cs action (l, e) = Ok (l, foldl (\<lambda>e x. snd (action x (l, e))) e vs)"
proof (cases "as = []")
  case True
  then show ?thesis using assms(1)
    by (simp add: cs_rep_def cs_inv_def ForEach_cs_def IsEmpty_cs_def Size_cs_def)
next
  case False
  have sz: "size_cs l = int (length as)" "vs = map (vls (cells_cs l)) as"
    using assms(1) by (auto simp: cs_rep_def cs_inv_def)
  from ForEach_cs_loop_seg[OF cs_rep_seg[OF assms(1) False] assms(2), where e = e]
  show ?thesis using False sz cs_rep_Head[OF assms(1)]
    by (simp add: ForEach_cs_def IsEmpty_cs_def Size_cs_def)
qed

lemma foldl_collect: "foldl (\<lambda>e x. snd (collect x (l, e))) e vs = e @ vs"
  by (induction vs arbitrary: e) (auto simp: collect_def)

lemma fst_collect: "fst (collect x st) = fst st"
  by (simp add: collect_def)

lemma values_cs_rep: "cs_rep l as vs \<Longrightarrow> values_cs l = Ok vs"
  using ForEach_cs_rep[of l as vs collect "[]", OF _ fst_collect]
  by (simp add: values_cs_def foldl_collect)

section \<open>Lemmas on the arena of doubly linked nodes\<close>

lemma length_put_dn [simp]:
  "length (put_next_dn h a q) = length h" "length (put_prev_dn h a q) = length h"
  "length (put_value_dn h a v) = length h"
  by (simp_all add: put_next_dn_def put_prev_dn_def put_value_dn_def)

lemma nxd_put [simp]:
  "a < length h \<Longrightarrow> nxd (put_next_dn h a q) = (nxd h)(a := Some q)"
  "nxd (put_prev_dn h a q) = nxd h"
  "nxd (put_value_dn h a v) = nxd h"
  by (cases "a < length h"; auto simp: nxd_def fun_eq_iff put_next_dn_def put_prev_dn_def
      put_value_dn_def nth_list_update)+

lemma pvd_put [simp]:
  "pvd (put_next_dn h a q) = pvd h"
  "a < length h \<Longrightarrow> pvd (put_prev_dn h a q) = (pvd h)(a := Some q)"
  "pvd (put_value_dn h a v) = pvd h"
  by (cases "a < length h"; auto simp: pvd_def fun_eq_iff put_next_dn_def put_prev_dn_def
      put_value_dn_def nth_list_update)+

lemma vld_put [simp]:
  "vld (put_next_dn h a q) = vld h"
  "vld (put_prev_dn h a q) = vld h"
  "a < length h \<Longrightarrow> vld (put_value_dn h a v) = (vld h)(a := v)"
  by (cases "a < length h"; auto simp: vld_def fun_eq_iff put_next_dn_def put_prev_dn_def
      put_value_dn_def nth_list_update not_less list_update_beyond)+

lemma nxd_append [simp]: "nxd (h @ [n]) = (nxd h)(length h := Some (next_dn n))"
  by (auto simp: nxd_def fun_eq_iff nth_append)

lemma pvd_append [simp]: "pvd (h @ [n]) = (pvd h)(length h := Some (prev_dn n))"
  by (auto simp: pvd_def fun_eq_iff nth_append)

lemma vld_append: "a < length h \<Longrightarrow> vld (h @ [n]) a = vld h a"
  unfolding vld_def by (simp add: nth_append)

lemma vld_append_new [simp]: "vld (h @ [n]) (length h) = value_dn n"
  unfolding vld_def by simp

lemma nxd_Some_less: "nxd h a = Some q \<Longrightarrow> a < length h"
  by (auto simp: nxd_def split: if_splits)

lemma pvd_Some_less: "pvd h a = Some q \<Longrightarrow> a < length h"
  by (auto simp: pvd_def split: if_splits)

lemma nxd_ge [simp]: "nxd h (length h) = None"
  by (simp add: nxd_def)

lemma pvd_ge [simp]: "pvd h (length h) = None"
  by (simp add: pvd_def)

lemma Next_dn_nxd: "Next_dn h (Some a) = (case nxd h a of None \<Rightarrow> Panic | Some q \<Rightarrow> Ok q)"
  by (simp add: Next_dn_def deref_def nxd_def)

lemma Prev_dn_pvd: "Prev_dn h (Some a) = (case pvd h a of None \<Rightarrow> Panic | Some q \<Rightarrow> Ok q)"
  by (simp add: Prev_dn_def deref_def pvd_def)

lemma HasNext_dn_nxd: "HasNext_dn h (Some a) = (case nxd h a of None \<Rightarrow> Panic | Some q \<Rightarrow> Ok (q \<noteq> None))"
  by (simp add: HasNext_dn_def deref_def nxd_def)

lemma Next_dn_None [simp]: "Next_dn h None = Panic"
  by (simp add: Next_dn_def deref_def)

lemma Prev_dn_None [simp]: "Prev_dn h None = Panic"
  by (simp add: Prev_dn_def deref_def)

lemma Value_dn_None [simp]: "Value_dn h None = Panic"
  by (simp add: Value_dn_def deref_def)

lemma Value_dn_Some: "a < length h \<Longrightarrow> Value_dn h (Some a) = Ok (vld h a)"
  by (simp add: Value_dn_def deref_def vld_def)

lemma SetNext_dn_Some: "a < length h \<Longrightarrow> SetNext_dn h (Some a) q = Ok (put_next_dn h a q)"
  by (simp add: SetNext_dn_def assign_def put_next_dn_def)

lemma SetPrev_dn_Some: "a < length h \<Longrightarrow> SetPrev_dn h (Some a) q = Ok (put_prev_dn h a q)"
  by (simp add: SetPrev_dn_def assign_def put_prev_dn_def)

lemma SetValue_dn_Some: "a < length h \<Longrightarrow> SetValue_dn h (Some a) v = Ok (put_value_dn h a v)"
  by (simp add: SetValue_dn_def assign_def put_value_dn_def)

lemma seg_nxd_bound: "seg (nxd h) p as q \<Longrightarrow> a \<in> set as \<Longrightarrow> a < length h"
  using seg_allocated[of "nxd h" p as q a] by (auto simp: nxd_def split: if_splits)

lemma ring_nxd_bound: "ring (nxd h) as \<Longrightarrow> a \<in> set as \<Longrightarrow> a < length h"
  using ring_allocated[of "nxd h" as a] by (auto simp: nxd_def split: if_splits)

subsection \<open>Rings, rotated\<close>

lemma ring_rotate_append: "ring f (xs @ ys) \<longleftrightarrow> ring f (ys @ xs)"
proof (induction xs arbitrary: ys)
  case Nil
  then show ?case by simp
next
  case (Cons x xs)
  have "ring f ((x # xs) @ ys) \<longleftrightarrow> ring f ((xs @ ys) @ [x])" using ring_rotate[of f x "xs @ ys"] by simp
  also have "\<dots> \<longleftrightarrow> ring f (xs @ (ys @ [x]))" by simp
  also have "\<dots> \<longleftrightarrow> ring f ((ys @ [x]) @ xs)" by (rule Cons.IH)
  finally show ?case by simp
qed

lemma ring_insert:
  assumes "distinct (xs @ ys)" "xs @ ys \<noteq> []" "n \<notin> set (xs @ ys)" "ring f (xs @ ys)"
  shows "f (last (ys @ xs)) = Some (Some (hd (ys @ xs))) \<and>
         ring (f(n := Some (Some (hd (ys @ xs))), last (ys @ xs) := Some (Some n))) (xs @ n # ys)"
proof -
  have r: "ring f (ys @ xs)" using assms(4) by (simp add: ring_rotate_append)
  have ne: "ys @ xs \<noteq> []" using assms(2) by auto
  have l: "f (last (ys @ xs)) = Some (Some (hd (ys @ xs)))" using ring_last[OF r ne] .
  have "ring (f(n := Some (Some (hd (ys @ xs))), last (ys @ xs) := Some (Some n))) ((ys @ xs) @ n # [])"
    using ring_splice_in[of "ys @ xs" "[]" n f, OF _ ne _ _ l] assms(1,3) r by auto
  then have "ring (f(n := Some (Some (hd (ys @ xs))), last (ys @ xs) := Some (Some n))) (ys @ (xs @ [n]))"
    by simp
  then have "ring (f(n := Some (Some (hd (ys @ xs))), last (ys @ xs) := Some (Some n))) ((xs @ [n]) @ ys)"
    by (subst ring_rotate_append)
  then show ?thesis using l by simp
qed

lemma ring_insert_rev:
  assumes "distinct (xs @ ys)" "xs @ ys \<noteq> []" "n \<notin> set (xs @ ys)" "ring g (rev (xs @ ys))"
  shows "g (hd (ys @ xs)) = Some (Some (last (ys @ xs))) \<and>
         ring (g(n := Some (Some (last (ys @ xs))), hd (ys @ xs) := Some (Some n))) (rev (xs @ n # ys))"
proof -
  have ne: "rev ys @ rev xs \<noteq> []" using assms(2) by auto
  have hl: "last (rev xs @ rev ys) = hd (ys @ xs)" "hd (rev xs @ rev ys) = last (ys @ xs)"
    using assms(2) by (metis last_rev rev_append Nil_is_append_conv, metis hd_rev rev_append Nil_is_append_conv)
  from ring_insert[of "rev ys" "rev xs" n g] assms ne
  show ?thesis by (auto simp: hl Int_commute)
qed

lemma ring_remove:
  assumes "distinct (xs @ c # ys)" "xs @ ys \<noteq> []" "ring f (xs @ c # ys)"
  shows "f c = Some (Some (hd (ys @ xs))) \<and> f (last (ys @ xs)) = Some (Some c) \<and>
         ring (f(last (ys @ xs) := Some (Some (hd (ys @ xs))))) (xs @ ys)"
proof -
  have "ring f ((c # ys) @ xs)" using assms(3) by (subst ring_rotate_append)
  then have "ring f (c # (ys @ xs))" by simp
  then have r: "ring f ((ys @ xs) @ [c])" by (simp only: ring_rotate)
  have ne: "ys @ xs \<noteq> []" using assms(2) by auto
  have d: "distinct ((ys @ xs) @ c # [])" using assms(1) by auto
  from ring_splice_out[OF d ne] r obtain q where
    q: "f c = Some q" "ring (f(last (ys @ xs) := Some q)) (ys @ xs)" by auto
  have "f c = Some (Some (hd ((ys @ xs) @ [c])))" using ring_last[OF r] by simp
  moreover have "hd ((ys @ xs) @ [c]) = hd (ys @ xs)" using ne by (rule hd_append2)
  ultimately have qe: "q = Some (hd (ys @ xs))" using q(1) by simp
  have "f (last (ys @ xs)) = Some (Some c)" using r ne
    by (metis append_butlast_last_id ring_snoc seg_snoc)
  then show ?thesis using q qe by (simp add: ring_rotate_append[of _ xs ys])
qed

lemma ring_remove_rev:
  assumes "distinct (xs @ c # ys)" "xs @ ys \<noteq> []" "ring g (rev (xs @ c # ys))"
  shows "g c = Some (Some (last (ys @ xs))) \<and> g (hd (ys @ xs)) = Some (Some c) \<and>
         ring (g(hd (ys @ xs) := Some (Some (last (ys @ xs))))) (rev (xs @ ys))"
proof -
  have ne: "rev ys @ rev xs \<noteq> []" using assms(2) by auto
  have hl: "last (rev xs @ rev ys) = hd (ys @ xs)" "hd (rev xs @ rev ys) = last (ys @ xs)"
    using assms(2) by (metis last_rev rev_append Nil_is_append_conv, metis hd_rev rev_append Nil_is_append_conv)
  from ring_remove[of "rev ys" c "rev xs" g] assms ne
  show ?thesis by (auto simp: hl Int_commute)
qed

section \<open>CircularDoublyLinkedList: the operations keep the representation\<close>

subsection \<open>Prepend, Append, Clear, RemoveFirst and RemoveLast\<close>

lemma cd_rep_bound: "cd_rep l as vs \<Longrightarrow> a \<in> set as \<Longrightarrow> a < length (cells_cd l)"
  unfolding cd_rep_def cd_inv_def using ring_nxd_bound by blast

lemma cd_rep_tail: "cd_rep l as vs \<Longrightarrow> tail_cd l = (if as = [] then None else Some (last as))"
  by (simp add: cd_rep_def cd_inv_def)

lemma cd_rep_size: "cd_rep l as vs \<Longrightarrow> size_cd l = int (length as)"
  by (simp add: cd_rep_def cd_inv_def)

lemma cd_rep_length: "cd_rep l as vs \<Longrightarrow> length vs = length as"
  by (simp add: cd_rep_def)

lemma cd_rep_ring_last:
  "cd_rep l as vs \<Longrightarrow> as \<noteq> [] \<Longrightarrow> nxd (cells_cd l) (last as) = Some (Some (hd as))"
  by (simp add: cd_rep_def cd_inv_def ring_last)

lemma cd_rep_ring_first:
  "cd_rep l as vs \<Longrightarrow> as \<noteq> [] \<Longrightarrow> pvd (cells_cd l) (hd as) = Some (Some (last as))"
  using ring_last[of "pvd (cells_cd l)" "rev as"] by (simp add: cd_rep_def cd_inv_def last_rev hd_rev)

lemma cd_rep_Head: "cd_rep l as vs \<Longrightarrow> Head_cd l = Ok (if as = [] then None else Some (hd as))"
  by (auto simp: Head_cd_def Tail_cd_def cd_rep_tail Next_dn_nxd cd_rep_ring_last)

lemma cd_rep_seg: "cd_rep l as vs \<Longrightarrow> as \<noteq> [] \<Longrightarrow> seg (nxd (cells_cd l)) (Some (hd as)) as (Some (hd as))"
  by (simp add: cd_rep_def cd_inv_def ring_def)

lemma Clear_cd_rep: "cd_rep (Clear_cd l) [] []"
  by (simp add: cd_rep_def cd_inv_def Clear_cd_def ring_def)

lemma Append_cd_rep_aux:
  assumes "cd_rep l as vs"
  shows "\<exists>l'. Prepend_cd v l = Ok l' \<and> cd_rep (l'\<lparr>tail_cd := Some (length (cells_cd l))\<rparr>)
            (as @ [length (cells_cd l)]) (vs @ [v]) \<and>
            tail_cd l' = Some (if as = [] then length (cells_cd l) else last as)"
proof (cases "as = []")
  case True
  with assms show ?thesis
    by (simp add: cd_rep_def cd_inv_def Prepend_cd_def IsEmpty_cd_def Size_cd_def SetNext_dn_Some
        SetPrev_dn_Some NewDoublyLinkedNode_def ring_Cons)
next
  case False
  let ?h = "cells_cd l" and ?n = "length (cells_cd l)"
  from assms have inv: "distinct as" "ring (nxd ?h) as" "ring (pvd ?h) (rev as)"
    "tail_cd l = Some (last as)" "size_cd l = int (length as)" and vs: "vs = map (vld ?h) as"
    using False by (simp_all add: cd_rep_def cd_inv_def)
  have bound: "\<forall>a\<in>set as. a < ?n" using cd_rep_bound[OF assms] by blast
  have fresh: "?n \<notin> set as" using bound by auto
  have lt: "last as < ?n" "hd as < ?n" using bound False by simp_all
  have neq: "last as \<noteq> ?n" "hd as \<noteq> ?n" using lt by simp_all
  from ring_insert[of as "[]" ?n "nxd ?h"] inv False fresh have
    nx: "nxd ?h (last as) = Some (Some (hd as))"
        "ring ((nxd ?h)(?n := Some (Some (hd as)), last as := Some (Some ?n))) (as @ [?n])" by auto
  from ring_insert_rev[of as "[]" ?n "pvd ?h"] inv False fresh have
    pv: "pvd ?h (hd as) = Some (Some (last as))"
        "ring ((pvd ?h)(?n := Some (Some (last as)), hd as := Some (Some ?n))) (rev (as @ [?n]))" by auto
  let ?h4 = "put_next_dn (put_prev_dn (put_prev_dn (put_next_dn (?h @ [NewDoublyLinkedNode v])
               ?n (Some (hd as))) ?n (Some (last as))) (hd as) (Some ?n)) (last as) (Some ?n)"
  have res: "Prepend_cd v l = Ok (l\<lparr>cells_cd := ?h4, size_cd := size_cd l + 1\<rparr>)"
    using False inv(4,5) nx(1) lt neq
    by (simp add: Prepend_cd_def IsEmpty_cd_def Size_cd_def Head_cd_def Tail_cd_def Next_dn_nxd
        SetNext_dn_Some SetPrev_dn_Some less_SucI)
  have nx4: "nxd ?h4 = (nxd ?h)(?n := Some (Some (hd as)), last as := Some (Some ?n))"
    using lt by (simp add: less_SucI)
  have pv4: "pvd ?h4 = (pvd ?h)(?n := Some (Some (last as)), hd as := Some (Some ?n))"
    using lt by (simp add: less_SucI)
  have vl4: "map (vld ?h4) as = map (vld ?h) as" "vld ?h4 ?n = v"
    using bound by (simp_all add: vld_append NewDoublyLinkedNode_def)
  have r4: "ring (nxd ?h4) (as @ [?n])" "ring (pvd ?h4) (rev (as @ [?n]))"
    using nx(2) pv(2) by (simp_all only: nx4 pv4)
  have "cd_rep (l\<lparr>cells_cd := ?h4, size_cd := size_cd l + 1, tail_cd := Some ?n\<rparr>) (as @ [?n]) (vs @ [v])"
    unfolding cd_rep_def cd_inv_def using r4 inv(1,5) fresh vs vl4
    by simp
  then show ?thesis using res False inv(4) by simp
qed

lemma cd_rep_rotate_back:
  assumes "cd_rep (l\<lparr>tail_cd := Some a\<rparr>) (as @ [a]) (vs @ [v])" "length vs = length as"
    "tail_cd l = Some (if as = [] then a else last as)"
  shows "cd_rep l (a # as) (v # vs)"
proof -
  have "ring (nxd (cells_cd l)) (a # as)" "ring (pvd (cells_cd l)) (rev as @ [a])"
    using assms(1) by (simp_all add: cd_rep_def cd_inv_def ring_rotate)
  then show ?thesis using assms by (auto simp: cd_rep_def cd_inv_def)
qed

lemma Prepend_cd_rep:
  assumes "cd_rep l as vs"
  shows "\<exists>l'. Prepend_cd v l = Ok l' \<and> cd_rep l' (length (cells_cd l) # as) (v # vs)"
proof -
  let ?n = "length (cells_cd l)"
  from Append_cd_rep_aux[OF assms, of v] obtain l1 where
    l1: "Prepend_cd v l = Ok l1" "cd_rep (l1\<lparr>tail_cd := Some ?n\<rparr>) (as @ [?n]) (vs @ [v])"
        "tail_cd l1 = Some (if as = [] then ?n else last as)" by blast
  show ?thesis
    using cd_rep_rotate_back[OF l1(2) cd_rep_length[OF assms] l1(3)] l1(1) by simp
qed

lemma Append_cd_rep:
  assumes "cd_rep l as vs"
  shows "\<exists>l'. Append_cd v l = Ok l' \<and> cd_rep l' (as @ [length (cells_cd l)]) (vs @ [v])"
proof -
  let ?n = "length (cells_cd l)"
  from Append_cd_rep_aux[OF assms, of v] obtain l1 where
    l1: "Prepend_cd v l = Ok l1" "cd_rep (l1\<lparr>tail_cd := Some ?n\<rparr>) (as @ [?n]) (vs @ [v])"
        "tail_cd l1 = Some (if as = [] then ?n else last as)" by blast
  have r: "cd_rep l1 (?n # as) (v # vs)"
    using cd_rep_rotate_back[OF l1(2) cd_rep_length[OF assms] l1(3)] .
  have "nxd (cells_cd l1) (last (?n # as)) = Some (Some ?n)"
    using cd_rep_ring_last[OF r] by simp
  then show ?thesis using l1
    by (auto simp: Append_cd_def Tail_cd_def Next_dn_nxd)
qed

lemma RemoveFirst_cd_rep:
  assumes "cd_rep l as vs"
  shows "\<exists>l'. RemoveFirst_cd l = Ok l' \<and> cd_rep l' (tl as) (tl vs)"
proof -
  consider "as = []" | a where "as = [a]" | c ys where "as = c # ys" "ys \<noteq> []"
    by (cases as) auto
  then show ?thesis
  proof cases
    case 1
    with assms have "vs = []" by (simp add: cd_rep_def)
    with 1 assms show ?thesis by (simp add: RemoveFirst_cd_def IsEmpty_cd_def Size_cd_def cd_rep_size)
  next
    case 2
    with assms have "vs = [vld (cells_cd l) a]" by (simp add: cd_rep_def)
    with 2 assms show ?thesis
      by (simp add: RemoveFirst_cd_def IsEmpty_cd_def Size_cd_def cd_rep_size Clear_cd_rep)
  next
    case 3
    let ?h = "cells_cd l"
    from assms 3 have inv: "distinct ([] @ c # ys)" "ring (nxd ?h) ([] @ c # ys)"
      "ring (pvd ?h) (rev ([] @ c # ys))" "tail_cd l = Some (last ys)"
      "size_cd l = int (length as)" "vs = map (vld ?h) as"
      by (auto simp: cd_rep_def cd_inv_def)
    from ring_remove[OF inv(1) _ inv(2)] 3 have
      nx: "nxd ?h c = Some (Some (hd ys))" "ring ((nxd ?h)(last ys := Some (Some (hd ys)))) ys" by auto
    from ring_remove_rev[OF inv(1) _ inv(3)] 3 have
      pv: "ring ((pvd ?h)(hd ys := Some (Some (last ys)))) (rev ys)" by auto
    have b: "last ys < length ?h" "hd ys < length ?h"
      using cd_rep_bound[OF assms, of "last ys"] cd_rep_bound[OF assms, of "hd ys"] 3 by auto
    let ?h2 = "put_prev_dn (put_next_dn ?h (last ys) (Some (hd ys))) (hd ys) (Some (last ys))"
    have "RemoveFirst_cd l = Ok (l\<lparr>cells_cd := ?h2, size_cd := size_cd l - 1\<rparr>)"
      using 3 inv(4,5) cd_rep_Head[OF assms] nx(1) b
      by (simp add: RemoveFirst_cd_def IsEmpty_cd_def Size_cd_def Tail_cd_def Next_dn_nxd
          SetNext_dn_Some SetPrev_dn_Some)
    moreover have "cd_rep (l\<lparr>cells_cd := ?h2, size_cd := size_cd l - 1\<rparr>) ys (map (vld ?h) ys)"
      using nx(2) pv inv 3 b by (auto simp: cd_rep_def cd_inv_def)
    ultimately show ?thesis using 3 inv(6) by auto
  qed
qed

lemma RemoveLast_cd_rep:
  assumes "cd_rep l as vs"
  shows "\<exists>l'. RemoveLast_cd l = Ok l' \<and> cd_rep l' (butlast as) (butlast vs)"
proof -
  consider "as = []" | a where "as = [a]" | c xs where "as = xs @ [c]" "xs \<noteq> []"
    by (cases as rule: rev_cases) fastforce+
  then show ?thesis
  proof cases
    case 1
    with assms have "vs = []" by (simp add: cd_rep_def)
    with 1 assms show ?thesis by (simp add: RemoveLast_cd_def IsEmpty_cd_def Size_cd_def cd_rep_size)
  next
    case 2
    with assms have "vs = [vld (cells_cd l) a]" by (simp add: cd_rep_def)
    with 2 assms show ?thesis
      by (simp add: RemoveLast_cd_def IsEmpty_cd_def Size_cd_def cd_rep_size Clear_cd_rep)
  next
    case 3
    let ?h = "cells_cd l"
    from assms 3 have inv: "distinct (xs @ c # [])" "ring (nxd ?h) (xs @ c # [])"
      "ring (pvd ?h) (rev (xs @ c # []))" "tail_cd l = Some c"
      "size_cd l = int (length as)" "vs = map (vld ?h) as"
      by (auto simp: cd_rep_def cd_inv_def)
    from ring_remove[OF inv(1) _ inv(2)] 3 have
      nx: "nxd ?h c = Some (Some (hd xs))" "ring ((nxd ?h)(last xs := Some (Some (hd xs)))) xs" by auto
    from ring_remove_rev[OF inv(1) _ inv(3)] 3 have
      pv: "pvd ?h c = Some (Some (last xs))" "ring ((pvd ?h)(hd xs := Some (Some (last xs)))) (rev xs)"
      by auto
    have b: "last xs < length ?h" "hd xs < length ?h"
      using cd_rep_bound[OF assms, of "last xs"] cd_rep_bound[OF assms, of "hd xs"] 3 by auto
    have ne: "c \<noteq> last xs" using inv(1) 3 by auto
    let ?h2 = "put_prev_dn (put_next_dn ?h (last xs) (Some (hd xs))) (hd xs) (Some (last xs))"
    have "RemoveLast_cd l = Ok (l\<lparr>cells_cd := ?h2, tail_cd := Some (last xs), size_cd := size_cd l - 1\<rparr>)"
      using 3 inv(4,5) cd_rep_Head[OF assms] nx(1) pv(1) b ne
      by (simp add: RemoveLast_cd_def IsEmpty_cd_def Size_cd_def Tail_cd_def Next_dn_nxd Prev_dn_pvd
          SetNext_dn_Some SetPrev_dn_Some Head_cd_def)
    moreover have "cd_rep (l\<lparr>cells_cd := ?h2, tail_cd := Some (last xs), size_cd := size_cd l - 1\<rparr>)
                     xs (map (vld ?h) xs)"
      using nx(2) pv(2) inv 3 b by (auto simp: cd_rep_def cd_inv_def)
    ultimately show ?thesis using 3 inv(6) by auto
  qed
qed

subsection \<open>Remove, Get, Set and InsertAt\<close>

lemma advance_dn_seg:
  "seg (nxd h) p as q \<Longrightarrow> i \<le> length as \<Longrightarrow>
   advance_dn h i p = Ok (if i < length as then Some (as ! i) else q)"
proof (induction as arbitrary: p i)
  case Nil
  then show ?case by simp
next
  case (Cons a as)
  show ?case
  proof (cases i)
    case 0
    with Cons.prems show ?thesis by simp
  next
    case (Suc j)
    with Cons.prems Cons.IH[of _ j] show ?thesis by (auto simp: Next_dn_nxd)
  qed
qed

lemma cd_rep_advance:
  assumes "cd_rep l as vs" "i < length as"
  shows "advance_dn (cells_cd l) i (Some (hd as)) = Ok (Some (as ! i))"
proof -
  have "as \<noteq> []" using assms(2) by auto
  from advance_dn_seg[OF cd_rep_seg[OF assms(1) this], of i] assms(2) show ?thesis by simp
qed

lemma Remove_cd_loop_skip:
  assumes "seg (nxd (cells_cd l)) cur ys r" "\<forall>a\<in>set ys. vld (cells_cd l) a \<noteq> v"
  shows "Remove_cd_loop (length ys + n) v cur l = Remove_cd_loop n v r l"
  using assms
proof (induction ys arbitrary: cur)
  case Nil
  then show ?case by simp
next
  case (Cons a ys)
  from Cons.prems obtain r' where r': "cur = Some a" "nxd (cells_cd l) a = Some r'"
    "seg (nxd (cells_cd l)) r' ys r" by auto
  have b: "a < length (cells_cd l)" using r'(2) by (rule nxd_Some_less)
  from Cons.prems(2) have nv: "vld (cells_cd l) a \<noteq> v" "\<forall>a\<in>set ys. vld (cells_cd l) a \<noteq> v" by auto
  show ?case using Cons.IH[OF r'(3) nv(2)] r' b nv(1)
    by (simp add: Value_dn_Some Next_dn_nxd)
qed

lemma Remove_cd_rep:
  assumes "cd_rep l as vs"
  shows "\<exists>l' as'. Remove_cd v l = Ok l' \<and> cd_rep l' as' (remove1 v vs)"
proof (cases "as = []")
  case True
  with assms have "vs = []" "size_cd l = 0" by (simp_all add: cd_rep_def cd_inv_def)
  with assms True show ?thesis by (auto simp: Remove_cd_def IsEmpty_cd_def Size_cd_def)
next
  case False
  let ?h = "cells_cd l"
  from assms False have inv: "distinct as" "ring (nxd ?h) as" "ring (pvd ?h) (rev as)"
    "tail_cd l = Some (last as)" "size_cd l = int (length as)" "vs = map (vld ?h) as"
    by (auto simp: cd_rep_def cd_inv_def)
  have sg: "seg (nxd ?h) (Some (hd as)) as (Some (hd as))" using cd_rep_seg[OF assms False] .
  have start: "Remove_cd v l = Remove_cd_loop (length as) v (Some (hd as)) l"
    using False inv cd_rep_Head[OF assms] by (simp add: Remove_cd_def IsEmpty_cd_def Size_cd_def)
  show ?thesis
  proof (cases "v \<in> set vs")
    case False
    then have "\<forall>a\<in>set as. vld ?h a \<noteq> v" using inv(6) by auto
    from Remove_cd_loop_skip[OF sg this, of 0]
    have "Remove_cd v l = Ok l" using start by simp
    moreover have "remove1 v vs = vs" using False by (simp add: remove1_idem)
    ultimately show ?thesis using assms by auto
  next
    case True
    then obtain xs c ys where sp: "as = xs @ c # ys" "v \<notin> set (map (vld ?h) xs)" "vld ?h c = v"
      using first_occurrence[of v "vld ?h" as] inv(6) by auto
    have vs': "remove1 v vs = map (vld ?h) (xs @ ys)"
      using remove1_first[OF sp(2), of "map (vld ?h) ys"] sp inv(6) by simp
    obtain r where r: "seg (nxd ?h) (Some (hd as)) xs r" "seg (nxd ?h) r (c # ys) (Some (hd as))"
      using sg unfolding sp(1) seg_append by blast
    have rc: "r = Some c" using r(2) by simp
    have nv: "\<forall>a\<in>set xs. vld ?h a \<noteq> v" using sp(2) by auto
    have loop: "Remove_cd v l = Remove_cd_loop (Suc (length ys)) v (Some c) l"
      using Remove_cd_loop_skip[OF r(1) nv, of "Suc (length ys)"] start rc sp(1) by simp
    have cb: "c < length ?h" using cd_rep_bound[OF assms, of c] sp(1) by simp
    show ?thesis
    proof (cases "length as = 1")
      case True
      then have "xs = []" "ys = []" using sp(1) by auto
      then show ?thesis using loop cb sp(3) inv(5) True vs' Clear_cd_rep[of l]
        by (auto simp: Value_dn_Some Size_cd_def)
    next
      case ne1: False
      then have ne: "xs @ ys \<noteq> []" using sp(1) by auto
      then have ne': "ys @ xs \<noteq> []" by auto
      let ?p = "last (ys @ xs)" and ?s = "hd (ys @ xs)"
      from ring_remove[OF inv(1)[unfolded sp(1)] ne inv(2)[unfolded sp(1)]] have
        nx: "nxd ?h c = Some (Some ?s)" "ring ((nxd ?h)(?p := Some (Some ?s))) (xs @ ys)" by auto
      from ring_remove_rev[OF inv(1)[unfolded sp(1)] ne inv(3)[unfolded sp(1)]] have
        pv: "pvd ?h c = Some (Some ?p)" "ring ((pvd ?h)(?s := Some (Some ?p))) (rev (xs @ ys))" by auto
      have "?p \<in> set as" "?s \<in> set as" using ne' sp(1)
        by (metis Un_iff last_in_set set_append list.set_intros(2) Un_commute,
            metis Un_iff hd_in_set set_append list.set_intros(2) Un_commute)
      then have b: "?p < length ?h" "?s < length ?h" using cd_rep_bound[OF assms] by auto
      let ?h2 = "put_prev_dn (put_next_dn ?h ?p (Some ?s)) ?s (Some ?p)"
      let ?l1 = "l\<lparr>cells_cd := ?h2\<rparr>"
      let ?l2 = "if Some c = tail_cd l then ?l1\<lparr>tail_cd := Some ?p\<rparr> else ?l1"
      have res: "Remove_cd v l = Ok (?l2\<lparr>size_cd := size_cd l - 1\<rparr>)"
        using loop cb sp(3) inv(5) ne1 nx(1) pv(1) b
        by (simp add: Value_dn_Some Size_cd_def Next_dn_nxd Prev_dn_pvd SetNext_dn_Some
            SetPrev_dn_Some Tail_cd_def)
      have r2: "ring (nxd ?h2) (xs @ ys)" "ring (pvd ?h2) (rev (xs @ ys))"
        using nx(2) pv(2) b by simp_all
      have tl: "tail_cd (?l2\<lparr>size_cd := size_cd l - 1\<rparr>) = Some (last (xs @ ys))"
      proof (cases "ys = []")
        case True
        then show ?thesis using inv(4) sp(1) by simp
      next
        case ys: False
        then have "c \<noteq> last ys" using inv(1) sp(1) by auto
        then show ?thesis using inv(4) sp(1) ys by simp
      qed
      have "cd_rep (?l2\<lparr>size_cd := size_cd l - 1\<rparr>) (xs @ ys) (map (vld ?h) (xs @ ys))"
        unfolding cd_rep_def cd_inv_def using r2 tl inv(1,5) sp(1) ne by auto
      then have "\<exists>l' as'. Ok (?l2\<lparr>size_cd := size_cd l - 1\<rparr>) = Ok l' \<and>
                 cd_rep l' as' (map (vld ?h) (xs @ ys))" by blast
      then show ?thesis by (simp only: res vs')
    qed
  qed
qed

lemma Get_cd_rep:
  assumes "cd_rep l as vs"
  shows "Get_cd index l =
           (if index < 0 \<or> int (length vs) \<le> index then Ok ((None, Some (OutOfBounds index)), l)
            else Ok ((Some (as ! nat index), None), l))"
proof (cases "index < 0 \<or> int (length vs) \<le> index")
  case True
  then show ?thesis using cd_rep_size[OF assms] cd_rep_length[OF assms]
    by (auto simp: Get_cd_def Size_cd_def)
next
  case False
  then have i: "nat index < length as" using cd_rep_length[OF assms] by auto
  then have "as \<noteq> []" by auto
  then show ?thesis using False cd_rep_size[OF assms] cd_rep_length[OF assms]
      cd_rep_Head[OF assms] cd_rep_advance[OF assms i]
    by (auto simp: Get_cd_def Size_cd_def)
qed

lemma Set_cd_rep:
  assumes "cd_rep l as vs"
  shows "if index < 0 \<or> int (length vs) \<le> index then Set_cd index v l = Ok (Some (OutOfBounds index), l)
         else (\<exists>l'. Set_cd index v l = Ok (None, l') \<and> cd_rep l' as (vs[nat index := v]))"
proof (cases "index < 0 \<or> int (length vs) \<le> index")
  case True
  then show ?thesis by (simp add: Set_cd_def Get_cd_rep[OF assms])
next
  case False
  then have i: "nat index < length as" using cd_rep_length[OF assms] by auto
  then have b: "as ! nat index < length (cells_cd l)" using cd_rep_bound[OF assms] by simp
  have "cd_rep (l\<lparr>cells_cd := put_value_dn (cells_cd l) (as ! nat index) v\<rparr>) as (vs[nat index := v])"
    using assms i b by (auto simp: cd_rep_def cd_inv_def map_upd_nth)
  then show ?thesis using False b
    by (simp add: Set_cd_def Get_cd_rep[OF assms] SetValue_dn_Some)
qed

lemma InsertAt_cd_rep:
  assumes "cd_rep l as vs"
  shows "if index < 0 \<or> int (length vs) < index then InsertAt_cd index v l = Ok (Some (OutOfBounds index), l)
         else (\<exists>l' as'. InsertAt_cd index v l = Ok (None, l') \<and>
                 cd_rep l' as' (take (nat index) vs @ v # drop (nat index) vs))"
proof -
  have len: "length vs = length as" and sz: "size_cd l = int (length as)"
    using cd_rep_length[OF assms] cd_rep_size[OF assms] by auto
  consider (err) "index < 0 \<or> int (length vs) < index" | (first) "index = 0"
    | (atend) "index = int (length vs)" "index \<noteq> 0" | (mid) "0 < index" "index < int (length vs)"
    by linarith
  then show ?thesis
  proof cases
    case err
    then show ?thesis using len sz by (auto simp: InsertAt_cd_def Size_cd_def)
  next
    case first
    then show ?thesis using Prepend_cd_rep[OF assms, of v] len sz
      by (auto simp: InsertAt_cd_def Size_cd_def)
  next
    case atend
    then show ?thesis using Append_cd_rep[OF assms, of v] len sz
      by (auto simp: InsertAt_cd_def Size_cd_def)
  next
    case mid
    let ?h = "cells_cd l" and ?n = "length (cells_cd l)"
    define i where "i = nat index"
    define xs where "xs = take i as"
    define ys where "ys = drop i as"
    have i: "0 < i" "i < length as" using mid len by (auto simp: i_def)
    have sp: "as = xs @ ys" "xs \<noteq> []" "ys \<noteq> []" "length xs = i"
      using i by (auto simp: xs_def ys_def)
    have hy: "hd ys = as ! i" using i by (simp add: ys_def hd_drop_conv_nth)
    from assms have inv: "distinct (xs @ ys)" "ring (nxd ?h) (xs @ ys)" "ring (pvd ?h) (rev (xs @ ys))"
      "tail_cd l = Some (last ys)" "vs = map (vld ?h) as"
      using sp by (auto simp: cd_rep_def cd_inv_def)
    have adv: "advance_dn ?h (nat index) (Some (hd as)) = Ok (Some (hd ys))"
      using cd_rep_advance[OF assms, of i] i hy by (simp add: i_def)
    have bnd: "\<forall>a\<in>set xs. a < ?n" "\<forall>a\<in>set ys. a < ?n" using cd_rep_bound[OF assms] sp(1) by auto
    then have fresh: "?n \<notin> set (xs @ ys)" by auto
    have lb: "last xs < ?n" "hd ys < ?n" using bnd sp by simp_all
    have lne: "last xs \<noteq> ?n" "hd ys \<noteq> ?n" using lb by simp_all
    have ne: "xs @ ys \<noteq> []" using sp by simp
    from ring_insert[OF inv(1) ne fresh inv(2)] sp have
      nx: "ring ((nxd ?h)(?n := Some (Some (hd ys)), last xs := Some (Some ?n))) (xs @ ?n # ys)" by simp
    from ring_insert_rev[OF inv(1) ne fresh inv(3)] sp have
      pv: "pvd ?h (hd ys) = Some (Some (last xs))"
          "ring ((pvd ?h)(?n := Some (Some (last xs)), hd ys := Some (Some ?n))) (rev (xs @ ?n # ys))"
      by simp_all
    let ?h4 = "put_prev_dn (put_next_dn (put_prev_dn (put_next_dn (?h @ [NewDoublyLinkedNode v])
                 (last xs) (Some ?n)) ?n (Some (last xs))) ?n (Some (hd ys))) (hd ys) (Some ?n)"
    let ?l' = "l\<lparr>cells_cd := ?h4, size_cd := size_cd l + 1\<rparr>"
    have res: "InsertAt_cd index v l = Ok (None, ?l')"
      using mid len sz cd_rep_Head[OF assms] sp adv pv(1) lb lne
      by (simp add: InsertAt_cd_def Size_cd_def Prev_dn_pvd SetNext_dn_Some SetPrev_dn_Some less_SucI)
    have nx4: "nxd ?h4 = (nxd ?h)(?n := Some (Some (hd ys)), last xs := Some (Some ?n))"
      using lb lne by (simp add: less_SucI NewDoublyLinkedNode_def fun_upd_twist)
    have pv4: "pvd ?h4 = (pvd ?h)(?n := Some (Some (last xs)), hd ys := Some (Some ?n))"
      using lb lne by (simp add: less_SucI NewDoublyLinkedNode_def)
    have r4: "ring (nxd ?h4) (xs @ ?n # ys)" "ring (pvd ?h4) (rev (xs @ ?n # ys))"
      using nx pv(2) by (simp_all only: nx4 pv4)
    have vl4: "map (vld ?h4) xs = map (vld ?h) xs" "map (vld ?h4) ys = map (vld ?h) ys" "vld ?h4 ?n = v"
      using bnd by (simp_all add: vld_append NewDoublyLinkedNode_def)
    have tvs: "take i vs = map (vld ?h) xs" "drop i vs = map (vld ?h) ys"
      using inv(5) by (simp_all add: xs_def ys_def take_map drop_map)
    have "cd_rep ?l' (xs @ ?n # ys) (take i vs @ v # drop i vs)"
      unfolding tvs cd_rep_def cd_inv_def using r4 vl4 inv(1,4) sp fresh sz
      by simp
    then show ?thesis using res mid len by (auto simp: i_def)
  qed
qed

subsection \<open>Reverse, Find, Contains, String and ForEach\<close>

lemma pvd_allocated: "a < length h \<Longrightarrow> \<exists>q. pvd h a = Some q"
  by (simp add: pvd_def)

lemma Reverse_cd_loop_seg:
  assumes "seg (nxd h) cur rest e" "distinct rest"
  shows "\<exists>h'. Reverse_cd_loop (length rest) h cur = Ok h' \<and>
              (\<forall>a. nxd h' a = (if a \<in> set rest then pvd h a else nxd h a)) \<and>
              (\<forall>a. pvd h' a = (if a \<in> set rest then nxd h a else pvd h a)) \<and>
              vld h' = vld h \<and> length h' = length h"
  using assms
proof (induction rest arbitrary: h cur)
  case Nil
  then show ?case by simp
next
  case (Cons a rs)
  from Cons.prems obtain r where r: "cur = Some a" "nxd h a = Some r" "seg (nxd h) r rs e" by auto
  have b: "a < length h" using r(2) by (rule nxd_Some_less)
  obtain p where p: "pvd h a = Some p" using pvd_allocated[OF b] by blast
  let ?h2 = "put_prev_dn (put_next_dn h a p) a r"
  have s2: "seg (nxd ?h2) r rs e" using r(3) Cons.prems(2) b by (simp add: seg_upd_other)
  from Cons.IH[OF s2] Cons.prems(2) obtain h' where
    h': "Reverse_cd_loop (length rs) ?h2 r = Ok h'"
    "\<forall>x. nxd h' x = (if x \<in> set rs then pvd ?h2 x else nxd ?h2 x)"
    "\<forall>x. pvd h' x = (if x \<in> set rs then nxd ?h2 x else pvd ?h2 x)"
    "vld h' = vld ?h2" "length h' = length ?h2"
    by auto
  have "Reverse_cd_loop (length (a # rs)) h cur = Ok h'"
    using h'(1) r p b by (simp add: Next_dn_nxd Prev_dn_pvd SetNext_dn_Some SetPrev_dn_Some)
  moreover have "\<forall>x. nxd h' x = (if x \<in> set (a # rs) then pvd h x else nxd h x)"
    using h'(2) b p Cons.prems(2) by auto
  moreover have "\<forall>x. pvd h' x = (if x \<in> set (a # rs) then nxd h x else pvd h x)"
    using h'(3) b r(2) Cons.prems(2) by auto
  moreover have "vld h' = vld h" using h'(4) by simp
  moreover have "length h' = length h" using h'(5) by simp
  ultimately show ?case by blast
qed

lemma Reverse_cd_rep:
  assumes "cd_rep l as vs"
  shows "\<exists>l'. Reverse_cd l = Ok l' \<and> cd_rep l' (rev as) (rev vs)"
proof (cases "length as \<le> 1")
  case True
  then have "rev as = as" by (cases as) auto
  moreover have "length vs \<le> 1" using True cd_rep_length[OF assms] by simp
  then have "rev vs = vs" by (cases vs) auto
  moreover have "Reverse_cd l = Ok l" using True cd_rep_size[OF assms]
    by (cases as) (auto simp: Reverse_cd_def IsEmpty_cd_def Size_cd_def)
  ultimately show ?thesis using assms by simp
next
  case False
  then have ne: "as \<noteq> []" by auto
  let ?h = "cells_cd l"
  from assms ne have inv: "distinct as" "size_cd l = int (length as)" "vs = map (vld ?h) as"
    "ring (nxd ?h) as" "ring (pvd ?h) (rev as)"
    by (auto simp: cd_rep_def cd_inv_def)
  from Reverse_cd_loop_seg[OF cd_rep_seg[OF assms ne] inv(1)] obtain h1 where
    h1: "Reverse_cd_loop (length as) ?h (Some (hd as)) = Ok h1"
    "\<forall>a. nxd h1 a = (if a \<in> set as then pvd ?h a else nxd ?h a)"
    "\<forall>a. pvd h1 a = (if a \<in> set as then nxd ?h a else pvd ?h a)"
    "vld h1 = vld ?h" "length h1 = length ?h"
    by auto
  have res: "Reverse_cd l = Ok (l\<lparr>cells_cd := h1, tail_cd := Some (hd as)\<rparr>)"
    using False ne inv(2) cd_rep_Head[OF assms] h1(1)
    by (simp add: Reverse_cd_def IsEmpty_cd_def Size_cd_def)
  have "ring (nxd h1) (rev as)" using inv(5) h1(2) ring_cong_on[of "rev as" "nxd h1" "pvd ?h"] by simp
  moreover have "ring (pvd h1) as" using inv(4) h1(3) ring_cong_on[of as "pvd h1" "nxd ?h"] by simp
  ultimately have "cd_rep (l\<lparr>cells_cd := h1, tail_cd := Some (hd as)\<rparr>) (rev as) (rev vs)"
    using inv ne h1(4) by (auto simp: cd_rep_def cd_inv_def last_rev rev_map)
  then show ?thesis using res by simp
qed

lemma Find_cd_loop_seg:
  assumes "seg (nxd h) cur rest e"
  shows "Find_cd_loop (length rest) h cur v = Ok (map_of (zip (map (vld h) rest) rest) v)"
  using assms
proof (induction rest arbitrary: cur)
  case Nil
  then show ?case by simp
next
  case (Cons a rs)
  from Cons.prems obtain r where r: "cur = Some a" "nxd h a = Some r" "seg (nxd h) r rs e" by auto
  have b: "a < length h" using r(2) by (rule nxd_Some_less)
  show ?case using Cons.IH[OF r(3)] r b by (simp add: Value_dn_Some Next_dn_nxd)
qed

lemma Find_cd_rep:
  assumes "cd_rep l as vs"
  shows "Find_cd v l = Ok (map_of (zip vs as) v, l)"
proof (cases "as = []")
  case True
  then show ?thesis using cd_rep_size[OF assms] by (simp add: Find_cd_def IsEmpty_cd_def Size_cd_def)
next
  case False
  have vs: "vs = map (vld (cells_cd l)) as" using assms by (simp add: cd_rep_def)
  from Find_cd_loop_seg[OF cd_rep_seg[OF assms False], of v]
  show ?thesis using False cd_rep_Head[OF assms] cd_rep_size[OF assms] vs
    by (simp add: Find_cd_def IsEmpty_cd_def Size_cd_def)
qed

lemma map_of_zip_None: "length vs = length as \<Longrightarrow> (map_of (zip vs as) v \<noteq> None) = (v \<in> set vs)"
  by (simp add: map_of_eq_None_iff set_map[symmetric] del: set_map)

lemma Contains_cd_rep:
  assumes "cd_rep l as vs"
  shows "Contains_cd v l = Ok (v \<in> set vs, l)"
  using map_of_zip_None[OF cd_rep_length[OF assms], of v]
  by (simp add: Contains_cd_def Find_cd_rep[OF assms])

lemma String_cd_loop_seg:
  assumes "seg (nxd (cells_cd l)) cur rest e" "i + int (length rest) = Size_cd l"
  shows "String_cd_loop showv l (length rest) i result cur
           = Ok (result @ join '' <-> '' (map (boxed showv) (map (vld (cells_cd l)) rest)))"
  using assms
proof (induction rest arbitrary: cur i result)
  case Nil
  then show ?case by simp
next
  case (Cons a rs)
  from Cons.prems obtain r where r: "cur = Some a" "nxd (cells_cd l) a = Some r"
    "seg (nxd (cells_cd l)) r rs e" by auto
  have b: "a < length (cells_cd l)" using r(2) by (rule nxd_Some_less)
  have i: "(i + 1) + int (length rs) = Size_cd l" "(i < Size_cd l - 1) = (rs \<noteq> [])"
    using Cons.prems(2) by (auto simp: length_greater_0_conv[symmetric] simp del: length_greater_0_conv)
  show ?case using Cons.IH[OF r(3) i(1)] r b i(2)
    by (simp add: Value_dn_Some Next_dn_nxd join_Cons boxed_def)
qed

lemma String_cd_rep:
  assumes "cd_rep l as vs"
  shows "String_cd showv l = Ok (display ''CircularDoublyLinkedList'' '' <-> '' showv vs, l)"
proof (cases "as = []")
  case True
  then show ?thesis using assms
    by (simp add: cd_rep_def cd_inv_def String_cd_def IsEmpty_cd_def Size_cd_def display_def)
next
  case False
  have sz: "size_cd l = int (length as)" "vs = map (vld (cells_cd l)) as"
    using assms by (auto simp: cd_rep_def cd_inv_def)
  from String_cd_loop_seg[OF cd_rep_seg[OF assms False], where i = 0 and showv = showv
      and result = "''CircularDoublyLinkedList: ''"]
  show ?thesis using False sz cd_rep_Head[OF assms]
    by (simp add: String_cd_def IsEmpty_cd_def Size_cd_def display_def)
qed

lemma ForEach_cd_loop_seg:
  assumes "seg (nxd (cells_cd l)) cur rest q" "\<And>x st. fst (action x st) = fst st"
  shows "ForEach_cd_loop action (length rest) cur (l, e)
           = Ok (l, foldl (\<lambda>e x. snd (action x (l, e))) e (map (vld (cells_cd l)) rest))"
  using assms(1)
proof (induction rest arbitrary: cur e)
  case Nil
  then show ?case by simp
next
  case (Cons a rs)
  from Cons.prems obtain r where r: "cur = Some a" "nxd (cells_cd l) a = Some r"
    "seg (nxd (cells_cd l)) r rs q" by auto
  have b: "a < length (cells_cd l)" using r(2) by (rule nxd_Some_less)
  have st: "action (vld (cells_cd l) a) (l, e) = (l, snd (action (vld (cells_cd l) a) (l, e)))"
    using assms(2)[of "vld (cells_cd l) a" "(l, e)"] by (metis fst_conv prod.collapse)
  show ?case using Cons.IH[OF r(3), of "snd (action (vld (cells_cd l) a) (l, e))"] r b assms(2)
    by (simp add: Value_dn_Some Next_dn_nxd) (metis st)
qed

lemma ForEach_cd_rep:
  assumes "cd_rep l as vs" "\<And>x st. fst (action x st) = fst st"
  shows "ForEach_cd action (l, e) = Ok (l, foldl (\<lambda>e x. snd (action x (l, e))) e vs)"
proof (cases "as = []")
  case True
  then show ?thesis using assms(1)
    by (simp add: cd_rep_def cd_inv_def ForEach_cd_def IsEmpty_cd_def Size_cd_def)
next
  case False
  have sz: "size_cd l = int (length as)" "vs = map (vld (cells_cd l)) as"
    using assms(1) by (auto simp: cd_rep_def cd_inv_def)
  from ForEach_cd_loop_seg[OF cd_rep_seg[OF assms(1) False] assms(2), where e = e]
  show ?thesis using False sz cd_rep_Head[OF assms(1)]
    by (simp add: ForEach_cd_def IsEmpty_cd_def Size_cd_def)
qed

lemma values_cd_rep: "cd_rep l as vs \<Longrightarrow> values_cd l = Ok vs"
  using ForEach_cd_rep[of l as vs collect "[]", OF _ fst_collect]
  by (simp add: values_cd_def foldl_collect)

section \<open>SinglyLinkedList: the operations keep the representation\<close>

subsection \<open>Prepend, Append, Clear, RemoveFirst and RemoveLast\<close>

lemma seg_retarget_last:
  "seg f p (xs @ [a]) e \<Longrightarrow> a \<notin> set xs \<Longrightarrow> seg (f(a := Some e')) p (xs @ [a]) e'"
  by (simp add: seg_snoc seg_upd_other)

lemma seg_adjacent:
  "seg f p (xs @ ys) e \<Longrightarrow> xs \<noteq> [] \<Longrightarrow> f (last xs) = Some (if ys = [] then e else Some (hd ys))"
proof -
  assume a: "seg f p (xs @ ys) e" "xs \<noteq> []"
  then obtain xs' t where xs: "xs = xs' @ [t]" by (metis append_butlast_last_id)
  show ?thesis using a(1) unfolding xs by (cases ys) (auto simp: seg_append)
qed

lemma sl_rep_bound: "sl_rep l as vs \<Longrightarrow> a \<in> set as \<Longrightarrow> a < length (cells_sl l)"
  unfolding sl_rep_def sl_inv_def using seg_nxs_bound by blast

lemma sl_rep_size: "sl_rep l as vs \<Longrightarrow> size_sl l = int (length as)"
  by (simp add: sl_rep_def sl_inv_def)

lemma sl_rep_length: "sl_rep l as vs \<Longrightarrow> length vs = length as"
  by (simp add: sl_rep_def)

lemma sl_rep_seg: "sl_rep l as vs \<Longrightarrow> seg (nxs (cells_sl l)) (head_sl l) as None"
  by (simp add: sl_rep_def sl_inv_def)

lemma sl_rep_head: "sl_rep l as vs \<Longrightarrow> head_sl l = (if as = [] then None else Some (hd as))"
  using seg_start[of "nxs (cells_sl l)" "head_sl l" as None] by (auto simp: sl_rep_def sl_inv_def)

lemma sl_rep_tail: "sl_rep l as vs \<Longrightarrow> tail_sl l = (if as = [] then None else Some (last as))"
  by (simp add: sl_rep_def sl_inv_def)

lemma Clear_sl_rep: "sl_rep (Clear_sl l) [] []"
  by (simp add: sl_rep_def sl_inv_def Clear_sl_def)

lemma Prepend_sl_rep:
  assumes "sl_rep l as vs"
  shows "\<exists>l'. Prepend_sl v l = Ok l' \<and> sl_rep l' (length (cells_sl l) # as) (v # vs)"
proof -
  let ?h = "cells_sl l" and ?n = "length (cells_sl l)"
  have bound: "\<forall>a\<in>set as. a < ?n" using sl_rep_bound[OF assms] by blast
  then have fresh: "?n \<notin> set as" by auto
  show ?thesis using assms bound fresh
    by (auto simp: sl_rep_def sl_inv_def Prepend_sl_def Head_sl_def Tail_sl_def SetNext_sn_Some
        NewSinglyLinkedNode_def seg_upd_other vls_append)
qed

lemma Append_sl_rep:
  assumes "sl_rep l as vs"
  shows "\<exists>l'. Append_sl v l = Ok l' \<and> sl_rep l' (as @ [length (cells_sl l)]) (vs @ [v])"
proof (cases "as = []")
  case True
  with assms show ?thesis
    by (auto simp: sl_rep_def sl_inv_def Append_sl_def Head_sl_def Tail_sl_def
        NewSinglyLinkedNode_def)
next
  case False
  let ?h = "cells_sl l" and ?n = "length (cells_sl l)"
  from assms False have inv: "distinct as" "seg (nxs ?h) (head_sl l) as None"
    "tail_sl l = Some (last as)" "size_sl l = int (length as)" "vs = map (vls ?h) as"
    "head_sl l = Some (hd as)"
    using sl_rep_head[OF assms] by (auto simp: sl_rep_def sl_inv_def)
  have bound: "\<forall>a\<in>set as. a < ?n" using sl_rep_bound[OF assms] by blast
  then have fresh: "?n \<notin> set as" by auto
  have lt: "last as < ?n" using bound False by simp
  have lne: "last as \<noteq> ?n" using lt by simp
  have ln: "nxs ?h (last as) = Some None" using seg_adjacent[of "nxs ?h" _ as "[]"] inv(2) False by simp
  from seg_splice_in[of as "[]" ?n "nxs ?h" "head_sl l" None None] inv False fresh ln
  have sg: "seg ((nxs ?h)(?n := Some None, last as := Some (Some ?n))) (head_sl l) (as @ [?n]) None"
    by simp
  let ?h1 = "(?h @ [NewSinglyLinkedNode v])[last as := (?h ! last as)\<lparr>next_sn := Some ?n\<rparr>]"
  have res: "Append_sl v l = Ok (l\<lparr>cells_sl := ?h1, tail_sl := Some ?n, size_sl := size_sl l + 1\<rparr>)"
    using inv(3,6) lt lne
    by (simp add: Append_sl_def Head_sl_def Tail_sl_def SetNext_sn_Some less_SucI nth_append)
  have nx1: "nxs ?h1 = (nxs ?h)(?n := Some None, last as := Some (Some ?n))"
    using lt by (simp add: less_SucI NewSinglyLinkedNode_def)
  have "sl_rep (l\<lparr>cells_sl := ?h1, tail_sl := Some ?n, size_sl := size_sl l + 1\<rparr>) (as @ [?n]) (vs @ [v])"
    unfolding sl_rep_def sl_inv_def using sg[folded nx1] inv(1,4,5) fresh bound lt
    by (auto simp: less_SucI vls_append NewSinglyLinkedNode_def)
  then show ?thesis using res by simp
qed

lemma RemoveFirst_sl_rep:
  assumes "sl_rep l as vs"
  shows "\<exists>l'. RemoveFirst_sl l = Ok l' \<and> sl_rep l' (tl as) (tl vs)"
proof (cases as)
  case Nil
  with assms have "vs = []" by (simp add: sl_rep_def)
  with Nil assms show ?thesis by (simp add: RemoveFirst_sl_def IsEmpty_sl_def Size_sl_def sl_rep_size)
next
  case (Cons a as')
  from assms Cons obtain r where r: "nxs (cells_sl l) a = Some r" "seg (nxs (cells_sl l)) r as' None"
    by (auto simp: sl_rep_def sl_inv_def)
  have "r = (if as' = [] then None else Some (hd as'))" using seg_start[OF r(2)] r(2) by auto
  with assms Cons r show ?thesis
    by (auto simp: sl_rep_def sl_inv_def RemoveFirst_sl_def IsEmpty_sl_def Size_sl_def Head_sl_def
        Next_sn_nxs)
qed

lemma RemoveLast_sl_rep:
  assumes "sl_rep l as vs"
  shows "\<exists>l'. RemoveLast_sl l = Some (Ok l') \<and> sl_rep l' (butlast as) (butlast vs)"
proof -
  consider "as = []" | a where "as = [a]" | t as' where "as = as' @ [t]" "as' \<noteq> []"
    by (cases as rule: rev_cases) fastforce+
  then show ?thesis
  proof cases
    case 1
    with assms have "vs = []" by (simp add: sl_rep_def)
    with 1 assms show ?thesis by (simp add: RemoveLast_sl_def IsEmpty_sl_def Size_sl_def sl_rep_size)
  next
    case 2
    with assms show ?thesis
      by (auto simp: RemoveLast_sl_def IsEmpty_sl_def Size_sl_def sl_rep_def sl_inv_def)
  next
    case 3
    let ?f = "nxs (cells_sl l)"
    from assms 3 have inv: "distinct (as' @ [t])" "seg ?f (head_sl l) (as' @ [t]) None"
      "tail_sl l = Some t" "size_sl l = int (length as)" "vs = map (vls (cells_sl l)) as"
      by (auto simp: sl_rep_def sl_inv_def)
    have sg: "seg ?f (head_sl l) (butlast as' @ [last as']) (Some t)"
      using inv(2) 3 by (simp add: seg_snoc)
    have "t \<notin> set (tl (butlast as' @ [last as']))" using inv(1) 3
      by (metis append_butlast_last_id distinct.simps(2) distinct1_rotate list.set_sel(2) rotate1.simps(2))
    from seek_sn_seg[OF sg this] have
      sk: "seek_sn (cells_sl l) (head_sl l) (Some t) = Some (Ok (Some (last as')))" .
    have b: "last as' < length (cells_sl l)" using sl_rep_bound[OF assms, of "last as'"] 3 by simp
    have "seg (?f(last as' := Some None)) (head_sl l) (butlast as' @ [last as']) None"
      using seg_retarget_last[OF sg, of None] inv(1) 3
      by (metis append_butlast_last_id distinct_append distinct.simps(2) distinct1_rotate rotate1.simps(2))
    then have "seg (?f(last as' := Some None)) (head_sl l) as' None" using 3 by simp
    then show ?thesis using inv 3 b sk
      by (auto simp: RemoveLast_sl_def IsEmpty_sl_def Size_sl_def Tail_sl_def Head_sl_def
          SetNext_sn_Some sl_rep_def sl_inv_def butlast_append)
  qed
qed

subsection \<open>Find, Contains, Remove, Get, Set and InsertAt\<close>

lemma Find_sl_loop_seg:
  assumes "seg (nxs h) cur rest None"
  shows "Find_sl_loop h cur v = Some (Ok (map_of (zip (map (vls h) rest) rest) v))"
  using assms
proof (induction rest arbitrary: cur)
  case Nil
  then show ?case by (subst Find_sl_loop.simps) simp
next
  case (Cons a rs)
  from Cons.prems obtain r where r: "cur = Some a" "nxs h a = Some r" "seg (nxs h) r rs None" by auto
  have b: "a < length h" using r(2) by (rule nxs_Some_less)
  show ?case using Cons.IH[OF r(3)] r b
    by (subst Find_sl_loop.simps) (simp add: Value_sn_Some Next_sn_nxs)
qed

lemma Find_sl_rep:
  assumes "sl_rep l as vs"
  shows "Find_sl v l = Some (Ok (map_of (zip vs as) v, l))"
  using Find_sl_loop_seg[OF sl_rep_seg[OF assms], of v] assms
  by (simp add: Find_sl_def Head_sl_def sl_rep_def)

lemma Contains_sl_rep:
  assumes "sl_rep l as vs"
  shows "Contains_sl v l = Some (Ok (v \<in> set vs, l))"
  using map_of_zip_None[OF sl_rep_length[OF assms], of v]
  by (simp add: Contains_sl_def Find_sl_rep[OF assms])

lemma map_of_zip_first:
  assumes "as = xs @ c # ys" "v \<notin> set (map g xs)" "g c = v"
  shows "map_of (zip (map g as) as) v = Some c"
  using assms(2) unfolding assms(1) by (induction xs) (auto simp: assms(3))

lemma Remove_sl_rep:
  assumes "sl_rep l as vs"
  shows "\<exists>l' as'. Remove_sl v l = Some (Ok l') \<and> sl_rep l' as' (remove1 v vs)"
proof (cases "v \<in> set vs")
  case False
  then have "map_of (zip vs as) v = None"
    using map_of_zip_None[OF sl_rep_length[OF assms], of v] by simp
  moreover have "remove1 v vs = vs" using False by (simp add: remove1_idem)
  ultimately show ?thesis using assms by (auto simp: Remove_sl_def Find_sl_rep[OF assms])
next
  case True
  let ?h = "cells_sl l" and ?f = "nxs (cells_sl l)"
  from assms have inv: "distinct as" "seg ?f (head_sl l) as None"
    "tail_sl l = (if as = [] then None else Some (last as))" "size_sl l = int (length as)"
    "vs = map (vls ?h) as"
    by (auto simp: sl_rep_def sl_inv_def)
  from True obtain xs c ys where sp: "as = xs @ c # ys" "v \<notin> set (map (vls ?h) xs)" "vls ?h c = v"
    using first_occurrence[of v "vls ?h" as] inv(5) by auto
  have vs': "remove1 v vs = map (vls ?h) (xs @ ys)"
    using remove1_first[OF sp(2), of "map (vls ?h) ys"] sp inv(5) by simp
  have fnd: "Find_sl v l = Some (Ok (Some c, l))"
    using Find_sl_rep[OF assms, of v] map_of_zip_first[OF sp] inv(5) by simp
  show ?thesis
  proof (cases "xs = []")
    case True
    then have hd: "head_sl l = Some c" "as = c # ys" using sl_rep_head[OF assms] sp(1) by auto
    from RemoveFirst_sl_rep[OF assms] obtain l' where
      "RemoveFirst_sl l = Ok l'" "sl_rep l' (tl as) (tl vs)" by blast
    moreover have "tl vs = remove1 v vs" using vs' True sp(1) inv(5) by simp
    ultimately show ?thesis using fnd hd by (auto simp: Remove_sl_def Head_sl_def)
  next
    case False
    have hne: "head_sl l \<noteq> Some c" using sl_rep_head[OF assms] sp(1) inv(1) False
      by (cases xs) auto
    have sg: "seg ?f (head_sl l) (butlast xs @ [last xs]) (Some c)"
      using inv(2) False unfolding sp(1) by (auto simp: seg_append)
    have "c \<notin> set xs" using inv(1) sp(1) by auto
    then have "c \<notin> set (tl (butlast xs @ [last xs]))" using False
      by (metis append_butlast_last_id list.set_sel(2) tl_Nil empty_iff empty_set)
    from seek_sn_seg[OF sg this] have
      sk: "seek_sn ?h (head_sl l) (Some c) = Some (Ok (Some (last xs)))" .
    from seg_splice_out[OF inv(1)[unfolded sp(1)] False inv(2)[unfolded sp(1)]] obtain q where
      q: "?f c = Some q" "seg (?f(last xs := Some q)) (head_sl l) (xs @ ys) None" by blast
    have pb: "last xs < length ?h" using sl_rep_bound[OF assms, of "last xs"] False sp(1) by simp
    let ?l1 = "l\<lparr>cells_sl := ?h[last xs := (?h ! last xs)\<lparr>next_sn := q\<rparr>]\<rparr>"
    let ?l2 = "if Some c = tail_sl l then ?l1\<lparr>tail_sl := Some (last xs)\<rparr> else ?l1"
    have res: "Remove_sl v l = Some (Ok (?l2\<lparr>size_sl := size_sl l - 1\<rparr>))"
      using fnd hne sk q(1) pb
      by (simp add: Remove_sl_def Head_sl_def Tail_sl_def Next_sn_nxs SetNext_sn_Some)
    have tl: "tail_sl (?l2\<lparr>size_sl := size_sl l - 1\<rparr>) = Some (last (xs @ ys))"
    proof (cases "ys = []")
      case True
      then show ?thesis using inv(3) sp(1) by simp
    next
      case ys: False
      then have "c \<noteq> last ys" using inv(1) sp(1) by auto
      then show ?thesis using inv(3) sp(1) ys by simp
    qed
    have "sl_rep (?l2\<lparr>size_sl := size_sl l - 1\<rparr>) (xs @ ys) (map (vls ?h) (xs @ ys))"
      unfolding sl_rep_def sl_inv_def using q(2) tl inv(1,4) sp(1) False pb by auto
    then have "\<exists>l' as'. Some (Ok (?l2\<lparr>size_sl := size_sl l - 1\<rparr>)) = Some (Ok l') \<and>
                 sl_rep l' as' (map (vls ?h) (xs @ ys))" by blast
    then show ?thesis by (simp only: res vs')
  qed
qed

lemma Get_sl_rep:
  assumes "sl_rep l as vs"
  shows "Get_sl index l =
           (if index < 0 \<or> int (length vs) \<le> index then Ok ((None, Some (OutOfBounds index)), l)
            else Ok ((Some (as ! nat index), None), l))"
proof (cases "index < 0 \<or> int (length vs) \<le> index")
  case True
  then show ?thesis using sl_rep_size[OF assms] sl_rep_length[OF assms]
    by (auto simp: Get_sl_def Size_sl_def)
next
  case False
  then have i: "nat index < length as" using sl_rep_length[OF assms] by auto
  from advance_sn_seg[OF sl_rep_seg[OF assms], of "nat index"] i
  show ?thesis using False sl_rep_size[OF assms] sl_rep_length[OF assms]
    by (auto simp: Get_sl_def Size_sl_def Head_sl_def)
qed

lemma Set_sl_rep:
  assumes "sl_rep l as vs"
  shows "if index < 0 \<or> int (length vs) \<le> index then Set_sl index v l = Ok (Some (OutOfBounds index), l)
         else (\<exists>l'. Set_sl index v l = Ok (None, l') \<and> sl_rep l' as (vs[nat index := v]))"
proof (cases "index < 0 \<or> int (length vs) \<le> index")
  case True
  then show ?thesis by (simp add: Set_sl_def Get_sl_rep[OF assms])
next
  case False
  then have i: "nat index < length as" using sl_rep_length[OF assms] by auto
  then have b: "as ! nat index < length (cells_sl l)" using sl_rep_bound[OF assms] by simp
  have "sl_rep (l\<lparr>cells_sl := (cells_sl l)[as ! nat index := (cells_sl l ! (as ! nat index))\<lparr>value_sn := v\<rparr>]\<rparr>)
          as (vs[nat index := v])"
    using assms i b by (auto simp: sl_rep_def sl_inv_def map_upd_nth)
  then show ?thesis using False b
    by (simp add: Set_sl_def Get_sl_rep[OF assms] SetValue_sn_Some)
qed

lemma InsertAt_sl_rep:
  assumes "sl_rep l as vs"
  shows "if index < 0 \<or> int (length vs) < index then InsertAt_sl index v l = Ok (Some (OutOfBounds index), l)
         else (\<exists>l' as'. InsertAt_sl index v l = Ok (None, l') \<and>
                 sl_rep l' as' (take (nat index) vs @ v # drop (nat index) vs))"
proof -
  have len: "length vs = length as" and sz: "size_sl l = int (length as)"
    using sl_rep_length[OF assms] sl_rep_size[OF assms] by auto
  consider (err) "index < 0 \<or> int (length vs) < index" | (first) "index = 0"
    | (atend) "index = int (length vs)" "index \<noteq> 0" | (mid) "0 < index" "index < int (length vs)"
    by linarith
  then show ?thesis
  proof cases
    case err
    then show ?thesis using len sz by (auto simp: InsertAt_sl_def Size_sl_def)
  next
    case first
    then show ?thesis using Prepend_sl_rep[OF assms, of v] len sz
      by (auto simp: InsertAt_sl_def Size_sl_def)
  next
    case atend
    then show ?thesis using Append_sl_rep[OF assms, of v] len sz
      by (auto simp: InsertAt_sl_def Size_sl_def)
  next
    case mid
    let ?h = "cells_sl l" and ?f = "nxs (cells_sl l)" and ?n = "length (cells_sl l)"
    define i where "i = nat index"
    define xs where "xs = take i as"
    define ys where "ys = drop i as"
    have i: "0 < i" "i < length as" using mid len by (auto simp: i_def)
    have sp: "as = xs @ ys" "xs \<noteq> []" "ys \<noteq> []" "length xs = i"
      using i by (auto simp: xs_def ys_def)
    have lx: "last xs = as ! (i - 1)" using sp i
      by (metis One_nat_def diff_less last_conv_nth length_greater_0_conv less_numeral_extra(1) nth_append)
    from assms have inv: "distinct (xs @ ys)" "seg ?f (head_sl l) (xs @ ys) None"
      "tail_sl l = Some (last ys)" "vs = map (vls ?h) as"
      using sp by (auto simp: sl_rep_def sl_inv_def)
    have bnd: "\<forall>a\<in>set xs. a < ?n" "\<forall>a\<in>set ys. a < ?n" using sl_rep_bound[OF assms] sp(1) by auto
    then have fresh: "?n \<notin> set (xs @ ys)" by auto
    have lb: "last xs < ?n" using bnd sp by simp
    have lne: "last xs \<noteq> ?n" using lb by simp
    let ?ha = "?h @ [NewSinglyLinkedNode v]"
    have "seg (nxs ?ha) (head_sl l) as None" using inv(2) fresh sp(1) by (simp add: seg_upd_other)
    from advance_sn_seg[OF this, of "i - 1"] i lx
    have adv: "advance_sn ?ha (nat (index - 1)) (head_sl l) = Ok (Some (last xs))"
      by (simp add: i_def nat_diff_distrib)
    obtain q where q: "?f (last xs) = Some q"
      using seg_allocated[OF inv(2), of "last xs"] sp by auto
    have sg: "seg (?f(?n := Some q, last xs := Some (Some ?n))) (head_sl l) (xs @ ?n # ys) None"
      using seg_splice_in[OF inv(1) sp(2) fresh inv(2) q] .
    let ?h2 = "(?h @ [\<lparr>value_sn = v, next_sn = q\<rparr>])[last xs := (?h ! last xs)\<lparr>next_sn := Some ?n\<rparr>]"
    let ?l' = "l\<lparr>cells_sl := ?h2, size_sl := size_sl l + 1\<rparr>"
    have res: "InsertAt_sl index v l = Ok (None, ?l')"
      using mid len sz adv q lb lne
      by (simp add: InsertAt_sl_def Size_sl_def Head_sl_def Next_sn_nxs SetNext_sn_Some
          NewSinglyLinkedNode_def less_SucI nth_append)
    have nx2: "nxs ?h2 = ?f(?n := Some q, last xs := Some (Some ?n))"
      using lb by (simp add: less_SucI)
    have tvs: "take i vs = map (vls ?h) xs" "drop i vs = map (vls ?h) ys"
      using inv(4) by (simp_all add: xs_def ys_def take_map drop_map)
    have la: "length as = length xs + length ys" using sp(1) by simp
    have "sl_rep ?l' (xs @ ?n # ys) (take i vs @ v # drop i vs)"
      unfolding tvs sl_rep_def sl_inv_def using sg[folded nx2] inv(1,3) sp(2,3) bnd lb lne fresh sz la
      by (auto simp: less_SucI vls_append)
    then show ?thesis using res mid len by (auto simp: i_def)
  qed
qed

subsection \<open>Reverse, String and ForEach\<close>

lemma Reverse_sl_loop_seg:
  assumes "seg (nxs h) cur rest None" "distinct rest"
  shows "\<exists>h'. Reverse_sl_loop h prev cur
               = Some (Ok (h', if rest = [] then prev else Some (last rest))) \<and>
              seg (nxs h') (if rest = [] then prev else Some (last rest)) (rev rest) prev \<and>
              (\<forall>b. b \<notin> set rest \<longrightarrow> nxs h' b = nxs h b) \<and> vls h' = vls h \<and> length h' = length h"
  using assms
proof (induction rest arbitrary: h prev cur)
  case Nil
  then show ?case by (subst Reverse_sl_loop.simps) simp
next
  case (Cons a rs)
  from Cons.prems obtain r where r: "cur = Some a" "nxs h a = Some r" "seg (nxs h) r rs None" by auto
  have b: "a < length h" using r(2) by (rule nxs_Some_less)
  let ?h1 = "h[a := (h ! a)\<lparr>next_sn := prev\<rparr>]"
  have s1: "seg (nxs ?h1) r rs None" using r(3) Cons.prems(2) b by (simp add: seg_upd_other)
  from Cons.IH[OF s1, of "Some a"] Cons.prems(2) obtain h' where
    h': "Reverse_sl_loop ?h1 (Some a) r = Some (Ok (h', if rs = [] then Some a else Some (last rs)))"
    "seg (nxs h') (if rs = [] then Some a else Some (last rs)) (rev rs) (Some a)"
    "\<forall>b. b \<notin> set rs \<longrightarrow> nxs h' b = nxs ?h1 b" "vls h' = vls ?h1" "length h' = length ?h1"
    by auto
  have na: "nxs h' a = Some prev" using h'(3) Cons.prems(2) b by simp
  have "Reverse_sl_loop h prev cur = Some (Ok (h', Some (last (a # rs))))"
    using h'(1) r b by (subst Reverse_sl_loop.simps) (simp add: Next_sn_nxs SetNext_sn_Some)
  moreover have "seg (nxs h') (Some (last (a # rs))) (rev (a # rs)) prev"
    using h'(2) na by (cases "rs = []") (simp_all add: seg_snoc)
  moreover have "\<forall>b. b \<notin> set (a # rs) \<longrightarrow> nxs h' b = nxs h b" using h'(3) b by simp
  moreover have "vls h' = vls h" using h'(4) b by (simp add: fun_eq_iff)
  moreover have "length h' = length h" using h'(5) by simp
  ultimately show ?case by auto
qed

lemma Reverse_sl_rep:
  assumes "sl_rep l as vs"
  shows "\<exists>l'. Reverse_sl l = Some (Ok l') \<and> sl_rep l' (rev as) (rev vs)"
proof -
  let ?h = "cells_sl l"
  from assms have inv: "distinct as" "size_sl l = int (length as)" "vs = map (vls ?h) as"
    by (auto simp: sl_rep_def sl_inv_def)
  from Reverse_sl_loop_seg[OF sl_rep_seg[OF assms] inv(1), of None] obtain h1 where
    h1: "Reverse_sl_loop ?h None (head_sl l) = Some (Ok (h1, if as = [] then None else Some (last as)))"
    "seg (nxs h1) (if as = [] then None else Some (last as)) (rev as) None" "vls h1 = vls ?h"
    by auto
  let ?l' = "l\<lparr>tail_sl := head_sl l, cells_sl := h1, head_sl := if as = [] then None else Some (last as)\<rparr>"
  have res: "Reverse_sl l = Some (Ok ?l')"
    using h1(1) by (simp add: Reverse_sl_def Head_sl_def Let_def)
  have "sl_rep ?l' (rev as) (rev vs)"
    using h1(2,3) inv sl_rep_head[OF assms] by (auto simp: sl_rep_def sl_inv_def last_rev rev_map)
  then show ?thesis using res by simp
qed

lemma String_sl_loop_seg:
  assumes "seg (nxs h) (Some a) (a # rest) None"
  shows "String_sl_loop showv h result (Some a)
           = Some (Ok (result @ join '' -> '' (map (boxed showv) (map (vls h) (a # rest)))))"
  using assms
proof (induction rest arbitrary: a result)
  case Nil
  then have "a < length h" "nxs h a = Some None" by (auto dest: nxs_Some_less)
  then show ?case
    by (subst String_sl_loop.simps) (simp add: Value_sn_Some HasNext_sn_nxs boxed_def)
next
  case (Cons b rs)
  then have a: "a < length h" "nxs h a = Some (Some b)" "seg (nxs h) (Some b) (b # rs) None"
    by (auto dest: nxs_Some_less)
  show ?case using Cons.IH[OF a(3), of "result @ ''['' @ showv (vls h a) @ '']'' @ '' -> ''"] a(1,2)
    by (subst String_sl_loop.simps) (simp add: Value_sn_Some HasNext_sn_nxs Next_sn_nxs boxed_def[abs_def])
qed

lemma String_sl_rep:
  assumes "sl_rep l as vs"
  shows "String_sl showv l = Some (Ok (display ''SinglyLinkedList'' '' -> '' showv vs, l))"
proof (cases as)
  case Nil
  then show ?thesis using assms
    by (simp add: sl_rep_def sl_inv_def String_sl_def IsEmpty_sl_def Size_sl_def display_def)
next
  case (Cons a rest)
  have sz: "size_sl l = int (length as)" "vs = map (vls (cells_sl l)) as" "head_sl l = Some a"
    using assms sl_rep_head[OF assms] Cons by (auto simp: sl_rep_def sl_inv_def)
  have "seg (nxs (cells_sl l)) (Some a) (a # rest) None" using sl_rep_seg[OF assms] sz(3) Cons by simp
  from String_sl_loop_seg[OF this, of showv "''SinglyLinkedList: ''"]
  show ?thesis using Cons sz
    by (simp add: String_sl_def IsEmpty_sl_def Size_sl_def Head_sl_def display_def)
qed

lemma ForEach_sl_loop_seg:
  assumes "seg (nxs (cells_sl l)) cur rest None" "\<And>x st. fst (action x st) = fst st"
  shows "ForEach_sl_loop action cur (l, e)
           = Some (Ok (l, foldl (\<lambda>e x. snd (action x (l, e))) e (map (vls (cells_sl l)) rest)))"
  using assms(1)
proof (induction rest arbitrary: cur e)
  case Nil
  then show ?case by (subst ForEach_sl_loop.simps) simp
next
  case (Cons a rs)
  from Cons.prems obtain r where r: "cur = Some a" "nxs (cells_sl l) a = Some r"
    "seg (nxs (cells_sl l)) r rs None" by auto
  have b: "a < length (cells_sl l)" using r(2) by (rule nxs_Some_less)
  have st: "action (vls (cells_sl l) a) (l, e) = (l, snd (action (vls (cells_sl l) a) (l, e)))"
    using assms(2)[of "vls (cells_sl l) a" "(l, e)"] by (metis fst_conv prod.collapse)
  show ?case using Cons.IH[OF r(3), of "snd (action (vls (cells_sl l) a) (l, e))"] r b assms(2)
    by (subst ForEach_sl_loop.simps) (simp add: Value_sn_Some Next_sn_nxs, metis st)
qed

lemma ForEach_sl_rep:
  assumes "sl_rep l as vs" "\<And>x st. fst (action x st) = fst st"
  shows "ForEach_sl action (l, e) = Some (Ok (l, foldl (\<lambda>e x. snd (action x (l, e))) e vs))"
  using ForEach_sl_loop_seg[OF sl_rep_seg[OF assms(1)] assms(2), where e = e] assms(1)
  by (simp add: ForEach_sl_def Head_sl_def sl_rep_def)

lemma values_sl_rep: "sl_rep l as vs \<Longrightarrow> values_sl l = Some (Ok vs)"
  using ForEach_sl_rep[of l as vs collect "[]", OF _ fst_collect]
  by (simp add: values_sl_def foldl_collect)

section \<open>DoublyLinkedList: the operations keep the representation\<close>

subsection \<open>Prepend, Append, Clear, RemoveFirst and RemoveLast\<close>

lemma seg_pvd_bound: "seg (pvd h) p as q \<Longrightarrow> a \<in> set as \<Longrightarrow> a < length h"
  using seg_allocated[of "pvd h" p as q a] by (auto simp: pvd_def split: if_splits)

lemma dl_rep_bound: "dl_rep l as vs \<Longrightarrow> a \<in> set as \<Longrightarrow> a < length (cells_dl l)"
  unfolding dl_rep_def dl_inv_def using seg_nxd_bound by blast

lemma dl_rep_size: "dl_rep l as vs \<Longrightarrow> size_dl l = int (length as)"
  by (simp add: dl_rep_def dl_inv_def)

lemma dl_rep_length: "dl_rep l as vs \<Longrightarrow> length vs = length as"
  by (simp add: dl_rep_def)

lemma dl_rep_seg: "dl_rep l as vs \<Longrightarrow> seg (nxd (cells_dl l)) (head_dl l) as None"
  by (simp add: dl_rep_def dl_inv_def)

lemma dl_rep_head: "dl_rep l as vs \<Longrightarrow> head_dl l = (if as = [] then None else Some (hd as))"
  using seg_start[of "nxd (cells_dl l)" "head_dl l" as None] by (auto simp: dl_rep_def dl_inv_def)

lemma dl_rep_tail: "dl_rep l as vs \<Longrightarrow> tail_dl l = (if as = [] then None else Some (last as))"
  using seg_start[of "pvd (cells_dl l)" "tail_dl l" "rev as" None]
  by (auto simp: dl_rep_def dl_inv_def hd_rev)

lemma Clear_dl_rep: "dl_rep (Clear_dl l) [] []"
  by (simp add: dl_rep_def dl_inv_def Clear_dl_def)

lemma Prepend_dl_rep:
  assumes "dl_rep l as vs"
  shows "\<exists>l'. Prepend_dl v l = Ok l' \<and> dl_rep l' (length (cells_dl l) # as) (v # vs)"
proof (cases "as = []")
  case True
  with assms show ?thesis
    by (auto simp: dl_rep_def dl_inv_def Prepend_dl_def Size_dl_def NewDoublyLinkedNode_def)
next
  case False
  let ?h = "cells_dl l" and ?n = "length (cells_dl l)"
  from assms False have inv: "distinct as" "seg (nxd ?h) (head_dl l) as None"
    "seg (pvd ?h) (tail_dl l) (rev as) None" "size_dl l = int (length as)" "vs = map (vld ?h) as"
    "head_dl l = Some (hd as)"
    using dl_rep_head[OF assms] by (auto simp: dl_rep_def dl_inv_def)
  have bound: "\<forall>a\<in>set as. a < ?n" using dl_rep_bound[OF assms] by blast
  then have fresh: "?n \<notin> set as" by auto
  have lt: "hd as < ?n" using bound False by simp
  have lne: "hd as \<noteq> ?n" using lt by simp
  have pn: "pvd ?h (last (rev as)) = Some None"
    using seg_adjacent[of "pvd ?h" _ "rev as" "[]"] inv(3) False by simp
  from seg_splice_in[of "rev as" "[]" ?n "pvd ?h" "tail_dl l" None None] inv False fresh pn
  have sg: "seg ((pvd ?h)(?n := Some None, hd as := Some (Some ?n))) (tail_dl l) (rev as @ [?n]) None"
    by (simp add: last_rev)
  let ?h2 = "put_prev_dn (put_next_dn (?h @ [NewDoublyLinkedNode v]) ?n (Some (hd as))) (hd as) (Some ?n)"
  have res: "Prepend_dl v l = Ok (l\<lparr>cells_dl := ?h2, head_dl := Some ?n, size_dl := size_dl l + 1\<rparr>)"
    using inv(4,6) False lt
    by (simp add: Prepend_dl_def Size_dl_def SetNext_dn_Some SetPrev_dn_Some less_SucI)
  have nx2: "nxd ?h2 = (nxd ?h)(?n := Some (Some (hd as)))"
    by (simp add: less_SucI)
  have pv2: "pvd ?h2 = (pvd ?h)(?n := Some None, hd as := Some (Some ?n))"
    using lt by (simp add: less_SucI NewDoublyLinkedNode_def)
  have vl2: "map (vld ?h2) as = map (vld ?h) as" "vld ?h2 ?n = v"
    using bound by (simp_all add: vld_append NewDoublyLinkedNode_def)
  have "seg (nxd ?h2) (Some ?n) (?n # as) None"
    using inv(2,6) fresh by (simp add: nx2 seg_upd_other)
  then have "dl_rep (l\<lparr>cells_dl := ?h2, head_dl := Some ?n, size_dl := size_dl l + 1\<rparr>) (?n # as) (v # vs)"
    unfolding dl_rep_def dl_inv_def using sg[folded pv2] inv(1,4,5) fresh vl2
    by simp
  then show ?thesis using res by simp
qed

lemma Append_dl_rep:
  assumes "dl_rep l as vs"
  shows "\<exists>l'. Append_dl v l = Ok l' \<and> dl_rep l' (as @ [length (cells_dl l)]) (vs @ [v])"
proof (cases "as = []")
  case True
  with assms show ?thesis
    by (auto simp: dl_rep_def dl_inv_def Append_dl_def Size_dl_def NewDoublyLinkedNode_def)
next
  case False
  let ?h = "cells_dl l" and ?n = "length (cells_dl l)"
  from assms False have inv: "distinct as" "seg (nxd ?h) (head_dl l) as None"
    "seg (pvd ?h) (tail_dl l) (rev as) None" "size_dl l = int (length as)" "vs = map (vld ?h) as"
    "tail_dl l = Some (last as)"
    using dl_rep_tail[OF assms] by (auto simp: dl_rep_def dl_inv_def)
  have bound: "\<forall>a\<in>set as. a < ?n" using dl_rep_bound[OF assms] by blast
  then have fresh: "?n \<notin> set as" by auto
  have lt: "last as < ?n" using bound False by simp
  have lne: "last as \<noteq> ?n" using lt by simp
  have nn: "nxd ?h (last as) = Some None"
    using seg_adjacent[of "nxd ?h" _ as "[]"] inv(2) False by simp
  from seg_splice_in[of as "[]" ?n "nxd ?h" "head_dl l" None None] inv False fresh nn
  have sg: "seg ((nxd ?h)(?n := Some None, last as := Some (Some ?n))) (head_dl l) (as @ [?n]) None"
    by simp
  let ?h2 = "put_prev_dn (put_next_dn (?h @ [NewDoublyLinkedNode v]) (last as) (Some ?n)) ?n (Some (last as))"
  have res: "Append_dl v l = Ok (l\<lparr>cells_dl := ?h2, tail_dl := Some ?n, size_dl := size_dl l + 1\<rparr>)"
    using inv(4,6) False lt
    by (simp add: Append_dl_def Size_dl_def Tail_dl_def SetNext_dn_Some SetPrev_dn_Some less_SucI)
  have nx2: "nxd ?h2 = (nxd ?h)(?n := Some None, last as := Some (Some ?n))"
    using lt by (simp add: less_SucI NewDoublyLinkedNode_def)
  have pv2: "pvd ?h2 = (pvd ?h)(?n := Some (Some (last as)))"
    by (simp add: less_SucI)
  have vl2: "map (vld ?h2) as = map (vld ?h) as" "vld ?h2 ?n = v"
    using bound by (simp_all add: vld_append NewDoublyLinkedNode_def)
  have "seg (pvd ?h2) (Some ?n) (?n # rev as) None"
    using inv(3,6) fresh by (simp add: pv2 seg_upd_other)
  then have "dl_rep (l\<lparr>cells_dl := ?h2, tail_dl := Some ?n, size_dl := size_dl l + 1\<rparr>) (as @ [?n]) (vs @ [v])"
    unfolding dl_rep_def dl_inv_def using sg[folded nx2] inv(1,4,5) fresh vl2
    by simp
  then show ?thesis using res by simp
qed

lemma RemoveFirst_dl_rep:
  assumes "dl_rep l as vs"
  shows "\<exists>l'. RemoveFirst_dl l = Ok l' \<and> dl_rep l' (tl as) (tl vs)"
proof -
  consider "as = []" | a where "as = [a]" | c ys where "as = c # ys" "ys \<noteq> []"
    by (cases as) auto
  then show ?thesis
  proof cases
    case 1
    with assms have "vs = []" by (simp add: dl_rep_def)
    with 1 assms show ?thesis by (simp add: RemoveFirst_dl_def IsEmpty_dl_def Size_dl_def dl_rep_size)
  next
    case 2
    with assms show ?thesis
      by (auto simp: RemoveFirst_dl_def IsEmpty_dl_def Size_dl_def Head_dl_def Next_dn_nxd
          dl_rep_def dl_inv_def)
  next
    case 3
    let ?h = "cells_dl l"
    from assms 3 have inv: "distinct (c # ys)" "seg (nxd ?h) (head_dl l) (c # ys) None"
      "seg (pvd ?h) (tail_dl l) (rev ys @ [c]) None" "size_dl l = int (length as)"
      "vs = map (vld ?h) as"
      by (auto simp: dl_rep_def dl_inv_def)
    from inv(2) obtain r where r: "head_dl l = Some c" "nxd ?h c = Some r" "seg (nxd ?h) r ys None"
      by auto
    have rh: "r = Some (hd ys)" using seg_start[OF r(3)] 3 by simp
    have b: "hd ys < length ?h" using dl_rep_bound[OF assms, of "hd ys"] 3 by simp
    have ry: "rev ys = rev (tl ys) @ [hd ys]" using 3 by (cases ys) auto
    have "seg (pvd ?h) (tail_dl l) ((rev (tl ys) @ [hd ys]) @ [c]) None"
      using inv(3) by (simp add: ry)
    then have "seg (pvd ?h) (tail_dl l) (rev (tl ys) @ [hd ys]) (Some c)"
      unfolding seg_snoc[of _ _ "rev (tl ys) @ [hd ys]"] by blast
    from seg_retarget_last[OF this, of None] inv(1) 3
    have pv: "seg ((pvd ?h)(hd ys := Some None)) (tail_dl l) (rev ys) None"
      by (cases ys) (auto simp: ry)
    have "RemoveFirst_dl l = Ok (l\<lparr>head_dl := Some (hd ys), size_dl := size_dl l - 1,
            cells_dl := put_prev_dn ?h (hd ys) None\<rparr>)"
      using 3 r rh inv(4) b
      by (simp add: RemoveFirst_dl_def IsEmpty_dl_def Size_dl_def Head_dl_def Next_dn_nxd
          SetPrev_dn_Some Let_def)
    moreover have "dl_rep (l\<lparr>head_dl := Some (hd ys), size_dl := size_dl l - 1,
            cells_dl := put_prev_dn ?h (hd ys) None\<rparr>) ys (map (vld ?h) ys)"
      unfolding dl_rep_def dl_inv_def using pv r(3) rh inv(1,4) 3 b by simp
    ultimately show ?thesis using 3 inv(5) by auto
  qed
qed

lemma RemoveLast_dl_rep:
  assumes "dl_rep l as vs"
  shows "\<exists>l'. RemoveLast_dl l = Ok l' \<and> dl_rep l' (butlast as) (butlast vs)"
proof -
  consider "as = []" | a where "as = [a]" | c xs where "as = xs @ [c]" "xs \<noteq> []"
    by (cases as rule: rev_cases) fastforce+
  then show ?thesis
  proof cases
    case 1
    with assms have "vs = []" by (simp add: dl_rep_def)
    with 1 assms show ?thesis by (simp add: RemoveLast_dl_def IsEmpty_dl_def Size_dl_def dl_rep_size)
  next
    case 2
    with assms show ?thesis
      by (auto simp: RemoveLast_dl_def IsEmpty_dl_def Size_dl_def dl_rep_def dl_inv_def)
  next
    case 3
    let ?h = "cells_dl l"
    from assms 3 have inv: "distinct (xs @ [c])" "seg (nxd ?h) (head_dl l) (xs @ [c]) None"
      "seg (pvd ?h) (tail_dl l) (c # rev xs) None" "size_dl l = int (length as)"
      "vs = map (vld ?h) as"
      by (auto simp: dl_rep_def dl_inv_def)
    from inv(3) obtain r where r: "tail_dl l = Some c" "pvd ?h c = Some r" "seg (pvd ?h) r (rev xs) None"
      by auto
    have rh: "r = Some (last xs)" using seg_start[OF r(3)] 3 by (simp add: hd_rev)
    have b: "last xs < length ?h" using dl_rep_bound[OF assms, of "last xs"] 3 by simp
    have "seg (nxd ?h) (head_dl l) (butlast xs @ [last xs]) (Some c)"
      using inv(2) 3 by (simp add: seg_snoc)
    moreover have "last xs \<notin> set (butlast xs)" using inv(1) 3
      by (metis append_butlast_last_id distinct_append distinct.simps(2) distinct1_rotate rotate1.simps(2))
    ultimately have nx: "seg ((nxd ?h)(last xs := Some None)) (head_dl l) xs None"
      using seg_retarget_last[of "nxd ?h" "head_dl l" "butlast xs" "last xs" "Some c" None] 3 by simp
    have "RemoveLast_dl l = Ok (l\<lparr>tail_dl := Some (last xs), cells_dl := put_next_dn ?h (last xs) None,
             size_dl := size_dl l - 1\<rparr>)"
      using 3 r rh inv(4) b
      by (simp add: RemoveLast_dl_def IsEmpty_dl_def Size_dl_def Tail_dl_def Prev_dn_pvd
          SetNext_dn_Some Let_def)
    moreover have "dl_rep (l\<lparr>tail_dl := Some (last xs), cells_dl := put_next_dn ?h (last xs) None,
             size_dl := size_dl l - 1\<rparr>) xs (map (vld ?h) xs)"
      unfolding dl_rep_def dl_inv_def using nx r(3) rh inv(1,4) 3 b by simp
    ultimately show ?thesis using 3 inv(5) by auto
  qed
qed

subsection \<open>Find, Remove, Get, Set and InsertAt\<close>

lemma Find_dl_loop_seg:
  assumes "seg (nxd h) cur rest None"
  shows "Find_dl_loop h cur v = Some (Ok (map_of (zip (map (vld h) rest) rest) v))"
  using assms
proof (induction rest arbitrary: cur)
  case Nil
  then show ?case by (subst Find_dl_loop.simps) simp
next
  case (Cons a rs)
  from Cons.prems obtain r where r: "cur = Some a" "nxd h a = Some r" "seg (nxd h) r rs None" by auto
  have b: "a < length h" using r(2) by (rule nxd_Some_less)
  show ?case using Cons.IH[OF r(3)] r b
    by (subst Find_dl_loop.simps) (simp add: Value_dn_Some Next_dn_nxd)
qed

lemma Find_dl_rep:
  assumes "dl_rep l as vs"
  shows "Find_dl v l = Some (Ok (map_of (zip vs as) v, l))"
  using Find_dl_loop_seg[OF dl_rep_seg[OF assms], of v] assms
  by (simp add: Find_dl_def Head_dl_def dl_rep_def)

lemma Remove_dl_rep:
  assumes "dl_rep l as vs"
  shows "\<exists>l' as'. Remove_dl v l = Some (Ok l') \<and> dl_rep l' as' (remove1 v vs)"
proof (cases "v \<in> set vs")
  case False
  then have "map_of (zip vs as) v = None"
    using map_of_zip_None[OF dl_rep_length[OF assms], of v] by simp
  moreover have "remove1 v vs = vs" using False by (simp add: remove1_idem)
  ultimately show ?thesis using assms by (auto simp: Remove_dl_def Find_dl_rep[OF assms])
next
  case True
  let ?h = "cells_dl l"
  from assms have inv: "distinct as" "seg (nxd ?h) (head_dl l) as None"
    "seg (pvd ?h) (tail_dl l) (rev as) None" "size_dl l = int (length as)"
    "vs = map (vld ?h) as"
    by (auto simp: dl_rep_def dl_inv_def)
  from True obtain xs c ys where sp: "as = xs @ c # ys" "v \<notin> set (map (vld ?h) xs)" "vld ?h c = v"
    using first_occurrence[of v "vld ?h" as] inv(5) by auto
  have vs': "remove1 v vs = map (vld ?h) (xs @ ys)"
    using remove1_first[OF sp(2), of "map (vld ?h) ys"] sp inv(5) by simp
  have fnd: "Find_dl v l = Some (Ok (Some c, l))"
    using Find_dl_rep[OF assms, of v] map_of_zip_first[OF sp] inv(5) by simp
  show ?thesis
  proof (cases "xs = []")
    case True
    then have hd: "head_dl l = Some c" "as = c # ys" using dl_rep_head[OF assms] sp(1) by auto
    from RemoveFirst_dl_rep[OF assms] obtain l' where
      "RemoveFirst_dl l = Ok l'" "dl_rep l' (tl as) (tl vs)" by blast
    moreover have "tl vs = remove1 v vs" using vs' True sp(1) inv(5) by simp
    ultimately show ?thesis using fnd hd by (auto simp: Remove_dl_def Head_dl_def)
  next
    case False
    have hne: "head_dl l \<noteq> Some c" using dl_rep_head[OF assms] sp(1) inv(1) False
      by (cases xs) auto
    show ?thesis
    proof (cases "ys = []")
      case True
      then have tl: "tail_dl l = Some c" "as = xs @ [c]" using dl_rep_tail[OF assms] sp(1) by auto
      from RemoveLast_dl_rep[OF assms] obtain l' where
        "RemoveLast_dl l = Ok l'" "dl_rep l' (butlast as) (butlast vs)" by blast
      moreover have "butlast vs = remove1 v vs" using vs' True sp(1) inv(5) by (simp add: butlast_append)
      ultimately show ?thesis using fnd hne tl by (auto simp: Remove_dl_def Head_dl_def Tail_dl_def)
    next
      case ys: False
      have tne: "tail_dl l \<noteq> Some c" using dl_rep_tail[OF assms] sp(1) inv(1) ys by auto
      have nc: "nxd ?h c = Some (Some (hd ys))"
        using seg_adjacent[of "nxd ?h" "head_dl l" "xs @ [c]" ys None] inv(2) sp(1) ys by simp
      have pc: "pvd ?h c = Some (Some (last xs))"
        using seg_adjacent[of "pvd ?h" "tail_dl l" "rev ys @ [c]" "rev xs" None] inv(3) sp(1) False
        by (simp add: hd_rev)
      from seg_splice_out[OF inv(1)[unfolded sp(1)] False inv(2)[unfolded sp(1)]] nc
      have nx: "seg ((nxd ?h)(last xs := Some (Some (hd ys)))) (head_dl l) (xs @ ys) None" by auto
      have d': "distinct (rev ys @ c # rev xs)" using inv(1) sp(1) by auto
      from seg_splice_out[OF d', of "pvd ?h" "tail_dl l" None] inv(3) ys pc sp(1)
      have pv: "seg ((pvd ?h)(hd ys := Some (Some (last xs)))) (tail_dl l) (rev (xs @ ys)) None"
        by (auto simp: last_rev)
      have b: "last xs < length ?h" "hd ys < length ?h" "c < length ?h"
        using dl_rep_bound[OF assms] sp(1) False ys by auto
      have cl: "c \<noteq> last xs" using inv(1) sp(1) False by auto
      let ?h2 = "put_prev_dn (put_next_dn ?h (last xs) (Some (hd ys))) (hd ys) (Some (last xs))"
      have res: "Remove_dl v l = Some (Ok (l\<lparr>cells_dl := ?h2, size_dl := size_dl l - 1\<rparr>))"
        using fnd hne tne nc pc b cl
        by (simp add: Remove_dl_def Head_dl_def Tail_dl_def Next_dn_nxd Prev_dn_pvd SetNext_dn_Some
            SetPrev_dn_Some)
      have "dl_rep (l\<lparr>cells_dl := ?h2, size_dl := size_dl l - 1\<rparr>) (xs @ ys) (map (vld ?h) (xs @ ys))"
        unfolding dl_rep_def dl_inv_def using nx pv b inv(1,4) sp(1) by (simp del: rev_append)
      then have "\<exists>l' as'. Some (Ok (l\<lparr>cells_dl := ?h2, size_dl := size_dl l - 1\<rparr>)) = Some (Ok l') \<and>
                 dl_rep l' as' (map (vld ?h) (xs @ ys))" by blast
      then show ?thesis by (simp only: res vs')
    qed
  qed
qed

lemma Get_dl_rep:
  assumes "dl_rep l as vs"
  shows "Get_dl index l =
           (if index < 0 \<or> int (length vs) \<le> index then Ok ((None, Some (OutOfBounds index)), l)
            else Ok ((Some (as ! nat index), None), l))"
proof (cases "index < 0 \<or> int (length vs) \<le> index")
  case True
  then show ?thesis using dl_rep_size[OF assms] dl_rep_length[OF assms]
    by (auto simp: Get_dl_def Size_dl_def)
next
  case False
  then have i: "nat index < length as" using dl_rep_length[OF assms] by auto
  from advance_dn_seg[OF dl_rep_seg[OF assms], of "nat index"] i
  show ?thesis using False dl_rep_size[OF assms] dl_rep_length[OF assms]
    by (auto simp: Get_dl_def Size_dl_def Head_dl_def)
qed

lemma Set_dl_rep:
  assumes "dl_rep l as vs"
  shows "if index < 0 \<or> int (length vs) \<le> index then Set_dl index v l = Ok (Some (OutOfBounds index), l)
         else (\<exists>l'. Set_dl index v l = Ok (None, l') \<and> dl_rep l' as (vs[nat index := v]))"
proof (cases "index < 0 \<or> int (length vs) \<le> index")
  case True
  then show ?thesis by (simp add: Set_dl_def Get_dl_rep[OF assms])
next
  case False
  then have i: "nat index < length as" using dl_rep_length[OF assms] by auto
  then have b: "as ! nat index < length (cells_dl l)" using dl_rep_bound[OF assms] by simp
  have "dl_rep (l\<lparr>cells_dl := put_value_dn (cells_dl l) (as ! nat index) v\<rparr>) as (vs[nat index := v])"
    using assms i b by (auto simp: dl_rep_def dl_inv_def map_upd_nth)
  then show ?thesis using False b
    by (simp add: Set_dl_def Get_dl_rep[OF assms] SetValue_dn_Some)
qed

lemma InsertAt_dl_rep:
  assumes "dl_rep l as vs"
  shows "if index < 0 \<or> int (length vs) < index then InsertAt_dl index v l = Ok (Some (OutOfBounds index), l)
         else (\<exists>l' as'. InsertAt_dl index v l = Ok (None, l') \<and>
                 dl_rep l' as' (take (nat index) vs @ v # drop (nat index) vs))"
proof -
  have len: "length vs = length as" and sz: "size_dl l = int (length as)"
    using dl_rep_length[OF assms] dl_rep_size[OF assms] by auto
  consider (err) "index < 0 \<or> int (length vs) < index" | (first) "index = 0"
    | (atend) "index = int (length vs)" "index \<noteq> 0" | (mid) "0 < index" "index < int (length vs)"
    by linarith
  then show ?thesis
  proof cases
    case err
    then show ?thesis using len sz by (auto simp: InsertAt_dl_def Size_dl_def)
  next
    case first
    then show ?thesis using Prepend_dl_rep[OF assms, of v] len sz
      by (auto simp: InsertAt_dl_def Size_dl_def)
  next
    case atend
    then show ?thesis using Append_dl_rep[OF assms, of v] len sz
      by (auto simp: InsertAt_dl_def Size_dl_def)
  next
    case mid
    let ?h = "cells_dl l" and ?n = "length (cells_dl l)"
    define i where "i = nat index"
    define xs where "xs = take i as"
    define ys where "ys = drop i as"
    have i: "0 < i" "i < length as" using mid len by (auto simp: i_def)
    have sp: "as = xs @ ys" "xs \<noteq> []" "ys \<noteq> []" "length xs = i"
      using i by (auto simp: xs_def ys_def)
    have hy: "hd ys = as ! i" using i by (simp add: ys_def hd_drop_conv_nth)
    from assms have inv: "distinct (xs @ ys)" "seg (nxd ?h) (head_dl l) (xs @ ys) None"
      "seg (pvd ?h) (tail_dl l) (rev ys @ rev xs) None" "vs = map (vld ?h) as"
      using sp by (auto simp: dl_rep_def dl_inv_def)
    have bnd: "\<forall>a\<in>set xs. a < ?n" "\<forall>a\<in>set ys. a < ?n" using dl_rep_bound[OF assms] sp(1) by auto
    then have fresh: "?n \<notin> set (xs @ ys)" by auto
    have lb: "last xs < ?n" "hd ys < ?n" using bnd sp by simp_all
    have lne: "last xs \<noteq> ?n" "hd ys \<noteq> ?n" using lb by simp_all
    let ?ha = "?h @ [NewDoublyLinkedNode v]"
    have "seg (nxd ?ha) (head_dl l) as None" using inv(2) fresh sp(1) by (simp add: seg_upd_other)
    from advance_dn_seg[OF this, of i] i hy
    have adv: "advance_dn ?ha (nat index) (head_dl l) = Ok (Some (hd ys))"
      by (simp add: i_def)
    have nl: "nxd ?h (last xs) = Some (Some (hd ys))"
      using seg_adjacent[OF inv(2) sp(2)] sp(3) by simp
    have ph: "pvd ?h (hd ys) = Some (Some (last xs))"
      using seg_adjacent[OF inv(3), of ] sp(2,3) by (simp add: last_rev hd_rev)
    have nx: "seg ((nxd ?h)(?n := Some (Some (hd ys)), last xs := Some (Some ?n))) (head_dl l) (xs @ ?n # ys) None"
      using seg_splice_in[OF inv(1) sp(2) fresh inv(2) nl] .
    have d': "distinct (rev ys @ rev xs)" "?n \<notin> set (rev ys @ rev xs)" "rev ys \<noteq> []"
      using inv(1) fresh sp(3) by auto
    have pv: "seg ((pvd ?h)(?n := Some (Some (last xs)), hd ys := Some (Some ?n))) (tail_dl l)
                (rev (xs @ ?n # ys)) None"
      using seg_splice_in[OF d'(1,3,2) inv(3), of "Some (last xs)"] ph sp(3) by (simp add: last_rev)
    let ?h4 = "put_prev_dn (put_next_dn (put_prev_dn (put_next_dn ?ha
                 (last xs) (Some ?n)) ?n (Some (last xs))) ?n (Some (hd ys))) (hd ys) (Some ?n)"
    let ?l' = "l\<lparr>cells_dl := ?h4, size_dl := size_dl l + 1\<rparr>"
    have res: "InsertAt_dl index v l = Ok (None, ?l')"
      using mid len sz adv ph lb lne
      by (simp add: InsertAt_dl_def Size_dl_def Head_dl_def Prev_dn_pvd SetNext_dn_Some
          SetPrev_dn_Some less_SucI)
    have nx4: "nxd ?h4 = (nxd ?h)(?n := Some (Some (hd ys)), last xs := Some (Some ?n))"
      using lb lne by (simp add: less_SucI NewDoublyLinkedNode_def fun_upd_twist)
    have pv4: "pvd ?h4 = (pvd ?h)(?n := Some (Some (last xs)), hd ys := Some (Some ?n))"
      using lb lne by (simp add: less_SucI NewDoublyLinkedNode_def)
    have r4: "seg (nxd ?h4) (head_dl l) (xs @ ?n # ys) None"
             "seg (pvd ?h4) (tail_dl l) (rev (xs @ ?n # ys)) None"
      using nx pv by (simp_all only: nx4 pv4)
    have vl4: "map (vld ?h4) xs = map (vld ?h) xs" "map (vld ?h4) ys = map (vld ?h) ys" "vld ?h4 ?n = v"
      using bnd by (simp_all add: vld_append NewDoublyLinkedNode_def)
    have tvs: "take i vs = map (vld ?h) xs" "drop i vs = map (vld ?h) ys"
      using inv(4) by (simp_all add: xs_def ys_def take_map drop_map)
    have la: "length as = length xs + length ys" using sp(1) by simp
    have "dl_rep ?l' (xs @ ?n # ys) (take i vs @ v # drop i vs)"
      unfolding tvs dl_rep_def dl_inv_def using r4 vl4 inv(1) fresh sz la
      by simp
    then show ?thesis using res mid len by (auto simp: i_def)
  qed
qed

subsection \<open>Reverse, String, ForEach and ToSlice\<close>

lemma Reverse_dl_loop_seg:
  assumes "seg (nxd h) cur rest None" "distinct rest"
  shows "\<exists>h'. Reverse_dl_loop h prev cur
               = Some (Ok (h', if rest = [] then prev else Some (last rest))) \<and>
              seg (nxd h') (if rest = [] then prev else Some (last rest)) (rev rest) prev \<and>
              (\<forall>b. b \<notin> set rest \<longrightarrow> nxd h' b = nxd h b \<and> pvd h' b = pvd h b) \<and>
              (\<forall>b\<in>set rest. pvd h' b = nxd h b) \<and> vld h' = vld h \<and> length h' = length h"
  using assms
proof (induction rest arbitrary: h prev cur)
  case Nil
  then show ?case by (subst Reverse_dl_loop.simps) simp
next
  case (Cons a rs)
  from Cons.prems obtain r where r: "cur = Some a" "nxd h a = Some r" "seg (nxd h) r rs None" by auto
  have b: "a < length h" using r(2) by (rule nxd_Some_less)
  let ?h2 = "put_prev_dn (put_next_dn h a prev) a r"
  have s2: "seg (nxd ?h2) r rs None" using r(3) Cons.prems(2) b by (simp add: seg_upd_other)
  from Cons.IH[OF s2, of "Some a"] Cons.prems(2) obtain h' where
    h': "Reverse_dl_loop ?h2 (Some a) r = Some (Ok (h', if rs = [] then Some a else Some (last rs)))"
    "seg (nxd h') (if rs = [] then Some a else Some (last rs)) (rev rs) (Some a)"
    "\<forall>b. b \<notin> set rs \<longrightarrow> nxd h' b = nxd ?h2 b \<and> pvd h' b = pvd ?h2 b"
    "\<forall>b\<in>set rs. pvd h' b = nxd ?h2 b" "vld h' = vld ?h2" "length h' = length ?h2"
    by auto
  have na: "nxd h' a = Some prev" "pvd h' a = Some r" using h'(3) Cons.prems(2) b by simp_all
  have "Reverse_dl_loop h prev cur = Some (Ok (h', Some (last (a # rs))))"
    using h'(1) r b
    by (subst Reverse_dl_loop.simps) (simp add: Next_dn_nxd SetNext_dn_Some SetPrev_dn_Some)
  moreover have "seg (nxd h') (Some (last (a # rs))) (rev (a # rs)) prev"
    using h'(2) na by (cases "rs = []") (simp_all add: seg_snoc)
  moreover have "\<forall>b. b \<notin> set (a # rs) \<longrightarrow> nxd h' b = nxd h b \<and> pvd h' b = pvd h b"
    using h'(3) b by simp
  moreover have "\<forall>b\<in>set (a # rs). pvd h' b = nxd h b"
    using h'(4) na(2) r(2) b Cons.prems(2) by auto
  moreover have "vld h' = vld h" using h'(5) by simp
  moreover have "length h' = length h" using h'(6) by simp
  ultimately show ?case by auto
qed

lemma Reverse_dl_rep:
  assumes "dl_rep l as vs"
  shows "\<exists>l'. Reverse_dl l = Some (Ok l') \<and> dl_rep l' (rev as) (rev vs)"
proof -
  let ?h = "cells_dl l"
  from assms have inv: "distinct as" "size_dl l = int (length as)" "vs = map (vld ?h) as"
    by (auto simp: dl_rep_def dl_inv_def)
  from Reverse_dl_loop_seg[OF dl_rep_seg[OF assms] inv(1), of None] obtain h1 where
    h1: "Reverse_dl_loop ?h None (head_dl l) = Some (Ok (h1, if as = [] then None else Some (last as)))"
    "seg (nxd h1) (if as = [] then None else Some (last as)) (rev as) None"
    "\<forall>b\<in>set as. pvd h1 b = nxd ?h b" "vld h1 = vld ?h"
    by auto
  let ?l' = "l\<lparr>tail_dl := head_dl l, cells_dl := h1, head_dl := if as = [] then None else Some (last as)\<rparr>"
  have res: "Reverse_dl l = Some (Ok ?l')"
    using h1(1) by (simp add: Reverse_dl_def Head_dl_def Let_def)
  have "seg (pvd h1) (head_dl l) as None"
    using seg_cong_on[of as "pvd h1" "nxd ?h" "head_dl l" None] h1(3) dl_rep_seg[OF assms] by simp
  then have "dl_rep ?l' (rev as) (rev vs)"
    using h1(2,4) inv by (auto simp: dl_rep_def dl_inv_def rev_map)
  then show ?thesis using res by simp
qed

lemma String_dl_loop_seg:
  assumes "seg (nxd h) (Some a) (a # rest) None"
  shows "String_dl_loop showv h result (Some a)
           = Some (Ok (result @ join sep_dl (map (boxed showv) (map (vld h) (a # rest)))))"
  using assms
proof (induction rest arbitrary: a result)
  case Nil
  then have "a < length h" "nxd h a = Some None" by (auto dest: nxd_Some_less)
  then show ?case
    by (subst String_dl_loop.simps) (simp add: Value_dn_Some HasNext_dn_nxd boxed_def)
next
  case (Cons b rs)
  then have a: "a < length h" "nxd h a = Some (Some b)" "seg (nxd h) (Some b) (b # rs) None"
    by (auto dest: nxd_Some_less)
  show ?case using Cons.IH[OF a(3), of "result @ ''['' @ showv (vld h a) @ '']'' @ sep_dl"] a(1,2)
    by (subst String_dl_loop.simps) (simp add: Value_dn_Some HasNext_dn_nxd Next_dn_nxd boxed_def[abs_def])
qed

lemma String_dl_rep:
  assumes "dl_rep l as vs"
  shows "String_dl showv l = Some (Ok (display ''DoublyLinkedList'' sep_dl showv vs, l))"
proof (cases as)
  case Nil
  then show ?thesis using assms
    by (simp add: dl_rep_def dl_inv_def String_dl_def IsEmpty_dl_def Size_dl_def display_def)
next
  case (Cons a rest)
  have sz: "size_dl l = int (length as)" "vs = map (vld (cells_dl l)) as" "head_dl l = Some a"
    using assms dl_rep_head[OF assms] Cons by (auto simp: dl_rep_def dl_inv_def)
  have "seg (nxd (cells_dl l)) (Some a) (a # rest) None" using dl_rep_seg[OF assms] sz(3) Cons by simp
  from String_dl_loop_seg[OF this, of showv "''DoublyLinkedList: ''"]
  show ?thesis using Cons sz
    by (simp add: String_dl_def IsEmpty_dl_def Size_dl_def Head_dl_def display_def)
qed

lemma ForEach_dl_loop_seg:
  assumes "seg (nxd (cells_dl l)) cur rest None" "\<And>x st. fst (action x st) = fst st"
  shows "ForEach_dl_loop action cur (l, e)
           = Some (Ok (l, foldl (\<lambda>e x. snd (action x (l, e))) e (map (vld (cells_dl l)) rest)))"
  using assms(1)
proof (induction rest arbitrary: cur e)
  case Nil
  then show ?case by (subst ForEach_dl_loop.simps) simp
next
  case (Cons a rs)
  from Cons.prems obtain r where r: "cur = Some a" "nxd (cells_dl l) a = Some r"
    "seg (nxd (cells_dl l)) r rs None" by auto
  have b: "a < length (cells_dl l)" using r(2) by (rule nxd_Some_less)
  have st: "action (vld (cells_dl l) a) (l, e) = (l, snd (action (vld (cells_dl l) a) (l, e)))"
    using assms(2)[of "vld (cells_dl l) a" "(l, e)"] by (metis fst_conv prod.collapse)
  show ?case using Cons.IH[OF r(3), of "snd (action (vld (cells_dl l) a) (l, e))"] r b assms(2)
    by (subst ForEach_dl_loop.simps) (simp add: Value_dn_Some Next_dn_nxd, metis st)
qed

lemma ForEach_dl_rep:
  assumes "dl_rep l as vs" "\<And>x st. fst (action x st) = fst st"
  shows "ForEach_dl action (l, e) = Some (Ok (l, foldl (\<lambda>e x. snd (action x (l, e))) e vs))"
  using ForEach_dl_loop_seg[OF dl_rep_seg[OF assms(1)] assms(2), where e = e] assms(1)
  by (simp add: ForEach_dl_def Head_dl_def dl_rep_def)

lemma values_dl_rep: "dl_rep l as vs \<Longrightarrow> values_dl l = Some (Ok vs)"
  using ForEach_dl_rep[of l as vs collect "[]", OF _ fst_collect]
  by (simp add: values_dl_def foldl_collect)

lemma ToSlice_dl_loop_seg:
  assumes "seg (nxd h) cur rest None"
  shows "ToSlice_dl_loop h result cur = Some (Ok (result @ map (vld h) rest))"
  using assms
proof (induction rest arbitrary: cur result)
  case Nil
  then show ?case by (subst ToSlice_dl_loop.simps) simp
next
  case (Cons a rs)
  from Cons.prems obtain r where r: "cur = Some a" "nxd h a = Some r" "seg (nxd h) r rs None" by auto
  have b: "a < length h" using r(2) by (rule nxd_Some_less)
  show ?case using Cons.IH[OF r(3), of "result @ [vld h a]"] r b
    by (subst ToSlice_dl_loop.simps) (simp add: Value_dn_Some Next_dn_nxd)
qed

lemma ToSlice_dl_rep:
  assumes "dl_rep l as vs"
  shows "ToSlice_dl l = Some (Ok (vs, l))"
  using ToSlice_dl_loop_seg[OF dl_rep_seg[OF assms], of "[]"] assms
  by (simp add: ToSlice_dl_def Head_dl_def dl_rep_def)

section \<open>The lists reached from the empty list\<close>

subsection \<open>Every sequence of operations runs, and keeps the representation\<close>

lemma New_sl_rep: "sl_rep NewSinglyLinkedList [] []"
  by (simp add: sl_rep_def sl_inv_def NewSinglyLinkedList_def)

lemma New_cs_rep: "cs_rep NewCircularSinglyLinkedList [] []"
  by (simp add: cs_rep_def cs_inv_def NewCircularSinglyLinkedList_def ring_def)

lemma New_dl_rep: "dl_rep NewDoublyLinkedList [] []"
  by (simp add: dl_rep_def dl_inv_def NewDoublyLinkedList_def)

lemma New_cd_rep: "cd_rep NewCircularDoublyLinkedList [] []"
  by (simp add: cd_rep_def cd_inv_def NewCircularDoublyLinkedList_def ring_def)

lemma apply_sl_rep:
  assumes "sl_rep l as vs"
  shows "\<exists>l' as' vs'. apply_sl c l = Some (Ok l') \<and> sl_rep l' as' vs'"
proof (cases c)
  case (OpPrepend v)
  then show ?thesis using Prepend_sl_rep[OF assms, of v] by auto
next
  case (OpAppend v)
  then show ?thesis using Append_sl_rep[OF assms, of v] by auto
next
  case (OpInsertAt i v)
  then show ?thesis using InsertAt_sl_rep[OF assms, of i v] assms
    by (cases "i < 0 \<or> int (length vs) < i") (auto, blast)
next
  case (OpRemove v)
  then show ?thesis using Remove_sl_rep[OF assms, of v] by auto
next
  case OpRemoveFirst
  then show ?thesis using RemoveFirst_sl_rep[OF assms] by auto
next
  case OpRemoveLast
  then show ?thesis using RemoveLast_sl_rep[OF assms] by auto
next
  case (OpSet i v)
  then show ?thesis using Set_sl_rep[OF assms, of i v] assms
    by (cases "i < 0 \<or> int (length vs) \<le> i") (auto, blast)
next
  case OpReverse
  then show ?thesis using Reverse_sl_rep[OF assms] by auto
next
  case OpClear
  then show ?thesis using Clear_sl_rep[of l] by auto
qed

lemma run_sl_rep:
  "sl_rep l as vs \<Longrightarrow> \<exists>l' as' vs'. run_sl cs l = Some (Ok l') \<and> sl_rep l' as' vs'"
proof (induction cs arbitrary: l as vs)
  case Nil
  then show ?case by auto
next
  case (Cons c cs)
  from apply_sl_rep[OF Cons.prems, of c] obtain l1 as1 vs1 where
    "apply_sl c l = Some (Ok l1)" "sl_rep l1 as1 vs1" by blast
  with Cons.IH[of l1 as1 vs1] show ?case by simp
qed

lemma reach_sl: "\<exists>l as vs. run_sl cs NewSinglyLinkedList = Some (Ok l) \<and> sl_rep l as vs"
  using run_sl_rep[OF New_sl_rep] .

lemma apply_cs_rep:
  assumes "cs_rep l as vs"
  shows "\<exists>l' as' vs'. apply_cs c l = Some (Ok l') \<and> cs_rep l' as' vs'"
proof (cases c)
  case (OpPrepend v)
  then show ?thesis using Prepend_cs_rep[OF assms, of v] by auto
next
  case (OpAppend v)
  then show ?thesis using Append_cs_rep[OF assms, of v] by auto
next
  case (OpInsertAt i v)
  then show ?thesis using InsertAt_cs_rep[OF assms, of i v] assms
    by (cases "i < 0 \<or> int (length vs) < i") (auto, blast)
next
  case (OpRemove v)
  then show ?thesis using Remove_cs_rep[OF assms, of v] by auto
next
  case OpRemoveFirst
  then show ?thesis using RemoveFirst_cs_rep[OF assms] by auto
next
  case OpRemoveLast
  then show ?thesis using RemoveLast_cs_rep[OF assms] by auto
next
  case (OpSet i v)
  then show ?thesis using Set_cs_rep[OF assms, of i v] assms
    by (cases "i < 0 \<or> int (length vs) \<le> i") (auto, blast)
next
  case OpReverse
  then show ?thesis using Reverse_cs_rep[OF assms] by auto
next
  case OpClear
  then show ?thesis using Clear_cs_rep[of l] by auto
qed

lemma run_cs_rep:
  "cs_rep l as vs \<Longrightarrow> \<exists>l' as' vs'. run_cs cs l = Some (Ok l') \<and> cs_rep l' as' vs'"
proof (induction cs arbitrary: l as vs)
  case Nil
  then show ?case by auto
next
  case (Cons c cs)
  from apply_cs_rep[OF Cons.prems, of c] obtain l1 as1 vs1 where
    "apply_cs c l = Some (Ok l1)" "cs_rep l1 as1 vs1" by blast
  with Cons.IH[of l1 as1 vs1] show ?case by simp
qed

lemma reach_cs: "\<exists>l as vs. run_cs cs NewCircularSinglyLinkedList = Some (Ok l) \<and> cs_rep l as vs"
  using run_cs_rep[OF New_cs_rep] .

lemma apply_dl_rep:
  assumes "dl_rep l as vs"
  shows "\<exists>l' as' vs'. apply_dl c l = Some (Ok l') \<and> dl_rep l' as' vs'"
proof (cases c)
  case (OpPrepend v)
  then show ?thesis using Prepend_dl_rep[OF assms, of v] by auto
next
  case (OpAppend v)
  then show ?thesis using Append_dl_rep[OF assms, of v] by auto
next
  case (OpInsertAt i v)
  then show ?thesis using InsertAt_dl_rep[OF assms, of i v] assms
    by (cases "i < 0 \<or> int (length vs) < i") (auto, blast)
next
  case (OpRemove v)
  then show ?thesis using Remove_dl_rep[OF assms, of v] by auto
next
  case OpRemoveFirst
  then show ?thesis using RemoveFirst_dl_rep[OF assms] by auto
next
  case OpRemoveLast
  then show ?thesis using RemoveLast_dl_rep[OF assms] by auto
next
  case (OpSet i v)
  then show ?thesis using Set_dl_rep[OF assms, of i v] assms
    by (cases "i < 0 \<or> int (length vs) \<le> i") (auto, blast)
next
  case OpReverse
  then show ?thesis using Reverse_dl_rep[OF assms] by auto
next
  case OpClear
  then show ?thesis using Clear_dl_rep[of l] by auto
qed

lemma run_dl_rep:
  "dl_rep l as vs \<Longrightarrow> \<exists>l' as' vs'. run_dl cs l = Some (Ok l') \<and> dl_rep l' as' vs'"
proof (induction cs arbitrary: l as vs)
  case Nil
  then show ?case by auto
next
  case (Cons c cs)
  from apply_dl_rep[OF Cons.prems, of c] obtain l1 as1 vs1 where
    "apply_dl c l = Some (Ok l1)" "dl_rep l1 as1 vs1" by blast
  with Cons.IH[of l1 as1 vs1] show ?case by simp
qed

lemma reach_dl: "\<exists>l as vs. run_dl cs NewDoublyLinkedList = Some (Ok l) \<and> dl_rep l as vs"
  using run_dl_rep[OF New_dl_rep] .

lemma apply_cd_rep:
  assumes "cd_rep l as vs"
  shows "\<exists>l' as' vs'. apply_cd c l = Some (Ok l') \<and> cd_rep l' as' vs'"
proof (cases c)
  case (OpPrepend v)
  then show ?thesis using Prepend_cd_rep[OF assms, of v] by auto
next
  case (OpAppend v)
  then show ?thesis using Append_cd_rep[OF assms, of v] by auto
next
  case (OpInsertAt i v)
  then show ?thesis using InsertAt_cd_rep[OF assms, of i v] assms
    by (cases "i < 0 \<or> int (length vs) < i") (auto, blast)
next
  case (OpRemove v)
  then show ?thesis using Remove_cd_rep[OF assms, of v] by auto
next
  case OpRemoveFirst
  then show ?thesis using RemoveFirst_cd_rep[OF assms] by auto
next
  case OpRemoveLast
  then show ?thesis using RemoveLast_cd_rep[OF assms] by auto
next
  case (OpSet i v)
  then show ?thesis using Set_cd_rep[OF assms, of i v] assms
    by (cases "i < 0 \<or> int (length vs) \<le> i") (auto, blast)
next
  case OpReverse
  then show ?thesis using Reverse_cd_rep[OF assms] by auto
next
  case OpClear
  then show ?thesis using Clear_cd_rep[of l] by auto
qed

lemma run_cd_rep:
  "cd_rep l as vs \<Longrightarrow> \<exists>l' as' vs'. run_cd cs l = Some (Ok l') \<and> cd_rep l' as' vs'"
proof (induction cs arbitrary: l as vs)
  case Nil
  then show ?case by auto
next
  case (Cons c cs)
  from apply_cd_rep[OF Cons.prems, of c] obtain l1 as1 vs1 where
    "apply_cd c l = Some (Ok l1)" "cd_rep l1 as1 vs1" by blast
  with Cons.IH[of l1 as1 vs1] show ?case by simp
qed

lemma reach_cd: "\<exists>l as vs. run_cd cs NewCircularDoublyLinkedList = Some (Ok l) \<and> cd_rep l as vs"
  using run_cd_rep[OF New_cd_rep] .

section \<open>Facts about every state that has a representation\<close>

subsection \<open>The nodes by position\<close>

lemma advance_sn_None: "advance_sn h k None = (if k = 0 then Ok None else Panic)"
  by (cases k) simp_all

lemma advance_dn_None: "advance_dn h k None = (if k = 0 then Ok None else Panic)"
  by (cases k) simp_all

lemma advance_sn_add:
  "advance_sn h (i + j) p = bind_res (advance_sn h i p) (advance_sn h j)"
proof (induction i arbitrary: p)
  case 0
  then show ?case by simp
next
  case (Suc i)
  then show ?case by (cases "Next_sn h p") simp_all
qed

lemma advance_dn_add:
  "advance_dn h (i + j) p = bind_res (advance_dn h i p) (advance_dn h j)"
proof (induction i arbitrary: p)
  case 0
  then show ?case by simp
next
  case (Suc i)
  then show ?case by (cases "Next_dn h p") simp_all
qed

lemma sl_rep_nth_node:
  assumes "sl_rep l as vs"
  shows "nth_node_sl l k =
           (if k < length as then Ok (Some (as ! k)) else if k = length as then Ok None else Panic)"
proof (cases "k \<le> length as")
  case True
  then show ?thesis using advance_sn_seg[OF sl_rep_seg[OF assms], of k]
    by (auto simp: nth_node_sl_def Head_sl_def)
next
  case False
  then obtain j where j: "k = length as + j" "j \<noteq> 0"
    by (metis add_diff_inverse_nat less_imp_le_nat nat_neq_iff not_le zero_less_diff)
  have "advance_sn (cells_sl l) (length as) (head_sl l) = Ok None"
    using advance_sn_seg[OF sl_rep_seg[OF assms], of "length as"] by simp
  then show ?thesis using False j
    by (simp add: nth_node_sl_def Head_sl_def advance_sn_add advance_sn_None)
qed

lemma dl_rep_nth_node:
  assumes "dl_rep l as vs"
  shows "nth_node_dl l k =
           (if k < length as then Ok (Some (as ! k)) else if k = length as then Ok None else Panic)"
proof (cases "k \<le> length as")
  case True
  then show ?thesis using advance_dn_seg[OF dl_rep_seg[OF assms], of k]
    by (auto simp: nth_node_dl_def Head_dl_def)
next
  case False
  then obtain j where j: "k = length as + j" "j \<noteq> 0"
    by (metis add_diff_inverse_nat less_imp_le_nat nat_neq_iff not_le zero_less_diff)
  have "advance_dn (cells_dl l) (length as) (head_dl l) = Ok None"
    using advance_dn_seg[OF dl_rep_seg[OF assms], of "length as"] by simp
  then show ?thesis using False j
    by (simp add: nth_node_dl_def Head_dl_def advance_dn_add advance_dn_None)
qed

lemma cs_rep_nth_node:
  assumes "cs_rep l as vs" "as \<noteq> []"
  shows "nth_node_cs l k = Ok (Some (as ! (k mod length as)))"
proof (induction k rule: less_induct)
  case (less k)
  have hd: "Head_cs l = Ok (Some (hd as))" using cs_rep_Head[OF assms(1)] assms(2) by simp
  show ?case
  proof (cases "k < length as")
    case True
    then show ?thesis using hd cs_rep_advance[OF assms(1) True] by (simp add: nth_node_cs_def)
  next
    case False
    have "0 < length as" using assms(2) by simp
    with False have k: "k = length as + (k - length as)" "k - length as < k" by arith+
    have "advance_sn (cells_cs l) (length as) (Some (hd as)) = Ok (Some (hd as))"
      using advance_sn_seg[OF cs_rep_seg[OF assms], of "length as"] by simp
    then have "nth_node_cs l k = nth_node_cs l (k - length as)"
      using hd by (subst k(1)) (simp add: nth_node_cs_def advance_sn_add)
    then show ?thesis using less[OF k(2)] False by (simp add: le_mod_geq)
  qed
qed

lemma cd_rep_nth_node:
  assumes "cd_rep l as vs" "as \<noteq> []"
  shows "nth_node_cd l k = Ok (Some (as ! (k mod length as)))"
proof (induction k rule: less_induct)
  case (less k)
  have hd: "Head_cd l = Ok (Some (hd as))" using cd_rep_Head[OF assms(1)] assms(2) by simp
  show ?case
  proof (cases "k < length as")
    case True
    then show ?thesis using hd cd_rep_advance[OF assms(1) True] by (simp add: nth_node_cd_def)
  next
    case False
    have "0 < length as" using assms(2) by simp
    with False have k: "k = length as + (k - length as)" "k - length as < k" by arith+
    have "advance_dn (cells_cd l) (length as) (Some (hd as)) = Ok (Some (hd as))"
      using advance_dn_seg[OF cd_rep_seg[OF assms], of "length as"] by simp
    then have "nth_node_cd l k = nth_node_cd l (k - length as)"
      using hd by (subst k(1)) (simp add: nth_node_cd_def advance_dn_add)
    then show ?thesis using less[OF k(2)] False by (simp add: le_mod_geq)
  qed
qed

lemma cs_rep_nth_node_empty: "cs_rep l [] vs \<Longrightarrow> nth_node_cs l k = (if k = 0 then Ok None else Panic)"
  using cs_rep_Head[of l "[]" vs] by (simp add: nth_node_cs_def advance_sn_None)

lemma cd_rep_nth_node_empty: "cd_rep l [] vs \<Longrightarrow> nth_node_cd l k = (if k = 0 then Ok None else Panic)"
  using cd_rep_Head[of l "[]" vs] by (simp add: nth_node_cd_def advance_dn_None)

subsection \<open>Ring closure\<close>

lemma cs_rep_ring_closed:
  assumes "cs_rep l as vs"
  shows "ring_closed_cs l"
proof (cases "as = []")
  case True
  then show ?thesis using cs_rep_size[OF assms] by (simp add: ring_closed_cs_def Size_cs_def)
next
  case False
  have "nth_node_cs l (length as - 1) = Ok (Some (last as))"
    using cs_rep_nth_node[OF assms False, of "length as - 1"] False by (simp add: last_conv_nth)
  moreover have "nat (int (length as) - 1) = length as - 1" by simp
  ultimately show ?thesis
    using False cs_rep_Head[OF assms] cs_rep_tail[OF assms] cs_rep_size[OF assms]
      cs_rep_ring_last[OF assms False]
    by (simp add: ring_closed_cs_def Size_cs_def Tail_cs_def Next_sn_nxs)
qed

lemma cd_rep_ring_closed:
  assumes "cd_rep l as vs"
  shows "ring_closed_cd l"
proof (cases "as = []")
  case True
  then show ?thesis using cd_rep_size[OF assms] by (simp add: ring_closed_cd_def Size_cd_def)
next
  case False
  have "nth_node_cd l (length as - 1) = Ok (Some (last as))"
    using cd_rep_nth_node[OF assms False, of "length as - 1"] False by (simp add: last_conv_nth)
  moreover have "nat (int (length as) - 1) = length as - 1" by simp
  ultimately show ?thesis
    using False cd_rep_Head[OF assms] cd_rep_tail[OF assms] cd_rep_size[OF assms]
      cd_rep_ring_last[OF assms False] cd_rep_ring_first[OF assms False]
    by (simp add: ring_closed_cd_def Size_cd_def Tail_cd_def Next_dn_nxd Prev_dn_pvd)
qed

subsection \<open>The size and the traversal\<close>

lemma sl_rep_traversal: "sl_rep l as vs \<Longrightarrow> traversal_sl l"
  using sl_rep_size[of l as vs] by (simp add: traversal_sl_def Size_sl_def sl_rep_nth_node)

lemma dl_rep_traversal: "dl_rep l as vs \<Longrightarrow> traversal_dl l"
  using dl_rep_size[of l as vs] by (simp add: traversal_dl_def Size_dl_def dl_rep_nth_node)

lemma cs_rep_traversal:
  assumes "cs_rep l as vs"
  shows "traversal_cs l"
proof (cases "as = []")
  case True
  then show ?thesis using assms cs_rep_size[OF assms] cs_rep_Head[OF assms]
    by (simp add: traversal_cs_def Size_cs_def cs_rep_nth_node_empty)
next
  case False
  have d: "distinct as" using assms by (simp add: cs_rep_def cs_inv_def)
  have "k < length as \<Longrightarrow> 0 < k \<Longrightarrow> as ! k \<noteq> hd as" for k
    using d False by (metis hd_conv_nth length_greater_0_conv nth_eq_iff_index_eq less_numeral_extra(3))
  then show ?thesis using False cs_rep_size[OF assms] cs_rep_Head[OF assms]
    by (simp add: traversal_cs_def Size_cs_def cs_rep_nth_node[OF assms False] hd_conv_nth)
qed

lemma cd_rep_traversal:
  assumes "cd_rep l as vs"
  shows "traversal_cd l"
proof (cases "as = []")
  case True
  then show ?thesis using assms cd_rep_size[OF assms] cd_rep_Head[OF assms]
    by (simp add: traversal_cd_def Size_cd_def cd_rep_nth_node_empty)
next
  case False
  have d: "distinct as" using assms by (simp add: cd_rep_def cd_inv_def)
  have "k < length as \<Longrightarrow> 0 < k \<Longrightarrow> as ! k \<noteq> hd as" for k
    using d False by (metis hd_conv_nth length_greater_0_conv nth_eq_iff_index_eq less_numeral_extra(3))
  then show ?thesis using False cd_rep_size[OF assms] cd_rep_Head[OF assms]
    by (simp add: traversal_cd_def Size_cd_def cd_rep_nth_node[OF assms False] hd_conv_nth)
qed

subsection \<open>Symmetry of the two links\<close>

lemma seg_next_at:
  assumes "seg f p as e" "k < length as"
  shows "f (as ! k) = Some (if Suc k < length as then Some (as ! Suc k) else e)"
proof -
  have sp: "as = take (Suc k) as @ drop (Suc k) as" "take (Suc k) as \<noteq> []"
    using assms(2) by auto
  have "f (last (take (Suc k) as))
          = Some (if drop (Suc k) as = [] then e else Some (hd (drop (Suc k) as)))"
    using seg_adjacent[of f p "take (Suc k) as" "drop (Suc k) as" e] assms(1) sp by simp
  moreover have "last (take (Suc k) as) = as ! k"
    using assms(2) by (simp add: take_Suc_conv_app_nth)
  ultimately show ?thesis using assms(2) by (auto simp: hd_drop_conv_nth)
qed

lemma seg_rev_prev_at:
  assumes "seg g p (rev as) e" "Suc k < length as"
  shows "g (as ! Suc k) = Some (Some (as ! k))"
proof -
  let ?n = "length as"
  have j: "?n - Suc (Suc k) < length (rev as)" "Suc (?n - Suc (Suc k)) < length (rev as)"
    using assms(2) by auto
  from seg_next_at[OF assms(1) j(1)] j(2)
  have "g (rev as ! (?n - Suc (Suc k))) = Some (Some (rev as ! Suc (?n - Suc (Suc k))))" by simp
  moreover have "rev as ! (?n - Suc (Suc k)) = as ! Suc k" using assms(2) by (simp add: rev_nth)
  moreover have "rev as ! Suc (?n - Suc (Suc k)) = as ! k"
    using assms(2) by (simp add: rev_nth Suc_diff_Suc)
  ultimately show ?thesis by simp
qed

lemma dl_rep_symmetric:
  assumes "dl_rep l as vs"
  shows "symmetric_dl l k"
proof (cases "k < length as")
  case False
  then show ?thesis by (simp add: symmetric_dl_def dl_rep_nth_node[OF assms])
next
  case True
  let ?h = "cells_dl l"
  have s: "seg (nxd ?h) (head_dl l) as None" "seg (pvd ?h) (tail_dl l) (rev as) None"
    using assms by (auto simp: dl_rep_def dl_inv_def)
  have nx: "nxd ?h (as ! k) = Some (if Suc k < length as then Some (as ! Suc k) else None)"
    using seg_next_at[OF s(1) True] .
  show ?thesis
  proof (cases "Suc k < length as")
    case False
    then show ?thesis using True nx
      by (simp add: symmetric_dl_def dl_rep_nth_node[OF assms] linked_back_def Next_dn_nxd)
  next
    case k: True
    then show ?thesis using True nx seg_rev_prev_at[OF s(2) k]
      by (simp add: symmetric_dl_def dl_rep_nth_node[OF assms] linked_back_def Next_dn_nxd Prev_dn_pvd)
  qed
qed

lemma cd_rep_symmetric:
  assumes "cd_rep l as vs"
  shows "symmetric_cd l k"
proof (cases "as = []")
  case True
  then show ?thesis using assms by (simp add: symmetric_cd_def cd_rep_nth_node_empty)
next
  case False
  let ?h = "cells_cd l" and ?j = "k mod length as"
  have j: "?j < length as" using False by simp
  have s: "seg (nxd ?h) (Some (hd as)) as (Some (hd as))"
    "seg (pvd ?h) (Some (last as)) (rev as) (Some (last as))"
    using assms False by (auto simp: cd_rep_def cd_inv_def ring_def hd_rev)
  have nx: "nxd ?h (as ! ?j) = Some (if Suc ?j < length as then Some (as ! Suc ?j) else Some (hd as))"
    using seg_next_at[OF s(1) j] .
  show ?thesis
  proof (cases "Suc ?j < length as")
    case False
    with j have "?j = length as - 1" by arith
    then have "as ! ?j = last as" using \<open>as \<noteq> []\<close> by (simp add: last_conv_nth)
    then show ?thesis using nx False cd_rep_ring_first[OF assms \<open>as \<noteq> []\<close>]
      by (simp add: symmetric_cd_def cd_rep_nth_node[OF assms \<open>as \<noteq> []\<close>] linked_back_def
          Next_dn_nxd Prev_dn_pvd)
  next
    case True
    then show ?thesis using nx seg_rev_prev_at[OF s(2) True]
      by (simp add: symmetric_cd_def cd_rep_nth_node[OF assms False] linked_back_def
          Next_dn_nxd Prev_dn_pvd)
  qed
qed

section \<open>Evaluation of the operations on concrete lists\<close>

lemmas node_eval = Next_sn_def Value_sn_def SetNext_sn_def SetValue_sn_def HasNext_sn_def
  Next_dn_def Prev_dn_def Value_dn_def SetNext_dn_def SetPrev_dn_def SetValue_dn_def HasNext_dn_def
  deref_def assign_def NewSinglyLinkedNode_def NewDoublyLinkedNode_def Let_def eval_nat_numeral

lemmas sl_eval = NewSinglyLinkedList_def Prepend_sl_def Append_sl_def IsEmpty_sl_def
  Size_sl_def Tail_sl_def Head_sl_def Clear_sl_def RemoveFirst_sl_def RemoveLast_sl_def Remove_sl_def
  Reverse_sl_def InsertAt_sl_def Get_sl_def Set_sl_def String_sl_def ForEach_sl_def nth_node_sl_def
  Find_sl_def Contains_sl_def values_sl_def collect_def
  seek_sn.simps Find_sl_loop.simps Reverse_sl_loop.simps ForEach_sl_loop.simps String_sl_loop.simps

lemmas cs_eval = NewCircularSinglyLinkedList_def Prepend_cs_def Append_cs_def IsEmpty_cs_def
  Size_cs_def Tail_cs_def Head_cs_def Clear_cs_def RemoveFirst_cs_def RemoveLast_cs_def Remove_cs_def
  Reverse_cs_def InsertAt_cs_def Get_cs_def Set_cs_def String_cs_def ForEach_cs_def nth_node_cs_def
  Find_cs_def Contains_cs_def values_cs_def collect_def Find_spec_cs_def
  seek_sn.simps Find_cs_loop.simps

lemmas dl_eval = NewDoublyLinkedList_def Prepend_dl_def Append_dl_def IsEmpty_dl_def
  Size_dl_def Tail_dl_def Head_dl_def Clear_dl_def RemoveFirst_dl_def RemoveLast_dl_def Remove_dl_def
  Reverse_dl_def InsertAt_dl_def Get_dl_def Set_dl_def String_dl_def ForEach_dl_def nth_node_dl_def
  Find_dl_def ToSlice_dl_def values_dl_def collect_def
  Find_dl_loop.simps Reverse_dl_loop.simps ForEach_dl_loop.simps String_dl_loop.simps
  ToSlice_dl_loop.simps

lemmas cd_eval = NewCircularDoublyLinkedList_def Prepend_cd_def Append_cd_def IsEmpty_cd_def
  Size_cd_def Tail_cd_def Head_cd_def Clear_cd_def RemoveFirst_cd_def RemoveLast_cd_def Remove_cd_def
  Reverse_cd_def InsertAt_cd_def Get_cd_def Set_cd_def String_cd_def ForEach_cd_def Find_cd_def
  Contains_cd_def nth_node_cd_def values_cd_def collect_def

lemma run_sl_012:
  "run_sl [OpAppend 1, OpAppend 2, OpPrepend 0] NewSinglyLinkedList = Some (Ok sl_012)"
  by (simp add: sl_eval node_eval sl_012_def)

lemma run_cs_012:
  "run_cs [OpAppend 1, OpAppend 2, OpPrepend 0] NewCircularSinglyLinkedList = Some (Ok cs_012)"
  by (simp add: cs_eval node_eval cs_012_def)

lemma run_dl_012:
  "run_dl [OpAppend 1, OpAppend 2, OpPrepend 0] NewDoublyLinkedList = Some (Ok dl_012)"
  by (simp add: dl_eval node_eval dl_012_def)

lemma run_cd_012:
  "run_cd [OpAppend 1, OpAppend 2, OpPrepend 0] NewCircularDoublyLinkedList = Some (Ok cd_012)"
  by (simp add: cd_eval node_eval cd_012_def)

lemma run_sl_none: "run_sl [OpAppend 1, OpRemoveFirst] NewSinglyLinkedList = Some (Ok sl_none)"
  by (simp add: sl_eval node_eval sl_none_def)

lemma run_cs_none:
  "run_cs [OpAppend 1, OpRemoveFirst] NewCircularSinglyLinkedList = Some (Ok cs_none)"
  by (simp add: cs_eval node_eval cs_none_def)

lemma run_dl_none: "run_dl [OpAppend 1, OpRemoveFirst] NewDoublyLinkedList = Some (Ok dl_none)"
  by (simp add: dl_eval node_eval dl_none_def)

lemma run_cd_none:
  "run_cd [OpAppend 1, OpRemoveFirst] NewCircularDoublyLinkedList = Some (Ok cd_none)"
  by (simp add: cd_eval node_eval cd_none_def)

lemma run_dl_10_7_5:
  "run_dl [OpAppend 5, OpAppend 10, OpInsertAt 1 7, OpReverse] NewDoublyLinkedList =
     Some (Ok dl_10_7_5)"
  by (simp add: dl_eval node_eval dl_10_7_5_def)

lemma run_cd_10_7_5:
  "run_cd [OpAppend 5, OpAppend 10, OpInsertAt 1 7, OpReverse] NewCircularDoublyLinkedList =
     Some (Ok cd_10_7_5)"
  by (simp add: cd_eval node_eval cd_10_7_5_def)

lemma values_sl_012: "values_sl sl_012 = Some (Ok [0, 1, 2])"
  by (simp add: sl_eval node_eval sl_012_def)

lemma values_cs_012: "values_cs cs_012 = Ok [0, 1, 2]"
  by (simp add: cs_eval node_eval cs_012_def)

lemma values_dl_012: "values_dl dl_012 = Some (Ok [0, 1, 2])"
  by (simp add: dl_eval node_eval dl_012_def)

lemma values_cd_012: "values_cd cd_012 = Ok [0, 1, 2]"
  by (simp add: cd_eval node_eval cd_012_def)

section \<open>The invariants of the reachable lists\<close>

text \<open>
  Claim C1. A circular list reached from the empty list by any sequence of \<open>Prepend\<close>,
  \<open>Append\<close>, \<open>InsertAt\<close>, \<open>Remove\<close>, \<open>RemoveFirst\<close>, \<open>RemoveLast\<close>, \<open>Set\<close>, \<open>Reverse\<close> and
  \<open>Clear\<close> is reached without a panic, and when its size is positive its tail's \<open>next\<close> is
  its head; in the circular doubly linked list the head's \<open>prev\<close> is the tail as well.
\<close>

theorem C1_ring_closure:
  "(\<exists>l. run_cs ops NewCircularSinglyLinkedList = Some (Ok l) \<and> ring_closed_cs l) \<and>
   (\<exists>l. run_cd ops NewCircularDoublyLinkedList = Some (Ok l) \<and> ring_closed_cd l)"
  using reach_cs[of ops] reach_cd[of ops] cs_rep_ring_closed cd_rep_ring_closed by blast

theorem C1_ring_closure_witness:
  "run_cs [OpAppend 1, OpAppend 2, OpPrepend 0] NewCircularSinglyLinkedList = Some (Ok cs_012) \<and>
   0 < Size_cs cs_012 \<and> Tail_cs cs_012 = Some 1 \<and> Head_cs cs_012 = Ok (Some 2) \<and>
   Next_sn (cells_cs cs_012) (Tail_cs cs_012) = Ok (Some 2) \<and> ring_closed_cs cs_012 \<and>
   run_cd [OpAppend 1, OpAppend 2, OpPrepend 0] NewCircularDoublyLinkedList = Some (Ok cd_012) \<and>
   0 < Size_cd cd_012 \<and> Tail_cd cd_012 = Some 1 \<and> Head_cd cd_012 = Ok (Some 2) \<and>
   Next_dn (cells_cd cd_012) (Tail_cd cd_012) = Ok (Some 2) \<and>
   Prev_dn (cells_cd cd_012) (Some 2) = Ok (Tail_cd cd_012) \<and> ring_closed_cd cd_012"
proof -
  have "ring_closed_cs cs_012"
    using C1_ring_closure[of "[OpAppend (1::int), OpAppend 2, OpPrepend 0]"]
    unfolding run_cs_012 by simp
  moreover have "ring_closed_cd cd_012"
    using C1_ring_closure[of "[OpAppend (1::int), OpAppend 2, OpPrepend 0]"]
    unfolding run_cd_012 by simp
  ultimately show ?thesis
    by (simp add: run_cs_012 run_cd_012) (simp add: cs_012_def cd_012_def cs_eval cd_eval node_eval)
qed

text \<open>
  Claim C2. A doubly linked list, linear or circular, reached from the empty list by any
  sequence of the public operations is reached without a panic, and at every node \<open>a\<close> on the
  walk from its head whose \<open>next\<close> is a node \<open>b\<close>, the \<open>prev\<close> of \<open>b\<close> is \<open>a\<close>.
\<close>

theorem C2_prev_next_symmetry:
  "(\<exists>l. run_dl ops NewDoublyLinkedList = Some (Ok l) \<and> (\<forall>k. symmetric_dl l k)) \<and>
   (\<exists>l. run_cd ops NewCircularDoublyLinkedList = Some (Ok l) \<and> (\<forall>k. symmetric_cd l k))"
  using reach_dl[of ops] reach_cd[of ops] dl_rep_symmetric cd_rep_symmetric by blast

theorem C2_prev_next_symmetry_witness:
  "run_dl [OpAppend 5, OpAppend 10, OpInsertAt 1 7, OpReverse] NewDoublyLinkedList =
     Some (Ok dl_10_7_5) \<and>
   symmetric_dl dl_10_7_5 0 \<and> symmetric_dl dl_10_7_5 1 \<and> symmetric_dl dl_10_7_5 2 \<and>
   nth_node_dl dl_10_7_5 0 = Ok (Some 1) \<and>
   Next_dn (cells_dl dl_10_7_5) (Some 1) = Ok (Some 2) \<and>
   Prev_dn (cells_dl dl_10_7_5) (Some 2) = Ok (Some 1) \<and>
   Next_dn (cells_dl dl_10_7_5) (Some 2) = Ok (Some 0) \<and>
   Prev_dn (cells_dl dl_10_7_5) (Some 0) = Ok (Some 2) \<and>
   Next_dn (cells_dl dl_10_7_5) (Some 0) = Ok None \<and>
   run_cd [OpAppend 5, OpAppend 10, OpInsertAt 1 7, OpReverse] NewCircularDoublyLinkedList =
     Some (Ok cd_10_7_5) \<and>
   symmetric_cd cd_10_7_5 0 \<and> symmetric_cd cd_10_7_5 1 \<and> symmetric_cd cd_10_7_5 2 \<and>
   nth_node_cd cd_10_7_5 0 = Ok (Some 1) \<and>
   Next_dn (cells_cd cd_10_7_5) (Some 1) = Ok (Some 2) \<and>
   Prev_dn (cells_cd cd_10_7_5) (Some 2) = Ok (Some 1) \<and>
   Next_dn (cells_cd cd_10_7_5) (Some 2) = Ok (Some 0) \<and>
   Prev_dn (cells_cd cd_10_7_5) (Some 0) = Ok (Some 2) \<and>
   Next_dn (cells_cd cd_10_7_5) (Some 0) = Ok (Some 1) \<and>
   Prev_dn (cells_cd cd_10_7_5) (Some 1) = Ok (Some 0)"
proof -
  have "\<forall>k. symmetric_dl dl_10_7_5 k"
    using C2_prev_next_symmetry[of "[OpAppend (5::int), OpAppend 10, OpInsertAt 1 7, OpReverse]"]
    unfolding run_dl_10_7_5 by simp
  moreover have "\<forall>k. symmetric_cd cd_10_7_5 k"
    using C2_prev_next_symmetry[of "[OpAppend (5::int), OpAppend 10, OpInsertAt 1 7, OpReverse]"]
    unfolding run_cd_10_7_5 by simp
  ultimately show ?thesis
    by (simp add: run_dl_10_7_5 run_cd_10_7_5)
      (simp add: dl_10_7_5_def cd_10_7_5_def dl_eval cd_eval node_eval)
qed

text \<open>
  Claim C4. Every list reached from the empty list by any sequence of the public operations is
  reached without a panic, and its size is the length of the walk from its head: in the linear
  lists the walk along \<open>next\<close> meets a node at each step before \<open>size\<close> and \<open>nil\<close> at step
  \<open>size\<close>; in the circular lists it is back at the head at step \<open>size\<close> and not before.
\<close>

theorem C4_size_is_traversal_length:
  "(\<exists>l. run_sl ops NewSinglyLinkedList = Some (Ok l) \<and> traversal_sl l) \<and>
   (\<exists>l. run_dl ops NewDoublyLinkedList = Some (Ok l) \<and> traversal_dl l) \<and>
   (\<exists>l. run_cs ops NewCircularSinglyLinkedList = Some (Ok l) \<and> traversal_cs l) \<and>
   (\<exists>l. run_cd ops NewCircularDoublyLinkedList = Some (Ok l) \<and> traversal_cd l)"
proof -
  have "\<exists>l. run_sl ops NewSinglyLinkedList = Some (Ok l) \<and> traversal_sl l"
    using reach_sl[of ops] sl_rep_traversal by blast
  moreover have "\<exists>l. run_dl ops NewDoublyLinkedList = Some (Ok l) \<and> traversal_dl l"
    using reach_dl[of ops] dl_rep_traversal by blast
  moreover have "\<exists>l. run_cs ops NewCircularSinglyLinkedList = Some (Ok l) \<and> traversal_cs l"
    using reach_cs[of ops] cs_rep_traversal by blast
  moreover have "\<exists>l. run_cd ops NewCircularDoublyLinkedList = Some (Ok l) \<and> traversal_cd l"
    using reach_cd[of ops] cd_rep_traversal by blast
  ultimately show ?thesis by simp
qed

theorem C4_size_is_traversal_length_witness:
  "traversal_sl sl_012 \<and> Size_sl sl_012 = 3 \<and>
   map (nth_node_sl sl_012) [0, 1, 2, 3] = [Ok (Some 2), Ok (Some 0), Ok (Some 1), Ok None] \<and>
   traversal_dl dl_012 \<and> Size_dl dl_012 = 3 \<and>
   map (nth_node_dl dl_012) [0, 1, 2, 3] = [Ok (Some 2), Ok (Some 0), Ok (Some 1), Ok None] \<and>
   traversal_cs cs_012 \<and> Size_cs cs_012 = 3 \<and>
   map (nth_node_cs cs_012) [0, 1, 2, 3] = [Ok (Some 2), Ok (Some 0), Ok (Some 1), Ok (Some 2)] \<and>
   traversal_cd cd_012 \<and> Size_cd cd_012 = 3 \<and>
   map (nth_node_cd cd_012) [0, 1, 2, 3] = [Ok (Some 2), Ok (Some 0), Ok (Some 1), Ok (Some 2)]"
proof -
  have "traversal_sl sl_012 \<and> traversal_dl dl_012 \<and> traversal_cs cs_012 \<and> traversal_cd cd_012"
    using C4_size_is_traversal_length[of "[OpAppend (1::int), OpAppend 2, OpPrepend 0]"]
    unfolding run_sl_012 run_dl_012 run_cs_012 run_cd_012 by simp
  then show ?thesis
    by simp (simp add: sl_012_def dl_012_def cs_012_def cd_012_def sl_eval dl_eval cs_eval cd_eval
        node_eval)
qed

section \<open>Append of the circular lists\<close>

lemma Append_cs_spec:
  assumes "cs_rep l as vs"
  shows "\<exists>l'. Append_cs v l = Ok l' \<and> Append_spec_cs v l = Ok l' \<and> values_cs l' = Ok (vs @ [v]) \<and>
           Tail_cs l' = Some (length (cells_cs l)) \<and>
           Value_sn (cells_cs l') (Tail_cs l') = Ok v \<and> 0 < Size_cs l' \<and> ring_closed_cs l'"
proof -
  let ?n = "length (cells_cs l)"
  obtain l1 where p: "Prepend_cs v l = Ok l1" and r1: "cs_rep l1 (?n # as) (v # vs)"
    using Prepend_cs_rep[OF assms, of v] by blast
  obtain l' where a: "Append_cs v l = Ok l'" and r': "cs_rep l' (as @ [?n]) (vs @ [v])"
    using Append_cs_rep[OF assms, of v] by blast
  have t1: "tail_cs l1 \<noteq> None" using cs_rep_tail[OF r1] by simp
  have "Next_sn (cells_cs l1) (Tail_cs l1) = Ok (Some ?n)"
    using cs_rep_Head[OF r1] t1 by (simp add: Head_cs_def Tail_cs_def)
  then have l': "l' = l1\<lparr>tail_cs := Some ?n\<rparr>"
    using a p by (simp add: Append_cs_def)
  then have s: "Append_spec_cs v l = Ok l'" using p by (simp add: Append_spec_cs_def)
  have t: "tail_cs l' = Some ?n" using l' by simp
  have "?n < length (cells_cs l')" using cs_rep_bound[OF r', of ?n] by simp
  moreover have "vls (cells_cs l') ?n = v" using r' by (simp add: cs_rep_def)
  ultimately have val: "Value_sn (cells_cs l') (Tail_cs l') = Ok v"
    using t by (simp add: Tail_cs_def Value_sn_Some)
  have "0 < Size_cs l'" using cs_rep_size[OF r'] by (simp add: Size_cs_def)
  then show ?thesis
    using a s val t values_cs_rep[OF r'] cs_rep_ring_closed[OF r'] by (simp add: Tail_cs_def)
qed

lemma Append_cd_spec:
  assumes "cd_rep l as vs"
  shows "\<exists>l'. Append_cd v l = Ok l' \<and> Append_spec_cd v l = Ok l' \<and> values_cd l' = Ok (vs @ [v]) \<and>
           Tail_cd l' = Some (length (cells_cd l)) \<and>
           Value_dn (cells_cd l') (Tail_cd l') = Ok v \<and> 0 < Size_cd l' \<and> ring_closed_cd l'"
proof -
  let ?n = "length (cells_cd l)"
  obtain l1 where p: "Prepend_cd v l = Ok l1" and r1: "cd_rep l1 (?n # as) (v # vs)"
    using Prepend_cd_rep[OF assms, of v] by blast
  obtain l' where a: "Append_cd v l = Ok l'" and r': "cd_rep l' (as @ [?n]) (vs @ [v])"
    using Append_cd_rep[OF assms, of v] by blast
  have t1: "tail_cd l1 \<noteq> None" using cd_rep_tail[OF r1] by simp
  have "Next_dn (cells_cd l1) (Tail_cd l1) = Ok (Some ?n)"
    using cd_rep_Head[OF r1] t1 by (simp add: Head_cd_def Tail_cd_def)
  then have l': "l' = l1\<lparr>tail_cd := Some ?n\<rparr>"
    using a p by (simp add: Append_cd_def)
  then have s: "Append_spec_cd v l = Ok l'" using p by (simp add: Append_spec_cd_def)
  have t: "tail_cd l' = Some ?n" using l' by simp
  have "?n < length (cells_cd l')" using cd_rep_bound[OF r', of ?n] by simp
  moreover have "vld (cells_cd l') ?n = v" using r' by (simp add: cd_rep_def)
  ultimately have val: "Value_dn (cells_cd l') (Tail_cd l') = Ok v"
    using t by (simp add: Tail_cd_def Value_dn_Some)
  have "0 < Size_cd l'" using cd_rep_size[OF r'] by (simp add: Size_cd_def)
  then show ?thesis
    using a s val t values_cd_rep[OF r'] cd_rep_ring_closed[OF r'] by (simp add: Tail_cd_def)
qed

text \<open>
  Claim C7. On every circular list reached from the empty list, \<open>Append(value)\<close> returns the
  list that \<open>Prepend(value)\<close> followed by moving the tail reference to the newly inserted node
  returns; the sequence of values of that list is the old sequence with \<open>value\<close> appended, its
  tail node holds \<open>value\<close>, its size is positive and its ring is closed.
\<close>

theorem C7_append_is_prepend_then_advance:
  "(\<exists>l vs l'. run_cs ops NewCircularSinglyLinkedList = Some (Ok l) \<and> values_cs l = Ok vs \<and>
      Append_cs v l = Ok l' \<and> Append_spec_cs v l = Ok l' \<and> values_cs l' = Ok (vs @ [v]) \<and>
      Tail_cs l' = Some (length (cells_cs l)) \<and>
      Value_sn (cells_cs l') (Tail_cs l') = Ok v \<and> 0 < Size_cs l' \<and> ring_closed_cs l') \<and>
   (\<exists>l vs l'. run_cd ops NewCircularDoublyLinkedList = Some (Ok l) \<and> values_cd l = Ok vs \<and>
      Append_cd v l = Ok l' \<and> Append_spec_cd v l = Ok l' \<and> values_cd l' = Ok (vs @ [v]) \<and>
      Tail_cd l' = Some (length (cells_cd l)) \<and>
      Value_dn (cells_cd l') (Tail_cd l') = Ok v \<and> 0 < Size_cd l' \<and> ring_closed_cd l')"
proof
  obtain l as vs where "run_cs ops NewCircularSinglyLinkedList = Some (Ok l)" "cs_rep l as vs"
    using reach_cs[of ops] by blast
  then show "\<exists>l vs l'. run_cs ops NewCircularSinglyLinkedList = Some (Ok l) \<and> values_cs l = Ok vs \<and>
      Append_cs v l = Ok l' \<and> Append_spec_cs v l = Ok l' \<and> values_cs l' = Ok (vs @ [v]) \<and>
      Tail_cs l' = Some (length (cells_cs l)) \<and>
      Value_sn (cells_cs l') (Tail_cs l') = Ok v \<and> 0 < Size_cs l' \<and> ring_closed_cs l'"
    using Append_cs_spec[of l as vs v] values_cs_rep[of l as vs] by auto
next
  obtain l as vs where "run_cd ops NewCircularDoublyLinkedList = Some (Ok l)" "cd_rep l as vs"
    using reach_cd[of ops] by blast
  then show "\<exists>l vs l'. run_cd ops NewCircularDoublyLinkedList = Some (Ok l) \<and> values_cd l = Ok vs \<and>
      Append_cd v l = Ok l' \<and> Append_spec_cd v l = Ok l' \<and> values_cd l' = Ok (vs @ [v]) \<and>
      Tail_cd l' = Some (length (cells_cd l)) \<and>
      Value_dn (cells_cd l') (Tail_cd l') = Ok v \<and> 0 < Size_cd l' \<and> ring_closed_cd l'"
    using Append_cd_spec[of l as vs v] values_cd_rep[of l as vs] by auto
qed

theorem C7_append_is_prepend_then_advance_witness:
  "values_cs cs_012 = Ok [0, 1, 2] \<and>
   Append_spec_cs 3 cs_012 = Append_cs 3 cs_012 \<and>
   bind_res (Append_cs 3 cs_012) values_cs = Ok [0, 1, 2, 3] \<and>
   bind_res (Append_cs 3 cs_012) (\<lambda>l'. Value_sn (cells_cs l') (Tail_cs l')) = Ok 3 \<and>
   bind_res (Append_cs 3 cs_012) (\<lambda>l'. Next_sn (cells_cs l') (Tail_cs l')) = Ok (Some 2) \<and>
   bind_res (Append_cs 3 cs_012) Head_cs = Ok (Some 2) \<and>
   bind_res (Append_cs 3 cs_012) (\<lambda>l'. Ok (ring_closed_cs l')) = Ok True \<and>
   values_cd cd_012 = Ok [0, 1, 2] \<and>
   Append_spec_cd 3 cd_012 = Append_cd 3 cd_012 \<and>
   bind_res (Append_cd 3 cd_012) values_cd = Ok [0, 1, 2, 3] \<and>
   bind_res (Append_cd 3 cd_012) (\<lambda>l'. Value_dn (cells_cd l') (Tail_cd l')) = Ok 3 \<and>
   bind_res (Append_cd 3 cd_012) (\<lambda>l'. Next_dn (cells_cd l') (Tail_cd l')) = Ok (Some 2) \<and>
   bind_res (Append_cd 3 cd_012) Head_cd = Ok (Some 2) \<and>
   bind_res (Append_cd 3 cd_012) (\<lambda>l'. Ok (ring_closed_cd l')) = Ok True"
proof -
  note c7 = C7_append_is_prepend_then_advance[of "[OpAppend (1::int), OpAppend 2, OpPrepend 0]" 3]
  obtain vs l' where s: "values_cs cs_012 = Ok vs" "Append_cs 3 cs_012 = Ok l'"
    "Append_spec_cs 3 cs_012 = Ok l'" "values_cs l' = Ok (vs @ [3])"
    "Value_sn (cells_cs l') (Tail_cs l') = Ok 3" "ring_closed_cs l'"
    using c7 unfolding run_cs_012 by auto
  obtain ws m' where d: "values_cd cd_012 = Ok ws" "Append_cd 3 cd_012 = Ok m'"
    "Append_spec_cd 3 cd_012 = Ok m'" "values_cd m' = Ok (ws @ [3])"
    "Value_dn (cells_cd m') (Tail_cd m') = Ok 3" "ring_closed_cd m'"
    using c7 unfolding run_cs_012 run_cd_012 by auto
  have vs: "vs = [0, 1, 2]" using s(1) by (simp add: values_cs_012)
  have ws: "ws = [0, 1, 2]" using d(1) by (simp add: values_cd_012)
  have hs: "bind_res (Append_cs 3 cs_012) (\<lambda>l'. Next_sn (cells_cs l') (Tail_cs l')) = Ok (Some 2) \<and>
            bind_res (Append_cs 3 cs_012) Head_cs = Ok (Some 2)"
    by (simp add: cs_012_def cs_eval node_eval)
  have hd: "bind_res (Append_cd 3 cd_012) (\<lambda>l'. Next_dn (cells_cd l') (Tail_cd l')) = Ok (Some 2) \<and>
            bind_res (Append_cd 3 cd_012) Head_cd = Ok (Some 2)"
    by (simp add: cd_012_def cd_eval node_eval)
  have "values_cs cs_012 = Ok [0, 1, 2] \<and>
     Append_spec_cs 3 cs_012 = Append_cs 3 cs_012 \<and>
     bind_res (Append_cs 3 cs_012) values_cs = Ok [0, 1, 2, 3] \<and>
     bind_res (Append_cs 3 cs_012) (\<lambda>l'. Value_sn (cells_cs l') (Tail_cs l')) = Ok 3 \<and>
     bind_res (Append_cs 3 cs_012) (\<lambda>l'. Ok (ring_closed_cs l')) = Ok True"
    using s(4-6) unfolding s(2) s(3) vs by (simp add: values_cs_012)
  moreover have "values_cd cd_012 = Ok [0, 1, 2] \<and>
     Append_spec_cd 3 cd_012 = Append_cd 3 cd_012 \<and>
     bind_res (Append_cd 3 cd_012) values_cd = Ok [0, 1, 2, 3] \<and>
     bind_res (Append_cd 3 cd_012) (\<lambda>l'. Value_dn (cells_cd l') (Tail_cd l')) = Ok 3 \<and>
     bind_res (Append_cd 3 cd_012) (\<lambda>l'. Ok (ring_closed_cd l')) = Ok True"
    using d(4-6) unfolding d(2) d(3) ws by (simp add: values_cd_012)
  ultimately show ?thesis using hs hd by simp
qed

section \<open>The operations that take an index\<close>

lemma sl_rep_index_contract:
  assumes "sl_rep l as vs"
  shows "index_contract (Get_result (Get_sl i l)) l (i < 0 \<or> Size_sl l \<le> i) \<and>
         index_contract (Set_sl i v l) l (i < 0 \<or> Size_sl l \<le> i) \<and>
         index_contract (InsertAt_sl i v l) l (i < 0 \<or> Size_sl l < i)"
proof -
  have n: "Size_sl l = int (length vs)"
    using sl_rep_size[OF assms] sl_rep_length[OF assms] by (simp add: Size_sl_def)
  have "index_contract (Get_result (Get_sl i l)) l (i < 0 \<or> Size_sl l \<le> i)"
    unfolding n Get_sl_rep[OF assms] by (simp add: index_contract_def Get_result_def)
  moreover have "index_contract (Set_sl i v l) l (i < 0 \<or> Size_sl l \<le> i)"
    using Set_sl_rep[OF assms, of i v] unfolding n
    by (auto simp: index_contract_def split: if_splits)
  moreover have "index_contract (InsertAt_sl i v l) l (i < 0 \<or> Size_sl l < i)"
    using InsertAt_sl_rep[OF assms, of i v] unfolding n
    by (auto simp: index_contract_def split: if_splits)
  ultimately show ?thesis by simp
qed

lemma cs_rep_index_contract:
  assumes "cs_rep l as vs"
  shows "index_contract (Get_result (Get_cs i l)) l (i < 0 \<or> Size_cs l \<le> i) \<and>
         index_contract (Set_cs i v l) l (i < 0 \<or> Size_cs l \<le> i) \<and>
         index_contract (InsertAt_cs i v l) l (i < 0 \<or> Size_cs l < i)"
proof -
  have n: "Size_cs l = int (length vs)"
    using cs_rep_size[OF assms] cs_rep_length[OF assms] by (simp add: Size_cs_def)
  have "index_contract (Get_result (Get_cs i l)) l (i < 0 \<or> Size_cs l \<le> i)"
    unfolding n Get_cs_rep[OF assms] by (simp add: index_contract_def Get_result_def)
  moreover have "index_contract (Set_cs i v l) l (i < 0 \<or> Size_cs l \<le> i)"
    using Set_cs_rep[OF assms, of i v] unfolding n
    by (auto simp: index_contract_def split: if_splits)
  moreover have "index_contract (InsertAt_cs i v l) l (i < 0 \<or> Size_cs l < i)"
    using InsertAt_cs_rep[OF assms, of i v] unfolding n
    by (auto simp: index_contract_def split: if_splits)
  ultimately show ?thesis by simp
qed

lemma dl_rep_index_contract:
  assumes "dl_rep l as vs"
  shows "index_contract (Get_result (Get_dl i l)) l (i < 0 \<or> Size_dl l \<le> i) \<and>
         index_contract (Set_dl i v l) l (i < 0 \<or> Size_dl l \<le> i) \<and>
         index_contract (InsertAt_dl i v l) l (i < 0 \<or> Size_dl l < i)"
proof -
  have n: "Size_dl l = int (length vs)"
    using dl_rep_size[OF assms] dl_rep_length[OF assms] by (simp add: Size_dl_def)
  have "index_contract (Get_result (Get_dl i l)) l (i < 0 \<or> Size_dl l \<le> i)"
    unfolding n Get_dl_rep[OF assms] by (simp add: index_contract_def Get_result_def)
  moreover have "index_contract (Set_dl i v l) l (i < 0 \<or> Size_dl l \<le> i)"
    using Set_dl_rep[OF assms, of i v] unfolding n
    by (auto simp: index_contract_def split: if_splits)
  moreover have "index_contract (InsertAt_dl i v l) l (i < 0 \<or> Size_dl l < i)"
    using InsertAt_dl_rep[OF assms, of i v] unfolding n
    by (auto simp: index_contract_def split: if_splits)
  ultimately show ?thesis by simp
qed

lemma cd_rep_index_contract:
  assumes "cd_rep l as vs"
  shows "index_contract (Get_result (Get_cd i l)) l (i < 0 \<or> Size_cd l \<le> i) \<and>
         index_contract (Set_cd i v l) l (i < 0 \<or> Size_cd l \<le> i) \<and>
         index_contract (InsertAt_cd i v l) l (i < 0 \<or> Size_cd l < i)"
proof -
  have n: "Size_cd l = int (length vs)"
    using cd_rep_size[OF assms] cd_rep_length[OF assms] by (simp add: Size_cd_def)
  have "index_contract (Get_result (Get_cd i l)) l (i < 0 \<or> Size_cd l \<le> i)"
    unfolding n Get_cd_rep[OF assms] by (simp add: index_contract_def Get_result_def)
  moreover have "index_contract (Set_cd i v l) l (i < 0 \<or> Size_cd l \<le> i)"
    using Set_cd_rep[OF assms, of i v] unfolding n
    by (auto simp: index_contract_def split: if_splits)
  moreover have "index_contract (InsertAt_cd i v l) l (i < 0 \<or> Size_cd l < i)"
    using InsertAt_cd_rep[OF assms, of i v] unfolding n
    by (auto simp: index_contract_def split: if_splits)
  ultimately show ?thesis by simp
qed

text \<open>
  Claim C3. On every list reached from the empty list, in each of the four variants,
  \<open>Get(index)\<close> and \<open>Set(index, value)\<close> return an error exactly when \<open>index < 0\<close> or
  \<open>index \<ge> size\<close>, \<open>InsertAt(index, value)\<close> returns an error exactly when \<open>index < 0\<close> or
  \<open>index > size\<close>, none of them panics, and a call that returns an error leaves the list as it
  was.
\<close>

theorem C3_index_out_of_bounds:
  "(\<exists>l. run_sl ops NewSinglyLinkedList = Some (Ok l) \<and>
      index_contract (Get_result (Get_sl i l)) l (i < 0 \<or> Size_sl l \<le> i) \<and>
      index_contract (Set_sl i v l) l (i < 0 \<or> Size_sl l \<le> i) \<and>
      index_contract (InsertAt_sl i v l) l (i < 0 \<or> Size_sl l < i)) \<and>
   (\<exists>l. run_cs ops NewCircularSinglyLinkedList = Some (Ok l) \<and>
      index_contract (Get_result (Get_cs i l)) l (i < 0 \<or> Size_cs l \<le> i) \<and>
      index_contract (Set_cs i v l) l (i < 0 \<or> Size_cs l \<le> i) \<and>
      index_contract (InsertAt_cs i v l) l (i < 0 \<or> Size_cs l < i)) \<and>
   (\<exists>l. run_dl ops NewDoublyLinkedList = Some (Ok l) \<and>
      index_contract (Get_result (Get_dl i l)) l (i < 0 \<or> Size_dl l \<le> i) \<and>
      index_contract (Set_dl i v l) l (i < 0 \<or> Size_dl l \<le> i) \<and>
      index_contract (InsertAt_dl i v l) l (i < 0 \<or> Size_dl l < i)) \<and>
   (\<exists>l. run_cd ops NewCircularDoublyLinkedList = Some (Ok l) \<and>
      index_contract (Get_result (Get_cd i l)) l (i < 0 \<or> Size_cd l \<le> i) \<and>
      index_contract (Set_cd i v l) l (i < 0 \<or> Size_cd l \<le> i) \<and>
      index_contract (InsertAt_cd i v l) l (i < 0 \<or> Size_cd l < i))"
proof -

  have "(\<exists>l. run_sl ops NewSinglyLinkedList = Some (Ok l) \<and>
      index_contract (Get_result (Get_sl i l)) l (i < 0 \<or> Size_sl l \<le> i) \<and>
      index_contract (Set_sl i v l) l (i < 0 \<or> Size_sl l \<le> i) \<and>
      index_contract (InsertAt_sl i v l) l (i < 0 \<or> Size_sl l < i))"
    using reach_sl[of ops] sl_rep_index_contract[of _ _ _ i v] by blast

  moreover have "(\<exists>l. run_cs ops NewCircularSinglyLinkedList = Some (Ok l) \<and>
      index_contract (Get_result (Get_cs i l)) l (i < 0 \<or> Size_cs l \<le> i) \<and>
      index_contract (Set_cs i v l) l (i < 0 \<or> Size_cs l \<le> i) \<and>
      index_contract (InsertAt_cs i v l) l (i < 0 \<or> Size_cs l < i))"
    using reach_cs[of ops] cs_rep_index_contract[of _ _ _ i v] by blast

  moreover have "(\<exists>l. run_dl ops NewDoublyLinkedList = Some (Ok l) \<and>
      index_contract (Get_result (Get_dl i l)) l (i < 0 \<or> Size_dl l \<le> i) \<and>
      index_contract (Set_dl i v l) l (i < 0 \<or> Size_dl l \<le> i) \<and>
      index_contract (InsertAt_dl i v l) l (i < 0 \<or> Size_dl l < i))"
    using reach_dl[of ops] dl_rep_index_contract[of _ _ _ i v] by blast

  moreover have "(\<exists>l. run_cd ops NewCircularDoublyLinkedList = Some (Ok l) \<and>
      index_contract (Get_result (Get_cd i l)) l (i < 0 \<or> Size_cd l \<le> i) \<and>
      index_contract (Set_cd i v l) l (i < 0 \<or> Size_cd l \<le> i) \<and>
      index_contract (InsertAt_cd i v l) l (i < 0 \<or> Size_cd l < i))"
    using reach_cd[of ops] cd_rep_index_contract[of _ _ _ i v] by blast

  ultimately show ?thesis by simp
qed

theorem C3_index_out_of_bounds_witness:
  "Size_sl sl_012 = 3 \<and>
   index_contract (Get_result (Get_sl 3 sl_012)) sl_012 True \<and>
   index_contract (Set_sl 3 9 sl_012) sl_012 True \<and>
   index_contract (InsertAt_sl 3 9 sl_012) sl_012 False \<and>
   index_contract (Get_result (Get_sl (- 1) sl_012)) sl_012 True \<and>
   index_contract (Set_sl (- 1) 9 sl_012) sl_012 True \<and>
   index_contract (InsertAt_sl (- 1) 9 sl_012) sl_012 True \<and>
   Get_sl 3 sl_012 = Ok ((None, Some (OutOfBounds 3)), sl_012) \<and>
   Set_sl 3 9 sl_012 = Ok (Some (OutOfBounds 3), sl_012) \<and>
   InsertAt_sl 4 9 sl_012 = Ok (Some (OutOfBounds 4), sl_012) \<and>
   Get_sl 2 sl_012 = Ok ((Some 1, None), sl_012) \<and>
   Size_cs cs_012 = 3 \<and>
   index_contract (Get_result (Get_cs 3 cs_012)) cs_012 True \<and>
   index_contract (Set_cs 3 9 cs_012) cs_012 True \<and>
   index_contract (InsertAt_cs 3 9 cs_012) cs_012 False \<and>
   index_contract (Get_result (Get_cs (- 1) cs_012)) cs_012 True \<and>
   index_contract (Set_cs (- 1) 9 cs_012) cs_012 True \<and>
   index_contract (InsertAt_cs (- 1) 9 cs_012) cs_012 True \<and>
   Get_cs 3 cs_012 = Ok ((None, Some (OutOfBounds 3)), cs_012) \<and>
   Set_cs 3 9 cs_012 = Ok (Some (OutOfBounds 3), cs_012) \<and>
   InsertAt_cs 4 9 cs_012 = Ok (Some (OutOfBounds 4), cs_012) \<and>
   Get_cs 2 cs_012 = Ok ((Some 1, None), cs_012) \<and>
   Size_dl dl_012 = 3 \<and>
   index_contract (Get_result (Get_dl 3 dl_012)) dl_012 True \<and>
   index_contract (Set_dl 3 9 dl_012) dl_012 True \<and>
   index_contract (InsertAt_dl 3 9 dl_012) dl_012 False \<and>
   index_contract (Get_result (Get_dl (- 1) dl_012)) dl_012 True \<and>
   index_contract (Set_dl (- 1) 9 dl_012) dl_012 True \<and>
   index_contract (InsertAt_dl (- 1) 9 dl_012) dl_012 True \<and>
   Get_dl 3 dl_012 = Ok ((None, Some (OutOfBounds 3)), dl_012) \<and>
   Set_dl 3 9 dl_012 = Ok (Some (OutOfBounds 3), dl_012) \<and>
   InsertAt_dl 4 9 dl_012 = Ok (Some (OutOfBounds 4), dl_012) \<and>
   Get_dl 2 dl_012 = Ok ((Some 1, None), dl_012) \<and>
   Size_cd cd_012 = 3 \<and>
   index_contract (Get_result (Get_cd 3 cd_012)) cd_012 True \<and>
   index_contract (Set_cd 3 9 cd_012) cd_012 True \<and>
   index_contract (InsertAt_cd 3 9 cd_012) cd_012 False \<and>
   index_contract (Get_result (Get_cd (- 1) cd_012)) cd_012 True \<and>
   index_contract (Set_cd (- 1) 9 cd_012) cd_012 True \<and>
   index_contract (InsertAt_cd (- 1) 9 cd_012) cd_012 True \<and>
   Get_cd 3 cd_012 = Ok ((None, Some (OutOfBounds 3)), cd_012) \<and>
   Set_cd 3 9 cd_012 = Ok (Some (OutOfBounds 3), cd_012) \<and>
   InsertAt_cd 4 9 cd_012 = Ok (Some (OutOfBounds 4), cd_012) \<and>
   Get_cd 2 cd_012 = Ok ((Some 1, None), cd_012)"
proof -

  note a = C3_index_out_of_bounds[of "[OpAppend (1::int), OpAppend 2, OpPrepend 0]" 3 9,
      unfolded run_sl_012 run_cs_012 run_dl_012 run_cd_012]
  note b = C3_index_out_of_bounds[of "[OpAppend (1::int), OpAppend 2, OpPrepend 0]" "- 1" 9,
      unfolded run_sl_012 run_cs_012 run_dl_012 run_cd_012]

  have s_sl: "Size_sl sl_012 = 3" by (simp add: sl_012_def Size_sl_def)
  have e_sl: "Get_sl 3 sl_012 = Ok ((None, Some (OutOfBounds 3)), sl_012) \<and>
     Set_sl 3 9 sl_012 = Ok (Some (OutOfBounds 3), sl_012) \<and>
     InsertAt_sl 4 9 sl_012 = Ok (Some (OutOfBounds 4), sl_012) \<and>
     Get_sl 2 sl_012 = Ok ((Some 1, None), sl_012)"
    by (simp add: sl_eval node_eval) (simp add: sl_012_def sl_eval node_eval)

  have s_cs: "Size_cs cs_012 = 3" by (simp add: cs_012_def Size_cs_def)
  have e_cs: "Get_cs 3 cs_012 = Ok ((None, Some (OutOfBounds 3)), cs_012) \<and>
     Set_cs 3 9 cs_012 = Ok (Some (OutOfBounds 3), cs_012) \<and>
     InsertAt_cs 4 9 cs_012 = Ok (Some (OutOfBounds 4), cs_012) \<and>
     Get_cs 2 cs_012 = Ok ((Some 1, None), cs_012)"
    by (simp add: cs_eval node_eval) (simp add: cs_012_def cs_eval node_eval)

  have s_dl: "Size_dl dl_012 = 3" by (simp add: dl_012_def Size_dl_def)
  have e_dl: "Get_dl 3 dl_012 = Ok ((None, Some (OutOfBounds 3)), dl_012) \<and>
     Set_dl 3 9 dl_012 = Ok (Some (OutOfBounds 3), dl_012) \<and>
     InsertAt_dl 4 9 dl_012 = Ok (Some (OutOfBounds 4), dl_012) \<and>
     Get_dl 2 dl_012 = Ok ((Some 1, None), dl_012)"
    by (simp add: dl_eval node_eval) (simp add: dl_012_def dl_eval node_eval)

  have s_cd: "Size_cd cd_012 = 3" by (simp add: cd_012_def Size_cd_def)
  have e_cd: "Get_cd 3 cd_012 = Ok ((None, Some (OutOfBounds 3)), cd_012) \<and>
     Set_cd 3 9 cd_012 = Ok (Some (OutOfBounds 3), cd_012) \<and>
     InsertAt_cd 4 9 cd_012 = Ok (Some (OutOfBounds 4), cd_012) \<and>
     Get_cd 2 cd_012 = Ok ((Some 1, None), cd_012)"
    by (simp add: cd_eval node_eval) (simp add: cd_012_def cd_eval node_eval)

  show ?thesis using a b by (simp add: s_sl s_cs s_dl s_cd e_sl e_cs e_dl e_cd)
qed

section \<open>Reverse applied twice\<close>

lemma Reverse_twice_sl:
  assumes "sl_rep l as vs"
  shows "\<exists>l1 l2. values_sl l = Some (Ok vs) \<and>
      Reverse_sl l = Some (Ok l1) \<and> values_sl l1 = Some (Ok (rev vs)) \<and>
      Reverse_sl l1 = Some (Ok l2) \<and> values_sl l2 = Some (Ok vs) \<and>
      Size_sl l2 = Size_sl l \<and> Head_sl l2 = Head_sl l \<and> Tail_sl l2 = Tail_sl l"
proof -
  obtain l1 where 1: "Reverse_sl l = Some (Ok l1)" "sl_rep l1 (rev as) (rev vs)"
    using Reverse_sl_rep[OF assms] by blast
  obtain l2 where 2: "Reverse_sl l1 = Some (Ok l2)" "sl_rep l2 as vs"
    using Reverse_sl_rep[OF 1(2)] by auto
  have "Size_sl l2 = Size_sl l \<and> Head_sl l2 = Head_sl l \<and> Tail_sl l2 = Tail_sl l"
    using sl_rep_size[OF assms] sl_rep_size[OF 2(2)] sl_rep_head[OF assms] sl_rep_head[OF 2(2)]
      sl_rep_tail[OF assms] sl_rep_tail[OF 2(2)]
    by (simp add: Size_sl_def Head_sl_def Tail_sl_def)
  then show ?thesis
    using 1 2 values_sl_rep[OF assms] values_sl_rep[OF 1(2)] values_sl_rep[OF 2(2)] by simp
qed

lemma Reverse_twice_cs:
  assumes "cs_rep l as vs"
  shows "\<exists>l1 l2. values_cs l = Ok vs \<and>
      Reverse_cs l = Ok l1 \<and> values_cs l1 = Ok (rev vs) \<and>
      Reverse_cs l1 = Ok l2 \<and> values_cs l2 = Ok vs \<and>
      Size_cs l2 = Size_cs l \<and> Head_cs l2 = Head_cs l \<and> Tail_cs l2 = Tail_cs l"
proof -
  obtain l1 where 1: "Reverse_cs l = Ok l1" "cs_rep l1 (rev as) (rev vs)"
    using Reverse_cs_rep[OF assms] by blast
  obtain l2 where 2: "Reverse_cs l1 = Ok l2" "cs_rep l2 as vs"
    using Reverse_cs_rep[OF 1(2)] by auto
  have "Size_cs l2 = Size_cs l \<and> Head_cs l2 = Head_cs l \<and> Tail_cs l2 = Tail_cs l"
    using cs_rep_size[OF assms] cs_rep_size[OF 2(2)] cs_rep_Head[OF assms] cs_rep_Head[OF 2(2)]
      cs_rep_tail[OF assms] cs_rep_tail[OF 2(2)]
    by (simp add: Size_cs_def Tail_cs_def)
  then show ?thesis
    using 1 2 values_cs_rep[OF assms] values_cs_rep[OF 1(2)] values_cs_rep[OF 2(2)] by simp
qed

lemma Reverse_twice_dl:
  assumes "dl_rep l as vs"
  shows "\<exists>l1 l2. values_dl l = Some (Ok vs) \<and>
      Reverse_dl l = Some (Ok l1) \<and> values_dl l1 = Some (Ok (rev vs)) \<and>
      Reverse_dl l1 = Some (Ok l2) \<and> values_dl l2 = Some (Ok vs) \<and>
      Size_dl l2 = Size_dl l \<and> Head_dl l2 = Head_dl l \<and> Tail_dl l2 = Tail_dl l"
proof -
  obtain l1 where 1: "Reverse_dl l = Some (Ok l1)" "dl_rep l1 (rev as) (rev vs)"
    using Reverse_dl_rep[OF assms] by blast
  obtain l2 where 2: "Reverse_dl l1 = Some (Ok l2)" "dl_rep l2 as vs"
    using Reverse_dl_rep[OF 1(2)] by auto
  have "Size_dl l2 = Size_dl l \<and> Head_dl l2 = Head_dl l \<and> Tail_dl l2 = Tail_dl l"
    using dl_rep_size[OF assms] dl_rep_size[OF 2(2)] dl_rep_head[OF assms] dl_rep_head[OF 2(2)]
      dl_rep_tail[OF assms] dl_rep_tail[OF 2(2)]
    by (simp add: Size_dl_def Head_dl_def Tail_dl_def)
  then show ?thesis
    using 1 2 values_dl_rep[OF assms] values_dl_rep[OF 1(2)] values_dl_rep[OF 2(2)] by simp
qed

lemma Reverse_twice_cd:
  assumes "cd_rep l as vs"
  shows "\<exists>l1 l2. values_cd l = Ok vs \<and>
      Reverse_cd l = Ok l1 \<and> values_cd l1 = Ok (rev vs) \<and>
      Reverse_cd l1 = Ok l2 \<and> values_cd l2 = Ok vs \<and>
      Size_cd l2 = Size_cd l \<and> Head_cd l2 = Head_cd l \<and> Tail_cd l2 = Tail_cd l"
proof -
  obtain l1 where 1: "Reverse_cd l = Ok l1" "cd_rep l1 (rev as) (rev vs)"
    using Reverse_cd_rep[OF assms] by blast
  obtain l2 where 2: "Reverse_cd l1 = Ok l2" "cd_rep l2 as vs"
    using Reverse_cd_rep[OF 1(2)] by auto
  have "Size_cd l2 = Size_cd l \<and> Head_cd l2 = Head_cd l \<and> Tail_cd l2 = Tail_cd l"
    using cd_rep_size[OF assms] cd_rep_size[OF 2(2)] cd_rep_Head[OF assms] cd_rep_Head[OF 2(2)]
      cd_rep_tail[OF assms] cd_rep_tail[OF 2(2)]
    by (simp add: Size_cd_def Tail_cd_def)
  then show ?thesis
    using 1 2 values_cd_rep[OF assms] values_cd_rep[OF 1(2)] values_cd_rep[OF 2(2)] by simp
qed

text \<open>
  Claim C5. On every list reached from the empty list, in each of the four variants, \<open>Reverse\<close>
  returns without a panic a list whose head-to-tail sequence of values is the reversed
  sequence, and \<open>Reverse\<close> applied to that list returns a list with the original sequence,
  the original size and the original head and tail nodes.
\<close>

theorem C5_reverse_twice:
  "(\<exists>l vs l1 l2. run_sl ops NewSinglyLinkedList = Some (Ok l) \<and> values_sl l = Some (Ok vs) \<and>
      Reverse_sl l = Some (Ok l1) \<and> values_sl l1 = Some (Ok (rev vs)) \<and>
      Reverse_sl l1 = Some (Ok l2) \<and> values_sl l2 = Some (Ok vs) \<and>
      Size_sl l2 = Size_sl l \<and> Head_sl l2 = Head_sl l \<and> Tail_sl l2 = Tail_sl l) \<and>
   (\<exists>l vs l1 l2. run_cs ops NewCircularSinglyLinkedList = Some (Ok l) \<and> values_cs l = Ok vs \<and>
      Reverse_cs l = Ok l1 \<and> values_cs l1 = Ok (rev vs) \<and>
      Reverse_cs l1 = Ok l2 \<and> values_cs l2 = Ok vs \<and>
      Size_cs l2 = Size_cs l \<and> Head_cs l2 = Head_cs l \<and> Tail_cs l2 = Tail_cs l) \<and>
   (\<exists>l vs l1 l2. run_dl ops NewDoublyLinkedList = Some (Ok l) \<and> values_dl l = Some (Ok vs) \<and>
      Reverse_dl l = Some (Ok l1) \<and> values_dl l1 = Some (Ok (rev vs)) \<and>
      Reverse_dl l1 = Some (Ok l2) \<and> values_dl l2 = Some (Ok vs) \<and>
      Size_dl l2 = Size_dl l \<and> Head_dl l2 = Head_dl l \<and> Tail_dl l2 = Tail_dl l) \<and>
   (\<exists>l vs l1 l2. run_cd ops NewCircularDoublyLinkedList = Some (Ok l) \<and> values_cd l = Ok vs \<and>
      Reverse_cd l = Ok l1 \<and> values_cd l1 = Ok (rev vs) \<and>
      Reverse_cd l1 = Ok l2 \<and> values_cd l2 = Ok vs \<and>
      Size_cd l2 = Size_cd l \<and> Head_cd l2 = Head_cd l \<and> Tail_cd l2 = Tail_cd l)"
proof -

  have "(\<exists>l vs l1 l2. run_sl ops NewSinglyLinkedList = Some (Ok l) \<and> values_sl l = Some (Ok vs) \<and>
      Reverse_sl l = Some (Ok l1) \<and> values_sl l1 = Some (Ok (rev vs)) \<and>
      Reverse_sl l1 = Some (Ok l2) \<and> values_sl l2 = Some (Ok vs) \<and>
      Size_sl l2 = Size_sl l \<and> Head_sl l2 = Head_sl l \<and> Tail_sl l2 = Tail_sl l)"
    using reach_sl[of ops] Reverse_twice_sl by blast

  moreover have "(\<exists>l vs l1 l2. run_cs ops NewCircularSinglyLinkedList = Some (Ok l) \<and> values_cs l = Ok vs \<and>
      Reverse_cs l = Ok l1 \<and> values_cs l1 = Ok (rev vs) \<and>
      Reverse_cs l1 = Ok l2 \<and> values_cs l2 = Ok vs \<and>
      Size_cs l2 = Size_cs l \<and> Head_cs l2 = Head_cs l \<and> Tail_cs l2 = Tail_cs l)"
    using reach_cs[of ops] Reverse_twice_cs by blast

  moreover have "(\<exists>l vs l1 l2. run_dl ops NewDoublyLinkedList = Some (Ok l) \<and> values_dl l = Some (Ok vs) \<and>
      Reverse_dl l = Some (Ok l1) \<and> values_dl l1 = Some (Ok (rev vs)) \<and>
      Reverse_dl l1 = Some (Ok l2) \<and> values_dl l2 = Some (Ok vs) \<and>
      Size_dl l2 = Size_dl l \<and> Head_dl l2 = Head_dl l \<and> Tail_dl l2 = Tail_dl l)"
    using reach_dl[of ops] Reverse_twice_dl by blast

  moreover have "(\<exists>l vs l1 l2. run_cd ops NewCircularDoublyLinkedList = Some (Ok l) \<and> values_cd l = Ok vs \<and>
      Reverse_cd l = Ok l1 \<and> values_cd l1 = Ok (rev vs) \<and>
      Reverse_cd l1 = Ok l2 \<and> values_cd l2 = Ok vs \<and>
      Size_cd l2 = Size_cd l \<and> Head_cd l2 = Head_cd l \<and> Tail_cd l2 = Tail_cd l)"
    using reach_cd[of ops] Reverse_twice_cd by blast

  ultimately show ?thesis by simp
qed

theorem C5_reverse_twice_witness:
  "values_sl sl_012 = Some (Ok [0, 1, 2]) \<and>
   bind_out (Reverse_sl sl_012) values_sl = Some (Ok [2, 1, 0]) \<and>
   bind_out (Reverse_sl sl_012) (\<lambda>l1. bind_out (Reverse_sl l1) values_sl) = Some (Ok [0, 1, 2]) \<and>
   bind_out (Reverse_sl sl_012) Reverse_sl = Some (Ok sl_012) \<and>
   values_cs cs_012 = Ok [0, 1, 2] \<and>
   bind_res (Reverse_cs cs_012) values_cs = Ok [2, 1, 0] \<and>
   bind_res (Reverse_cs cs_012) (\<lambda>l1. bind_res (Reverse_cs l1) values_cs) = Ok [0, 1, 2] \<and>
   bind_res (Reverse_cs cs_012) Reverse_cs = Ok cs_012 \<and>
   values_dl dl_012 = Some (Ok [0, 1, 2]) \<and>
   bind_out (Reverse_dl dl_012) values_dl = Some (Ok [2, 1, 0]) \<and>
   bind_out (Reverse_dl dl_012) (\<lambda>l1. bind_out (Reverse_dl l1) values_dl) = Some (Ok [0, 1, 2]) \<and>
   bind_out (Reverse_dl dl_012) Reverse_dl = Some (Ok dl_012) \<and>
   values_cd cd_012 = Ok [0, 1, 2] \<and>
   bind_res (Reverse_cd cd_012) values_cd = Ok [2, 1, 0] \<and>
   bind_res (Reverse_cd cd_012) (\<lambda>l1. bind_res (Reverse_cd l1) values_cd) = Ok [0, 1, 2] \<and>
   bind_res (Reverse_cd cd_012) Reverse_cd = Ok cd_012"
proof -

  note c5 = C5_reverse_twice[of "[OpAppend (1::int), OpAppend 2, OpPrepend 0]",
      unfolded run_sl_012 run_cs_012 run_dl_012 run_cd_012]

  obtain vs_sl a_sl b_sl where r_sl: "values_sl sl_012 = Some (Ok vs_sl)"
    "Reverse_sl sl_012 = Some (Ok a_sl)" "values_sl a_sl = Some (Ok (rev vs_sl))"
    "Reverse_sl a_sl = Some (Ok b_sl)" "values_sl b_sl = Some (Ok vs_sl)"
    using c5 by auto
  have v_sl: "vs_sl = [0, 1, 2]" using r_sl(1) by (simp add: values_sl_012)
  have i_sl: "bind_out (Reverse_sl sl_012) Reverse_sl = Some (Ok sl_012)"
    by (simp add: sl_012_def sl_eval node_eval)
  have w_sl: "values_sl sl_012 = Some (Ok [0, 1, 2]) \<and>
     bind_out (Reverse_sl sl_012) values_sl = Some (Ok [2, 1, 0]) \<and>
     bind_out (Reverse_sl sl_012) (\<lambda>l1. bind_out (Reverse_sl l1) values_sl) = Some (Ok [0, 1, 2])"
    using r_sl(3-5) unfolding r_sl(2) v_sl by (simp add: values_sl_012)

  obtain vs_cs a_cs b_cs where r_cs: "values_cs cs_012 = Ok vs_cs"
    "Reverse_cs cs_012 = Ok a_cs" "values_cs a_cs = Ok (rev vs_cs)"
    "Reverse_cs a_cs = Ok b_cs" "values_cs b_cs = Ok vs_cs"
    using c5 by auto
  have v_cs: "vs_cs = [0, 1, 2]" using r_cs(1) by (simp add: values_cs_012)
  have i_cs: "bind_res (Reverse_cs cs_012) Reverse_cs = Ok cs_012"
    by (simp add: cs_012_def cs_eval node_eval)
  have w_cs: "values_cs cs_012 = Ok [0, 1, 2] \<and>
     bind_res (Reverse_cs cs_012) values_cs = Ok [2, 1, 0] \<and>
     bind_res (Reverse_cs cs_012) (\<lambda>l1. bind_res (Reverse_cs l1) values_cs) = Ok [0, 1, 2]"
    using r_cs(3-5) unfolding r_cs(2) v_cs by (simp add: values_cs_012)

  obtain vs_dl a_dl b_dl where r_dl: "values_dl dl_012 = Some (Ok vs_dl)"
    "Reverse_dl dl_012 = Some (Ok a_dl)" "values_dl a_dl = Some (Ok (rev vs_dl))"
    "Reverse_dl a_dl = Some (Ok b_dl)" "values_dl b_dl = Some (Ok vs_dl)"
    using c5 by auto
  have v_dl: "vs_dl = [0, 1, 2]" using r_dl(1) by (simp add: values_dl_012)
  have i_dl: "bind_out (Reverse_dl dl_012) Reverse_dl = Some (Ok dl_012)"
    by (simp add: dl_012_def dl_eval node_eval)
  have w_dl: "values_dl dl_012 = Some (Ok [0, 1, 2]) \<and>
     bind_out (Reverse_dl dl_012) values_dl = Some (Ok [2, 1, 0]) \<and>
     bind_out (Reverse_dl dl_012) (\<lambda>l1. bind_out (Reverse_dl l1) values_dl) = Some (Ok [0, 1, 2])"
    using r_dl(3-5) unfolding r_dl(2) v_dl by (simp add: values_dl_012)

  obtain vs_cd a_cd b_cd where r_cd: "values_cd cd_012 = Ok vs_cd"
    "Reverse_cd cd_012 = Ok a_cd" "values_cd a_cd = Ok (rev vs_cd)"
    "Reverse_cd a_cd = Ok b_cd" "values_cd b_cd = Ok vs_cd"
    using c5 by auto
  have v_cd: "vs_cd = [0, 1, 2]" using r_cd(1) by (simp add: values_cd_012)
  have i_cd: "bind_res (Reverse_cd cd_012) Reverse_cd = Ok cd_012"
    by (simp add: cd_012_def cd_eval node_eval)
  have w_cd: "values_cd cd_012 = Ok [0, 1, 2] \<and>
     bind_res (Reverse_cd cd_012) values_cd = Ok [2, 1, 0] \<and>
     bind_res (Reverse_cd cd_012) (\<lambda>l1. bind_res (Reverse_cd l1) values_cd) = Ok [0, 1, 2]"
    using r_cd(3-5) unfolding r_cd(2) v_cd by (simp add: values_cd_012)

  show ?thesis using w_sl w_cs w_dl w_cd i_sl i_cs i_dl i_cd by simp
qed

section \<open>The display of a list\<close>

lemma run_sl_abc:
  "run_sl [OpAppend ''b'', OpAppend ''c'', OpPrepend ''a''] NewSinglyLinkedList = Some (Ok sl_abc)"
  by (simp add: sl_eval node_eval sl_abc_def)

lemma values_sl_abc: "values_sl sl_abc = Some (Ok [''a'', ''b'', ''c''])"
  by (simp add: sl_eval node_eval sl_abc_def)

lemma values_sl_New: "values_sl NewSinglyLinkedList = Some (Ok [])"
  by (simp add: sl_eval node_eval)

lemma run_cs_abc:
  "run_cs [OpAppend ''b'', OpAppend ''c'', OpPrepend ''a''] NewCircularSinglyLinkedList = Some (Ok cs_abc)"
  by (simp add: cs_eval node_eval cs_abc_def)

lemma values_cs_abc: "values_cs cs_abc = Ok [''a'', ''b'', ''c'']"
  by (simp add: cs_eval node_eval cs_abc_def)

lemma values_cs_New: "values_cs NewCircularSinglyLinkedList = Ok []"
  by (simp add: cs_eval node_eval)

lemma run_dl_abc:
  "run_dl [OpAppend ''b'', OpAppend ''c'', OpPrepend ''a''] NewDoublyLinkedList = Some (Ok dl_abc)"
  by (simp add: dl_eval node_eval dl_abc_def)

lemma values_dl_abc: "values_dl dl_abc = Some (Ok [''a'', ''b'', ''c''])"
  by (simp add: dl_eval node_eval dl_abc_def)

lemma values_dl_New: "values_dl NewDoublyLinkedList = Some (Ok [])"
  by (simp add: dl_eval node_eval)

lemma run_cd_abc:
  "run_cd [OpAppend ''b'', OpAppend ''c'', OpPrepend ''a''] NewCircularDoublyLinkedList = Some (Ok cd_abc)"
  by (simp add: cd_eval node_eval cd_abc_def)

lemma values_cd_abc: "values_cd cd_abc = Ok [''a'', ''b'', ''c'']"
  by (simp add: cd_eval node_eval cd_abc_def)

lemma values_cd_New: "values_cd NewCircularDoublyLinkedList = Ok []"
  by (simp add: cd_eval node_eval)

text \<open>
  Claim C9. On every list reached from the empty list, \<open>String()\<close> returns without a panic
  the display of the head-to-tail sequence of values: the container name and \<open>: []\<close> for the
  empty sequence; otherwise the name, \<open>: \<close> and every value in brackets, joined by \<open> -> \<close> in
  the two singly linked lists, by the arrow U+2194 between spaces in the linear doubly linked list
  and by \<open> <-> \<close> in the circular doubly linked list, with no separator after the last
  value.
\<close>

theorem C9_string_display:
  "(\<exists>l vs. run_sl ops NewSinglyLinkedList = Some (Ok l) \<and> values_sl l = Some (Ok vs) \<and>
      String_sl showv l = Some (Ok (display ''SinglyLinkedList'' '' -> '' showv vs, l))) \<and>
   (\<exists>l vs. run_cs ops NewCircularSinglyLinkedList = Some (Ok l) \<and> values_cs l = Ok vs \<and>
      String_cs showv l = Ok (display ''CircularSinglyLinkedList'' '' -> '' showv vs, l)) \<and>
   (\<exists>l vs. run_dl ops NewDoublyLinkedList = Some (Ok l) \<and> values_dl l = Some (Ok vs) \<and>
      String_dl showv l = Some (Ok (display ''DoublyLinkedList'' sep_dl showv vs, l))) \<and>
   (\<exists>l vs. run_cd ops NewCircularDoublyLinkedList = Some (Ok l) \<and> values_cd l = Ok vs \<and>
      String_cd showv l = Ok (display ''CircularDoublyLinkedList'' '' <-> '' showv vs, l))"
proof -

  have "(\<exists>l vs. run_sl ops NewSinglyLinkedList = Some (Ok l) \<and> values_sl l = Some (Ok vs) \<and>
      String_sl showv l = Some (Ok (display ''SinglyLinkedList'' '' -> '' showv vs, l)))"
    using reach_sl[of ops] values_sl_rep String_sl_rep by blast

  moreover have "(\<exists>l vs. run_cs ops NewCircularSinglyLinkedList = Some (Ok l) \<and> values_cs l = Ok vs \<and>
      String_cs showv l = Ok (display ''CircularSinglyLinkedList'' '' -> '' showv vs, l))"
    using reach_cs[of ops] values_cs_rep String_cs_rep by blast

  moreover have "(\<exists>l vs. run_dl ops NewDoublyLinkedList = Some (Ok l) \<and> values_dl l = Some (Ok vs) \<and>
      String_dl showv l = Some (Ok (display ''DoublyLinkedList'' sep_dl showv vs, l)))"
    using reach_dl[of ops] values_dl_rep String_dl_rep by blast

  moreover have "(\<exists>l vs. run_cd ops NewCircularDoublyLinkedList = Some (Ok l) \<and> values_cd l = Ok vs \<and>
      String_cd showv l = Ok (display ''CircularDoublyLinkedList'' '' <-> '' showv vs, l))"
    using reach_cd[of ops] values_cd_rep String_cd_rep by blast

  ultimately show ?thesis by simp
qed

theorem C9_string_display_witness:
  "run_sl [OpAppend ''b'', OpAppend ''c'', OpPrepend ''a''] NewSinglyLinkedList = Some (Ok sl_abc) \<and>
   String_sl (\<lambda>s. s) sl_abc = Some (Ok (''SinglyLinkedList: [a] -> [b] -> [c]'', sl_abc)) \<and>
   String_sl (\<lambda>s. s) NewSinglyLinkedList = Some (Ok (''SinglyLinkedList: []'', NewSinglyLinkedList)) \<and>
   run_cs [OpAppend ''b'', OpAppend ''c'', OpPrepend ''a''] NewCircularSinglyLinkedList = Some (Ok cs_abc) \<and>
   String_cs (\<lambda>s. s) cs_abc = Ok (''CircularSinglyLinkedList: [a] -> [b] -> [c]'', cs_abc) \<and>
   String_cs (\<lambda>s. s) NewCircularSinglyLinkedList = Ok (''CircularSinglyLinkedList: []'', NewCircularSinglyLinkedList) \<and>
   run_dl [OpAppend ''b'', OpAppend ''c'', OpPrepend ''a''] NewDoublyLinkedList = Some (Ok dl_abc) \<and>
   String_dl (\<lambda>s. s) dl_abc = Some (Ok (''DoublyLinkedList: [a]'' @ sep_dl @ ''[b]'' @ sep_dl @ ''[c]'', dl_abc)) \<and>
   String_dl (\<lambda>s. s) NewDoublyLinkedList = Some (Ok (''DoublyLinkedList: []'', NewDoublyLinkedList)) \<and>
   run_cd [OpAppend ''b'', OpAppend ''c'', OpPrepend ''a''] NewCircularDoublyLinkedList = Some (Ok cd_abc) \<and>
   String_cd (\<lambda>s. s) cd_abc = Ok (''CircularDoublyLinkedList: [a] <-> [b] <-> [c]'', cd_abc) \<and>
   String_cd (\<lambda>s. s) NewCircularDoublyLinkedList = Ok (''CircularDoublyLinkedList: []'', NewCircularDoublyLinkedList)"
proof -

  note abc = C9_string_display[of "[OpAppend ''b'', OpAppend ''c'', OpPrepend ''a'']" "\<lambda>s. s",
      unfolded run_sl_abc run_cs_abc run_dl_abc run_cd_abc]
  note emp = C9_string_display[of "[]" "\<lambda>s::string. s"]

  have a_sl: "String_sl (\<lambda>s. s) sl_abc = Some (Ok (''SinglyLinkedList: [a] -> [b] -> [c]'', sl_abc))"
    using abc by (simp add: values_sl_abc display_def boxed_def)
  have e_sl: "String_sl (\<lambda>s. s) NewSinglyLinkedList = Some (Ok (''SinglyLinkedList: []'', NewSinglyLinkedList))"
    using emp by (simp add: values_sl_New display_def)

  have a_cs: "String_cs (\<lambda>s. s) cs_abc = Ok (''CircularSinglyLinkedList: [a] -> [b] -> [c]'', cs_abc)"
    using abc by (simp add: values_cs_abc display_def boxed_def)
  have e_cs: "String_cs (\<lambda>s. s) NewCircularSinglyLinkedList = Ok (''CircularSinglyLinkedList: []'', NewCircularSinglyLinkedList)"
    using emp by (simp add: values_cs_New display_def)

  have a_dl: "String_dl (\<lambda>s. s) dl_abc = Some (Ok (''DoublyLinkedList: [a]'' @ sep_dl @ ''[b]'' @ sep_dl @ ''[c]'', dl_abc))"
    using abc by (simp add: values_dl_abc display_def boxed_def)
  have e_dl: "String_dl (\<lambda>s. s) NewDoublyLinkedList = Some (Ok (''DoublyLinkedList: []'', NewDoublyLinkedList))"
    using emp by (simp add: values_dl_New display_def)

  have a_cd: "String_cd (\<lambda>s. s) cd_abc = Ok (''CircularDoublyLinkedList: [a] <-> [b] <-> [c]'', cd_abc)"
    using abc by (simp add: values_cd_abc display_def boxed_def)
  have e_cd: "String_cd (\<lambda>s. s) NewCircularDoublyLinkedList = Ok (''CircularDoublyLinkedList: []'', NewCircularDoublyLinkedList)"
    using emp by (simp add: values_cd_New display_def)

  show ?thesis
    unfolding run_sl_abc run_cs_abc run_dl_abc run_cd_abc a_sl a_cs a_dl a_cd e_sl e_cs e_dl e_cd
    by simp
qed

section \<open>The observers\<close>

lemma sl_rep_observers:
  assumes "sl_rep l as vs"
  shows "(\<exists>r. Find_sl v l = Some (Ok (r, l))) \<and>
         (\<exists>b. Contains_sl v l = Some (Ok (b, l))) \<and>
         (\<exists>r. Get_sl i l = Ok (r, l)) \<and>
         (\<exists>s. String_sl showv l = Some (Ok (s, l))) \<and>
         ((\<forall>x st. fst (f_sl x st) = fst st) \<longrightarrow>
         (\<exists>e'. ForEach_sl f_sl (l, e_sl) = Some (Ok (l, e'))))"
proof -
  have "((\<forall>x st. fst (f_sl x st) = fst st) \<longrightarrow>
         (\<exists>e'. ForEach_sl f_sl (l, e_sl) = Some (Ok (l, e'))))"
  proof
    assume a: "\<forall>x st. fst (f_sl x st) = fst st"
    have "ForEach_sl f_sl (l, e_sl) = Some (Ok (l, foldl (\<lambda>e x. snd (f_sl x (l, e))) e_sl vs))"
      by (rule ForEach_sl_rep[OF assms]) (simp add: a)
    then show "\<exists>e'. ForEach_sl f_sl (l, e_sl) = Some (Ok (l, e'))" by blast
  qed
  then show ?thesis
    using Find_sl_rep[OF assms, of v] Contains_sl_rep[OF assms, of v] Get_sl_rep[OF assms, of i] String_sl_rep[OF assms, of showv]
    by simp
qed

lemma cs_rep_observers:
  assumes "cs_rep l as vs"
  shows "(\<exists>r. Find_cs v l = Some (Ok (r, l))) \<and>
         (\<exists>b. Contains_cs v l = Some (Ok (b, l))) \<and>
         (\<exists>r. Get_cs i l = Ok (r, l)) \<and>
         (\<exists>s. String_cs showv l = Ok (s, l)) \<and>
         ((\<forall>x st. fst (f_cs x st) = fst st) \<longrightarrow>
         (\<exists>e'. ForEach_cs f_cs (l, e_cs) = Ok (l, e')))"
proof -
  have "((\<forall>x st. fst (f_cs x st) = fst st) \<longrightarrow>
         (\<exists>e'. ForEach_cs f_cs (l, e_cs) = Ok (l, e')))"
  proof
    assume a: "\<forall>x st. fst (f_cs x st) = fst st"
    have "ForEach_cs f_cs (l, e_cs) = Ok (l, foldl (\<lambda>e x. snd (f_cs x (l, e))) e_cs vs)"
      by (rule ForEach_cs_rep[OF assms]) (simp add: a)
    then show "\<exists>e'. ForEach_cs f_cs (l, e_cs) = Ok (l, e')" by blast
  qed
  then show ?thesis
    using Find_cs_rep[OF assms, of v] Contains_cs_rep[OF assms, of v] Get_cs_rep[OF assms, of i] String_cs_rep[OF assms, of showv]
    by simp
qed

lemma dl_rep_observers:
  assumes "dl_rep l as vs"
  shows "(\<exists>r. Find_dl v l = Some (Ok (r, l))) \<and>
         (\<exists>r. Get_dl i l = Ok (r, l)) \<and>
         (\<exists>s. String_dl showv l = Some (Ok (s, l))) \<and>
         (\<exists>s. ToSlice_dl l = Some (Ok (s, l))) \<and>
         ((\<forall>x st. fst (f_dl x st) = fst st) \<longrightarrow>
         (\<exists>e'. ForEach_dl f_dl (l, e_dl) = Some (Ok (l, e'))))"
proof -
  have "((\<forall>x st. fst (f_dl x st) = fst st) \<longrightarrow>
         (\<exists>e'. ForEach_dl f_dl (l, e_dl) = Some (Ok (l, e'))))"
  proof
    assume a: "\<forall>x st. fst (f_dl x st) = fst st"
    have "ForEach_dl f_dl (l, e_dl) = Some (Ok (l, foldl (\<lambda>e x. snd (f_dl x (l, e))) e_dl vs))"
      by (rule ForEach_dl_rep[OF assms]) (simp add: a)
    then show "\<exists>e'. ForEach_dl f_dl (l, e_dl) = Some (Ok (l, e'))" by blast
  qed
  then show ?thesis
    using Find_dl_rep[OF assms, of v] Get_dl_rep[OF assms, of i] String_dl_rep[OF assms, of showv] ToSlice_dl_rep[OF assms]
    by simp
qed

lemma cd_rep_observers:
  assumes "cd_rep l as vs"
  shows "(\<exists>r. Find_cd v l = Ok (r, l)) \<and>
         (\<exists>b. Contains_cd v l = Ok (b, l)) \<and>
         (\<exists>r. Get_cd i l = Ok (r, l)) \<and>
         (\<exists>s. String_cd showv l = Ok (s, l)) \<and>
         ((\<forall>x st. fst (f_cd x st) = fst st) \<longrightarrow>
         (\<exists>e'. ForEach_cd f_cd (l, e_cd) = Ok (l, e')))"
proof -
  have "((\<forall>x st. fst (f_cd x st) = fst st) \<longrightarrow>
         (\<exists>e'. ForEach_cd f_cd (l, e_cd) = Ok (l, e')))"
  proof
    assume a: "\<forall>x st. fst (f_cd x st) = fst st"
    have "ForEach_cd f_cd (l, e_cd) = Ok (l, foldl (\<lambda>e x. snd (f_cd x (l, e))) e_cd vs)"
      by (rule ForEach_cd_rep[OF assms]) (simp add: a)
    then show "\<exists>e'. ForEach_cd f_cd (l, e_cd) = Ok (l, e')" by blast
  qed
  then show ?thesis
    using Find_cd_rep[OF assms, of v] Contains_cd_rep[OF assms, of v] Get_cd_rep[OF assms, of i] String_cd_rep[OF assms, of showv]
    by simp
qed

text \<open>
  Claim C10. On every list reached from the empty list, the observers return without a panic
  and hand back the very list they were given, arena, head, tail and size: \<open>Find\<close>, \<open>Get\<close>,
  \<open>String\<close> and \<open>ForEach\<close> with an action that leaves the list alone, in all four variants;
  \<open>Contains\<close> in the three variants that have it; \<open>ToSlice\<close> in the linear doubly linked
  list, the one variant that has it.
\<close>

theorem C10_observers_leave_list_unchanged:
  "(\<exists>l. run_sl ops NewSinglyLinkedList = Some (Ok l) \<and>
      (\<exists>r. Find_sl v l = Some (Ok (r, l))) \<and>
      (\<exists>b. Contains_sl v l = Some (Ok (b, l))) \<and>
      (\<exists>r. Get_sl i l = Ok (r, l)) \<and>
      (\<exists>s. String_sl showv l = Some (Ok (s, l))) \<and>
      ((\<forall>x st. fst (f_sl x st) = fst st) \<longrightarrow>
         (\<exists>e'. ForEach_sl f_sl (l, e_sl) = Some (Ok (l, e'))))) \<and>
   (\<exists>l. run_cs ops NewCircularSinglyLinkedList = Some (Ok l) \<and>
      (\<exists>r. Find_cs v l = Some (Ok (r, l))) \<and>
      (\<exists>b. Contains_cs v l = Some (Ok (b, l))) \<and>
      (\<exists>r. Get_cs i l = Ok (r, l)) \<and>
      (\<exists>s. String_cs showv l = Ok (s, l)) \<and>
      ((\<forall>x st. fst (f_cs x st) = fst st) \<longrightarrow>
         (\<exists>e'. ForEach_cs f_cs (l, e_cs) = Ok (l, e')))) \<and>
   (\<exists>l. run_dl ops NewDoublyLinkedList = Some (Ok l) \<and>
      (\<exists>r. Find_dl v l = Some (Ok (r, l))) \<and>
      (\<exists>r. Get_dl i l = Ok (r, l)) \<and>
      (\<exists>s. String_dl showv l = Some (Ok (s, l))) \<and>
      (\<exists>s. ToSlice_dl l = Some (Ok (s, l))) \<and>
      ((\<forall>x st. fst (f_dl x st) = fst st) \<longrightarrow>
         (\<exists>e'. ForEach_dl f_dl (l, e_dl) = Some (Ok (l, e'))))) \<and>
   (\<exists>l. run_cd ops NewCircularDoublyLinkedList = Some (Ok l) \<and>
      (\<exists>r. Find_cd v l = Ok (r, l)) \<and>
      (\<exists>b. Contains_cd v l = Ok (b, l)) \<and>
      (\<exists>r. Get_cd i l = Ok (r, l)) \<and>
      (\<exists>s. String_cd showv l = Ok (s, l)) \<and>
      ((\<forall>x st. fst (f_cd x st) = fst st) \<longrightarrow>
         (\<exists>e'. ForEach_cd f_cd (l, e_cd) = Ok (l, e'))))"
proof -

  have "(\<exists>l. run_sl ops NewSinglyLinkedList = Some (Ok l) \<and>
      (\<exists>r. Find_sl v l = Some (Ok (r, l))) \<and>
      (\<exists>b. Contains_sl v l = Some (Ok (b, l))) \<and>
      (\<exists>r. Get_sl i l = Ok (r, l)) \<and>
      (\<exists>s. String_sl showv l = Some (Ok (s, l))) \<and>
      ((\<forall>x st. fst (f_sl x st) = fst st) \<longrightarrow>
         (\<exists>e'. ForEach_sl f_sl (l, e_sl) = Some (Ok (l, e')))))"
    using reach_sl[of ops] sl_rep_observers[of _ _ _ v i showv f_sl e_sl] by blast

  moreover have "(\<exists>l. run_cs ops NewCircularSinglyLinkedList = Some (Ok l) \<and>
      (\<exists>r. Find_cs v l = Some (Ok (r, l))) \<and>
      (\<exists>b. Contains_cs v l = Some (Ok (b, l))) \<and>
      (\<exists>r. Get_cs i l = Ok (r, l)) \<and>
      (\<exists>s. String_cs showv l = Ok (s, l)) \<and>
      ((\<forall>x st. fst (f_cs x st) = fst st) \<longrightarrow>
         (\<exists>e'. ForEach_cs f_cs (l, e_cs) = Ok (l, e'))))"
    using reach_cs[of ops] cs_rep_observers[of _ _ _ v i showv f_cs e_cs] by blast

  moreover have "(\<exists>l. run_dl ops NewDoublyLinkedList = Some (Ok l) \<and>
      (\<exists>r. Find_dl v l = Some (Ok (r, l))) \<and>
      (\<exists>r. Get_dl i l = Ok (r, l)) \<and>
      (\<exists>s. String_dl showv l = Some (Ok (s, l))) \<and>
      (\<exists>s. ToSlice_dl l = Some (Ok (s, l))) \<and>
      ((\<forall>x st. fst (f_dl x st) = fst st) \<longrightarrow>
         (\<exists>e'. ForEach_dl f_dl (l, e_dl) = Some (Ok (l, e')))))"
    using reach_dl[of ops] dl_rep_observers[of _ _ _ v i showv f_dl e_dl] by blast

  moreover have "(\<exists>l. run_cd ops NewCircularDoublyLinkedList = Some (Ok l) \<and>
      (\<exists>r. Find_cd v l = Ok (r, l)) \<and>
      (\<exists>b. Contains_cd v l = Ok (b, l)) \<and>
      (\<exists>r. Get_cd i l = Ok (r, l)) \<and>
      (\<exists>s. String_cd showv l = Ok (s, l)) \<and>
      ((\<forall>x st. fst (f_cd x st) = fst st) \<longrightarrow>
         (\<exists>e'. ForEach_cd f_cd (l, e_cd) = Ok (l, e'))))"
    using reach_cd[of ops] cd_rep_observers[of _ _ _ v i showv f_cd e_cd] by blast

  ultimately show ?thesis by simp
qed

theorem C10_observers_leave_list_unchanged_witness:
  "Find_sl ''b'' sl_abc = Some (Ok (Some 0, sl_abc)) \<and>
   Contains_sl ''b'' sl_abc = Some (Ok (True, sl_abc)) \<and>
   Get_sl 1 sl_abc = Ok ((Some 0, None), sl_abc) \<and>
   String_sl (\<lambda>s. s) sl_abc = Some (Ok (''SinglyLinkedList: [a] -> [b] -> [c]'', sl_abc)) \<and>
   ForEach_sl collect (sl_abc, []) = Some (Ok (sl_abc, [''a'', ''b'', ''c''])) \<and>
   Find_cs ''b'' cs_abc = Some (Ok (Some 0, cs_abc)) \<and>
   Contains_cs ''b'' cs_abc = Some (Ok (True, cs_abc)) \<and>
   Get_cs 1 cs_abc = Ok ((Some 0, None), cs_abc) \<and>
   String_cs (\<lambda>s. s) cs_abc = Ok (''CircularSinglyLinkedList: [a] -> [b] -> [c]'', cs_abc) \<and>
   ForEach_cs collect (cs_abc, []) = Ok (cs_abc, [''a'', ''b'', ''c'']) \<and>
   Find_dl ''b'' dl_abc = Some (Ok (Some 0, dl_abc)) \<and>
   Get_dl 1 dl_abc = Ok ((Some 0, None), dl_abc) \<and>
   String_dl (\<lambda>s. s) dl_abc = Some (Ok (''DoublyLinkedList: [a]'' @ sep_dl @ ''[b]'' @ sep_dl @ ''[c]'', dl_abc)) \<and>
   ToSlice_dl dl_abc = Some (Ok ([''a'', ''b'', ''c''], dl_abc)) \<and>
   ForEach_dl collect (dl_abc, []) = Some (Ok (dl_abc, [''a'', ''b'', ''c''])) \<and>
   Find_cd ''b'' cd_abc = Ok (Some 0, cd_abc) \<and>
   Contains_cd ''b'' cd_abc = Ok (True, cd_abc) \<and>
   Get_cd 1 cd_abc = Ok ((Some 0, None), cd_abc) \<and>
   String_cd (\<lambda>s. s) cd_abc = Ok (''CircularDoublyLinkedList: [a] <-> [b] <-> [c]'', cd_abc) \<and>
   ForEach_cd collect (cd_abc, []) = Ok (cd_abc, [''a'', ''b'', ''c''])"
proof -

  note c10 = C10_observers_leave_list_unchanged[of "[OpAppend ''b'', OpAppend ''c'', OpPrepend ''a'']" "''b''" 1 "\<lambda>s. s"
      collect "[]" collect "[]" collect "[]" collect "[]",
      unfolded run_sl_abc run_cs_abc run_dl_abc run_cd_abc]

  have w_sl: "Find_sl ''b'' sl_abc = Some (Ok (Some 0, sl_abc)) \<and>
     Contains_sl ''b'' sl_abc = Some (Ok (True, sl_abc)) \<and>
     Get_sl 1 sl_abc = Ok ((Some 0, None), sl_abc) \<and>
     String_sl (\<lambda>s. s) sl_abc = Some (Ok (''SinglyLinkedList: [a] -> [b] -> [c]'', sl_abc)) \<and>
     ForEach_sl collect (sl_abc, []) = Some (Ok (sl_abc, [''a'', ''b'', ''c'']))"
    using c10 by (simp add: fst_collect) (simp add: sl_abc_def sl_eval node_eval)

  have w_cs: "Find_cs ''b'' cs_abc = Some (Ok (Some 0, cs_abc)) \<and>
     Contains_cs ''b'' cs_abc = Some (Ok (True, cs_abc)) \<and>
     Get_cs 1 cs_abc = Ok ((Some 0, None), cs_abc) \<and>
     String_cs (\<lambda>s. s) cs_abc = Ok (''CircularSinglyLinkedList: [a] -> [b] -> [c]'', cs_abc) \<and>
     ForEach_cs collect (cs_abc, []) = Ok (cs_abc, [''a'', ''b'', ''c''])"
    using c10 by (simp add: fst_collect) (simp add: cs_abc_def cs_eval node_eval)

  have w_dl: "Find_dl ''b'' dl_abc = Some (Ok (Some 0, dl_abc)) \<and>
     Get_dl 1 dl_abc = Ok ((Some 0, None), dl_abc) \<and>
     String_dl (\<lambda>s. s) dl_abc = Some (Ok (''DoublyLinkedList: [a]'' @ sep_dl @ ''[b]'' @ sep_dl @ ''[c]'', dl_abc)) \<and>
     ToSlice_dl dl_abc = Some (Ok ([''a'', ''b'', ''c''], dl_abc)) \<and>
     ForEach_dl collect (dl_abc, []) = Some (Ok (dl_abc, [''a'', ''b'', ''c'']))"
    using c10 by (simp add: fst_collect) (simp add: dl_abc_def dl_eval node_eval)

  have w_cd: "Find_cd ''b'' cd_abc = Ok (Some 0, cd_abc) \<and>
     Contains_cd ''b'' cd_abc = Ok (True, cd_abc) \<and>
     Get_cd 1 cd_abc = Ok ((Some 0, None), cd_abc) \<and>
     String_cd (\<lambda>s. s) cd_abc = Ok (''CircularDoublyLinkedList: [a] <-> [b] <-> [c]'', cd_abc) \<and>
     ForEach_cd collect (cd_abc, []) = Ok (cd_abc, [''a'', ''b'', ''c''])"
    using c10 by (simp add: fst_collect) (simp add: cd_abc_def cd_eval node_eval)

  show ?thesis using w_sl w_cs w_dl w_cd by simp
qed

section \<open>Operations on an empty list and removal of an absent value\<close>

lemma Remove_sl_absent:
  assumes "sl_rep l as vs" "v \<notin> set vs"
  shows "Remove_sl v l = Some (Ok l)"
  using map_of_zip_None[OF sl_rep_length[OF assms(1)], of v] assms(2)
  by (simp add: Remove_sl_def Find_sl_rep[OF assms(1)])

lemma Remove_dl_absent:
  assumes "dl_rep l as vs" "v \<notin> set vs"
  shows "Remove_dl v l = Some (Ok l)"
  using map_of_zip_None[OF dl_rep_length[OF assms(1)], of v] assms(2)
  by (simp add: Remove_dl_def Find_dl_rep[OF assms(1)])

lemma Remove_cs_absent:
  assumes "cs_rep l as vs" "v \<notin> set vs"
  shows "Remove_cs v l = Ok l"
proof (cases "as = []")
  case True
  then show ?thesis using cs_rep_size[OF assms(1)]
    by (simp add: Remove_cs_def IsEmpty_cs_def Size_cs_def)
next
  case False
  let ?h = "cells_cs l"
  have vs: "vs = map (vls ?h) as" using assms(1) by (simp add: cs_rep_def)
  have sg: "seg (nxs ?h) (Some (hd as)) as (Some (hd as))" using cs_rep_seg[OF assms(1) False] .
  have "Remove_cs v l = Remove_cs_loop (length as) v (Some (last as)) (Some (hd as)) l"
    using False cs_rep_size[OF assms(1)] cs_rep_tail[OF assms(1)] cs_rep_ring_last[OF assms(1) False]
    by (simp add: Remove_cs_def IsEmpty_cs_def Size_cs_def Tail_cs_def Next_sn_nxs)
  moreover have "\<forall>a\<in>set as. vls ?h a \<noteq> v" using assms(2) vs by auto
  ultimately show ?thesis using Remove_cs_loop_skip[OF sg, of v 0 "Some (last as)"] by simp
qed

lemma Remove_cd_absent:
  assumes "cd_rep l as vs" "v \<notin> set vs"
  shows "Remove_cd v l = Ok l"
proof (cases "as = []")
  case True
  then show ?thesis using cd_rep_size[OF assms(1)]
    by (simp add: Remove_cd_def IsEmpty_cd_def Size_cd_def)
next
  case False
  let ?h = "cells_cd l"
  have vs: "vs = map (vld ?h) as" using assms(1) by (simp add: cd_rep_def)
  have sg: "seg (nxd ?h) (Some (hd as)) as (Some (hd as))" using cd_rep_seg[OF assms(1) False] .
  have "Remove_cd v l = Remove_cd_loop (length as) v (Some (hd as)) l"
    using False cd_rep_size[OF assms(1)] cd_rep_Head[OF assms(1)]
    by (simp add: Remove_cd_def IsEmpty_cd_def Size_cd_def)
  moreover have "\<forall>a\<in>set as. vld ?h a \<noteq> v" using assms(2) vs by auto
  ultimately show ?thesis using Remove_cd_loop_skip[OF sg, of v 0] by simp
qed


lemma sl_empty_noop:
  assumes "sl_rep l as vs" "IsEmpty_sl l"
  shows "vs = [] \<and> RemoveFirst_sl l = Ok l \<and>
         RemoveLast_sl l = Some (Ok l) \<and>
         Remove_sl v l = Some (Ok l) \<and>
         Reverse_sl l = Some (Ok l) \<and>
         Clear_sl l = l \<and>
         Find_sl v l = Some (Ok (None, l)) \<and>
         Contains_sl v l = Some (Ok (False, l)) \<and>
         ForEach_sl f_sl (l, e_sl) = Some (Ok (l, e_sl))"
proof -
  have as: "as = []" using assms sl_rep_size[OF assms(1)] by (simp add: IsEmpty_sl_def Size_sl_def)
  then have vs: "vs = []" using sl_rep_length[OF assms(1)] by simp
  have h: "head_sl l = None" "tail_sl l = None" "size_sl l = 0"
    using as sl_rep_head[OF assms(1)] sl_rep_tail[OF assms(1)] sl_rep_size[OF assms(1)] by simp_all
  have eq: "l\<lparr>head_sl := None, tail_sl := None, size_sl := 0\<rparr> = l"
    "l\<lparr>tail_sl := None, cells_sl := cells_sl l, head_sl := None\<rparr> = l"
    using h by (cases l, simp)+
  have "RemoveFirst_sl l = Ok l" using assms(2) by (simp add: RemoveFirst_sl_def)
  moreover have "RemoveLast_sl l = Some (Ok l)" using assms(2) by (simp add: RemoveLast_sl_def)
  moreover have "Remove_sl v l = Some (Ok l)" using Remove_sl_absent[OF assms(1), of v] vs by simp
  moreover have "Reverse_sl l = Some (Ok l)"
    using h eq by (simp add: Reverse_sl_def Head_sl_def Reverse_sl_loop.simps)
  moreover have "Clear_sl l = l" using eq by (simp add: Clear_sl_def)
  moreover have "Find_sl v l = Some (Ok (None, l))" using Find_sl_rep[OF assms(1), of v] as by simp
  moreover have "Contains_sl v l = Some (Ok (False, l))"
    using Contains_sl_rep[OF assms(1), of v] vs by simp
  moreover have "ForEach_sl f_sl (l, e_sl) = Some (Ok (l, e_sl))"
    using h by (simp add: ForEach_sl_def Head_sl_def ForEach_sl_loop.simps)
  ultimately show ?thesis using vs by simp
qed

lemma sl_absent_noop:
  assumes "sl_rep l as vs" "v \<notin> set vs"
  shows "Remove_sl v l = Some (Ok l) \<and>
         Find_sl v l = Some (Ok (None, l)) \<and>
         Contains_sl v l = Some (Ok (False, l))"
  using Remove_sl_absent[OF assms] Find_sl_rep[OF assms(1), of v] Contains_sl_rep[OF assms(1), of v]
    map_of_zip_None[OF sl_rep_length[OF assms(1)], of v] assms(2)
  by simp

lemma cs_empty_noop:
  assumes "cs_rep l as vs" "IsEmpty_cs l"
  shows "vs = [] \<and> RemoveFirst_cs l = Ok l \<and>
         RemoveLast_cs l = Some (Ok l) \<and>
         Remove_cs v l = Ok l \<and>
         Reverse_cs l = Ok l \<and>
         Clear_cs l = l \<and>
         Find_cs v l = Some (Ok (None, l)) \<and>
         Contains_cs v l = Some (Ok (False, l)) \<and>
         ForEach_cs f_cs (l, e_cs) = Ok (l, e_cs)"
proof -
  have as: "as = []" using assms cs_rep_size[OF assms(1)] by (simp add: IsEmpty_cs_def Size_cs_def)
  then have vs: "vs = []" using cs_rep_length[OF assms(1)] by simp
  have h: "tail_cs l = None" "size_cs l = 0"
    using as cs_rep_tail[OF assms(1)] cs_rep_size[OF assms(1)] by simp_all
  have eq: "l\<lparr>tail_cs := None, size_cs := 0\<rparr> = l"
    using h by (cases l, simp)
  have "RemoveFirst_cs l = Ok l" using assms(2) by (simp add: RemoveFirst_cs_def)
  moreover have "RemoveLast_cs l = Some (Ok l)" using assms(2) by (simp add: RemoveLast_cs_def)
  moreover have "Remove_cs v l = Ok l" using Remove_cs_absent[OF assms(1), of v] vs by simp
  moreover have "Reverse_cs l = Ok l"
    using assms(2) by (simp add: Reverse_cs_def)
  moreover have "Clear_cs l = l" using eq by (simp add: Clear_cs_def)
  moreover have "Find_cs v l = Some (Ok (None, l))" using Find_cs_rep[OF assms(1), of v] as by simp
  moreover have "Contains_cs v l = Some (Ok (False, l))"
    using Contains_cs_rep[OF assms(1), of v] vs by simp
  moreover have "ForEach_cs f_cs (l, e_cs) = Ok (l, e_cs)"
    using assms(2) by (simp add: ForEach_cs_def)
  ultimately show ?thesis using vs by simp
qed

lemma cs_absent_noop:
  assumes "cs_rep l as vs" "v \<notin> set vs"
  shows "Remove_cs v l = Ok l \<and>
         Find_cs v l = Some (Ok (None, l)) \<and>
         Contains_cs v l = Some (Ok (False, l))"
  using Remove_cs_absent[OF assms] Find_cs_rep[OF assms(1), of v] Contains_cs_rep[OF assms(1), of v]
    map_of_zip_None[OF cs_rep_length[OF assms(1)], of v] assms(2)
  by simp

lemma dl_empty_noop:
  assumes "dl_rep l as vs" "IsEmpty_dl l"
  shows "vs = [] \<and> RemoveFirst_dl l = Ok l \<and>
         RemoveLast_dl l = Ok l \<and>
         Remove_dl v l = Some (Ok l) \<and>
         Reverse_dl l = Some (Ok l) \<and>
         Clear_dl l = l \<and>
         Find_dl v l = Some (Ok (None, l)) \<and>
         ForEach_dl f_dl (l, e_dl) = Some (Ok (l, e_dl))"
proof -
  have as: "as = []" using assms dl_rep_size[OF assms(1)] by (simp add: IsEmpty_dl_def Size_dl_def)
  then have vs: "vs = []" using dl_rep_length[OF assms(1)] by simp
  have h: "head_dl l = None" "tail_dl l = None" "size_dl l = 0"
    using as dl_rep_head[OF assms(1)] dl_rep_tail[OF assms(1)] dl_rep_size[OF assms(1)] by simp_all
  have eq: "l\<lparr>head_dl := None, tail_dl := None, size_dl := 0\<rparr> = l"
    "l\<lparr>tail_dl := None, cells_dl := cells_dl l, head_dl := None\<rparr> = l"
    using h by (cases l, simp)+
  have "RemoveFirst_dl l = Ok l" using assms(2) by (simp add: RemoveFirst_dl_def)
  moreover have "RemoveLast_dl l = Ok l" using assms(2) by (simp add: RemoveLast_dl_def)
  moreover have "Remove_dl v l = Some (Ok l)" using Remove_dl_absent[OF assms(1), of v] vs by simp
  moreover have "Reverse_dl l = Some (Ok l)"
    using h eq by (simp add: Reverse_dl_def Head_dl_def Reverse_dl_loop.simps)
  moreover have "Clear_dl l = l" using eq by (simp add: Clear_dl_def)
  moreover have "Find_dl v l = Some (Ok (None, l))" using Find_dl_rep[OF assms(1), of v] as by simp
  moreover have "ForEach_dl f_dl (l, e_dl) = Some (Ok (l, e_dl))"
    using h by (simp add: ForEach_dl_def Head_dl_def ForEach_dl_loop.simps)
  ultimately show ?thesis using vs by simp
qed

lemma dl_absent_noop:
  assumes "dl_rep l as vs" "v \<notin> set vs"
  shows "Remove_dl v l = Some (Ok l) \<and>
         Find_dl v l = Some (Ok (None, l))"
  using Remove_dl_absent[OF assms] Find_dl_rep[OF assms(1), of v]
    map_of_zip_None[OF dl_rep_length[OF assms(1)], of v] assms(2)
  by simp

lemma cd_empty_noop:
  assumes "cd_rep l as vs" "IsEmpty_cd l"
  shows "vs = [] \<and> RemoveFirst_cd l = Ok l \<and>
         RemoveLast_cd l = Ok l \<and>
         Remove_cd v l = Ok l \<and>
         Reverse_cd l = Ok l \<and>
         Clear_cd l = l \<and>
         Find_cd v l = Ok (None, l) \<and>
         Contains_cd v l = Ok (False, l) \<and>
         ForEach_cd f_cd (l, e_cd) = Ok (l, e_cd)"
proof -
  have as: "as = []" using assms cd_rep_size[OF assms(1)] by (simp add: IsEmpty_cd_def Size_cd_def)
  then have vs: "vs = []" using cd_rep_length[OF assms(1)] by simp
  have h: "tail_cd l = None" "size_cd l = 0"
    using as cd_rep_tail[OF assms(1)] cd_rep_size[OF assms(1)] by simp_all
  have eq: "l\<lparr>tail_cd := None, size_cd := 0\<rparr> = l"
    using h by (cases l, simp)
  have "RemoveFirst_cd l = Ok l" using assms(2) by (simp add: RemoveFirst_cd_def)
  moreover have "RemoveLast_cd l = Ok l" using assms(2) by (simp add: RemoveLast_cd_def)
  moreover have "Remove_cd v l = Ok l" using Remove_cd_absent[OF assms(1), of v] vs by simp
  moreover have "Reverse_cd l = Ok l"
    using assms(2) by (simp add: Reverse_cd_def)
  moreover have "Clear_cd l = l" using eq by (simp add: Clear_cd_def)
  moreover have "Find_cd v l = Ok (None, l)" using Find_cd_rep[OF assms(1), of v] as by simp
  moreover have "Contains_cd v l = Ok (False, l)"
    using Contains_cd_rep[OF assms(1), of v] vs by simp
  moreover have "ForEach_cd f_cd (l, e_cd) = Ok (l, e_cd)"
    using assms(2) by (simp add: ForEach_cd_def)
  ultimately show ?thesis using vs by simp
qed

lemma cd_absent_noop:
  assumes "cd_rep l as vs" "v \<notin> set vs"
  shows "Remove_cd v l = Ok l \<and>
         Find_cd v l = Ok (None, l) \<and>
         Contains_cd v l = Ok (False, l)"
  using Remove_cd_absent[OF assms] Find_cd_rep[OF assms(1), of v] Contains_cd_rep[OF assms(1), of v]
    map_of_zip_None[OF cd_rep_length[OF assms(1)], of v] assms(2)
  by simp

text \<open>
  Claim C6. On every list reached from the empty list, in each of the four variants: when the
  list is empty, \<open>RemoveFirst\<close>, \<open>RemoveLast\<close>, \<open>Remove(v)\<close>, \<open>Reverse\<close>, \<open>Clear\<close> and
  \<open>ForEach\<close> with any action return without a panic the very list they were given, which has
  no values, \<open>Find(v)\<close> returns \<open>nil\<close> and \<open>Contains(v)\<close> returns false; when \<open>v\<close> is not
  among the values of the list, \<open>Remove(v)\<close> returns the list it was given, \<open>Find(v)\<close> returns
  \<open>nil\<close> and \<open>Contains(v)\<close> returns false. The linear doubly linked list has no \<open>Contains\<close>.
\<close>

theorem C6_noop_on_empty_or_absent:
  "(\<exists>l vs. run_sl ops NewSinglyLinkedList = Some (Ok l) \<and> values_sl l = Some (Ok vs) \<and>
      (IsEmpty_sl l \<longrightarrow>
         vs = [] \<and> RemoveFirst_sl l = Ok l \<and>
         RemoveLast_sl l = Some (Ok l) \<and>
         Remove_sl v l = Some (Ok l) \<and>
         Reverse_sl l = Some (Ok l) \<and>
         Clear_sl l = l \<and>
         Find_sl v l = Some (Ok (None, l)) \<and>
         Contains_sl v l = Some (Ok (False, l)) \<and>
         ForEach_sl f_sl (l, e_sl) = Some (Ok (l, e_sl))) \<and>
      (v \<notin> set vs \<longrightarrow>
         Remove_sl v l = Some (Ok l) \<and>
         Find_sl v l = Some (Ok (None, l)) \<and>
         Contains_sl v l = Some (Ok (False, l)))) \<and>
   (\<exists>l vs. run_cs ops NewCircularSinglyLinkedList = Some (Ok l) \<and> values_cs l = Ok vs \<and>
      (IsEmpty_cs l \<longrightarrow>
         vs = [] \<and> RemoveFirst_cs l = Ok l \<and>
         RemoveLast_cs l = Some (Ok l) \<and>
         Remove_cs v l = Ok l \<and>
         Reverse_cs l = Ok l \<and>
         Clear_cs l = l \<and>
         Find_cs v l = Some (Ok (None, l)) \<and>
         Contains_cs v l = Some (Ok (False, l)) \<and>
         ForEach_cs f_cs (l, e_cs) = Ok (l, e_cs)) \<and>
      (v \<notin> set vs \<longrightarrow>
         Remove_cs v l = Ok l \<and>
         Find_cs v l = Some (Ok (None, l)) \<and>
         Contains_cs v l = Some (Ok (False, l)))) \<and>
   (\<exists>l vs. run_dl ops NewDoublyLinkedList = Some (Ok l) \<and> values_dl l = Some (Ok vs) \<and>
      (IsEmpty_dl l \<longrightarrow>
         vs = [] \<and> RemoveFirst_dl l = Ok l \<and>
         RemoveLast_dl l = Ok l \<and>
         Remove_dl v l = Some (Ok l) \<and>
         Reverse_dl l = Some (Ok l) \<and>
         Clear_dl l = l \<and>
         Find_dl v l = Some (Ok (None, l)) \<and>
         ForEach_dl f_dl (l, e_dl) = Some (Ok (l, e_dl))) \<and>
      (v \<notin> set vs \<longrightarrow>
         Remove_dl v l = Some (Ok l) \<and>
         Find_dl v l = Some (Ok (None, l)))) \<and>
   (\<exists>l vs. run_cd ops NewCircularDoublyLinkedList = Some (Ok l) \<and> values_cd l = Ok vs \<and>
      (IsEmpty_cd l \<longrightarrow>
         vs = [] \<and> RemoveFirst_cd l = Ok l \<and>
         RemoveLast_cd l = Ok l \<and>
         Remove_cd v l = Ok l \<and>
         Reverse_cd l = Ok l \<and>
         Clear_cd l = l \<and>
         Find_cd v l = Ok (None, l) \<and>
         Contains_cd v l = Ok (False, l) \<and>
         ForEach_cd f_cd (l, e_cd) = Ok (l, e_cd)) \<and>
      (v \<notin> set vs \<longrightarrow>
         Remove_cd v l = Ok l \<and>
         Find_cd v l = Ok (None, l) \<and>
         Contains_cd v l = Ok (False, l)))"
proof -

  have "(\<exists>l vs. run_sl ops NewSinglyLinkedList = Some (Ok l) \<and> values_sl l = Some (Ok vs) \<and>
      (IsEmpty_sl l \<longrightarrow>
         vs = [] \<and> RemoveFirst_sl l = Ok l \<and>
         RemoveLast_sl l = Some (Ok l) \<and>
         Remove_sl v l = Some (Ok l) \<and>
         Reverse_sl l = Some (Ok l) \<and>
         Clear_sl l = l \<and>
         Find_sl v l = Some (Ok (None, l)) \<and>
         Contains_sl v l = Some (Ok (False, l)) \<and>
         ForEach_sl f_sl (l, e_sl) = Some (Ok (l, e_sl))) \<and>
      (v \<notin> set vs \<longrightarrow>
         Remove_sl v l = Some (Ok l) \<and>
         Find_sl v l = Some (Ok (None, l)) \<and>
         Contains_sl v l = Some (Ok (False, l))))"
    using reach_sl[of ops] values_sl_rep sl_empty_noop[of _ _ _ v f_sl e_sl] sl_absent_noop[of _ _ _ v]
    by blast

  moreover have "(\<exists>l vs. run_cs ops NewCircularSinglyLinkedList = Some (Ok l) \<and> values_cs l = Ok vs \<and>
      (IsEmpty_cs l \<longrightarrow>
         vs = [] \<and> RemoveFirst_cs l = Ok l \<and>
         RemoveLast_cs l = Some (Ok l) \<and>
         Remove_cs v l = Ok l \<and>
         Reverse_cs l = Ok l \<and>
         Clear_cs l = l \<and>
         Find_cs v l = Some (Ok (None, l)) \<and>
         Contains_cs v l = Some (Ok (False, l)) \<and>
         ForEach_cs f_cs (l, e_cs) = Ok (l, e_cs)) \<and>
      (v \<notin> set vs \<longrightarrow>
         Remove_cs v l = Ok l \<and>
         Find_cs v l = Some (Ok (None, l)) \<and>
         Contains_cs v l = Some (Ok (False, l))))"
    using reach_cs[of ops] values_cs_rep cs_empty_noop[of _ _ _ v f_cs e_cs] cs_absent_noop[of _ _ _ v]
    by blast

  moreover have "(\<exists>l vs. run_dl ops NewDoublyLinkedList = Some (Ok l) \<and> values_dl l = Some (Ok vs) \<and>
      (IsEmpty_dl l \<longrightarrow>
         vs = [] \<and> RemoveFirst_dl l = Ok l \<and>
         RemoveLast_dl l = Ok l \<and>
         Remove_dl v l = Some (Ok l) \<and>
         Reverse_dl l = Some (Ok l) \<and>
         Clear_dl l = l \<and>
         Find_dl v l = Some (Ok (None, l)) \<and>
         ForEach_dl f_dl (l, e_dl) = Some (Ok (l, e_dl))) \<and>
      (v \<notin> set vs \<longrightarrow>
         Remove_dl v l = Some (Ok l) \<and>
         Find_dl v l = Some (Ok (None, l))))"
    using reach_dl[of ops] values_dl_rep dl_empty_noop[of _ _ _ v f_dl e_dl] dl_absent_noop[of _ _ _ v]
    by blast

  moreover have "(\<exists>l vs. run_cd ops NewCircularDoublyLinkedList = Some (Ok l) \<and> values_cd l = Ok vs \<and>
      (IsEmpty_cd l \<longrightarrow>
         vs = [] \<and> RemoveFirst_cd l = Ok l \<and>
         RemoveLast_cd l = Ok l \<and>
         Remove_cd v l = Ok l \<and>
         Reverse_cd l = Ok l \<and>
         Clear_cd l = l \<and>
         Find_cd v l = Ok (None, l) \<and>
         Contains_cd v l = Ok (False, l) \<and>
         ForEach_cd f_cd (l, e_cd) = Ok (l, e_cd)) \<and>
      (v \<notin> set vs \<longrightarrow>
         Remove_cd v l = Ok l \<and>
         Find_cd v l = Ok (None, l) \<and>
         Contains_cd v l = Ok (False, l)))"
    using reach_cd[of ops] values_cd_rep cd_empty_noop[of _ _ _ v f_cd e_cd] cd_absent_noop[of _ _ _ v]
    by blast

  ultimately show ?thesis by simp
qed

theorem C6_noop_on_empty_or_absent_witness:
  "IsEmpty_sl sl_none \<and>
   values_sl sl_none = Some (Ok []) \<and>
   RemoveFirst_sl sl_none = Ok sl_none \<and>
   RemoveLast_sl sl_none = Some (Ok sl_none) \<and>
   Remove_sl 7 sl_none = Some (Ok sl_none) \<and>
   Reverse_sl sl_none = Some (Ok sl_none) \<and>
   Clear_sl sl_none = sl_none \<and>
   Find_sl 7 sl_none = Some (Ok (None, sl_none)) \<and>
   Contains_sl 7 sl_none = Some (Ok (False, sl_none)) \<and>
   ForEach_sl collect (sl_none, []) = Some (Ok (sl_none, [])) \<and>
   values_sl sl_012 = Some (Ok [0, 1, 2]) \<and>
   Remove_sl 7 sl_012 = Some (Ok sl_012) \<and>
   Find_sl 7 sl_012 = Some (Ok (None, sl_012)) \<and>
   Contains_sl 7 sl_012 = Some (Ok (False, sl_012)) \<and>
   IsEmpty_cs cs_none \<and>
   values_cs cs_none = Ok [] \<and>
   RemoveFirst_cs cs_none = Ok cs_none \<and>
   RemoveLast_cs cs_none = Some (Ok cs_none) \<and>
   Remove_cs 7 cs_none = Ok cs_none \<and>
   Reverse_cs cs_none = Ok cs_none \<and>
   Clear_cs cs_none = cs_none \<and>
   Find_cs 7 cs_none = Some (Ok (None, cs_none)) \<and>
   Contains_cs 7 cs_none = Some (Ok (False, cs_none)) \<and>
   ForEach_cs collect (cs_none, []) = Ok (cs_none, []) \<and>
   values_cs cs_012 = Ok [0, 1, 2] \<and>
   Remove_cs 7 cs_012 = Ok cs_012 \<and>
   Find_cs 7 cs_012 = Some (Ok (None, cs_012)) \<and>
   Contains_cs 7 cs_012 = Some (Ok (False, cs_012)) \<and>
   IsEmpty_dl dl_none \<and>
   values_dl dl_none = Some (Ok []) \<and>
   RemoveFirst_dl dl_none = Ok dl_none \<and>
   RemoveLast_dl dl_none = Ok dl_none \<and>
   Remove_dl 7 dl_none = Some (Ok dl_none) \<and>
   Reverse_dl dl_none = Some (Ok dl_none) \<and>
   Clear_dl dl_none = dl_none \<and>
   Find_dl 7 dl_none = Some (Ok (None, dl_none)) \<and>
   ForEach_dl collect (dl_none, []) = Some (Ok (dl_none, [])) \<and>
   values_dl dl_012 = Some (Ok [0, 1, 2]) \<and>
   Remove_dl 7 dl_012 = Some (Ok dl_012) \<and>
   Find_dl 7 dl_012 = Some (Ok (None, dl_012)) \<and>
   IsEmpty_cd cd_none \<and>
   values_cd cd_none = Ok [] \<and>
   RemoveFirst_cd cd_none = Ok cd_none \<and>
   RemoveLast_cd cd_none = Ok cd_none \<and>
   Remove_cd 7 cd_none = Ok cd_none \<and>
   Reverse_cd cd_none = Ok cd_none \<and>
   Clear_cd cd_none = cd_none \<and>
   Find_cd 7 cd_none = Ok (None, cd_none) \<and>
   Contains_cd 7 cd_none = Ok (False, cd_none) \<and>
   ForEach_cd collect (cd_none, []) = Ok (cd_none, []) \<and>
   values_cd cd_012 = Ok [0, 1, 2] \<and>
   Remove_cd 7 cd_012 = Ok cd_012 \<and>
   Find_cd 7 cd_012 = Ok (None, cd_012) \<and>
   Contains_cd 7 cd_012 = Ok (False, cd_012)"
proof -

  note c6e = C6_noop_on_empty_or_absent[of "[OpAppend (1::int), OpRemoveFirst]" 7
      collect "[]" collect "[]" collect "[]" collect "[]",
      unfolded run_sl_none run_cs_none run_dl_none run_cd_none]
  note c6a = C6_noop_on_empty_or_absent[of "[OpAppend (1::int), OpAppend 2, OpPrepend 0]" 7
      collect "[]::int list" collect "[]::int list" collect "[]::int list" collect "[]::int list",
      unfolded run_sl_012 run_cs_012 run_dl_012 run_cd_012]

  have i_sl: "IsEmpty_sl sl_none" by (simp add: IsEmpty_sl_def Size_sl_def sl_none_def)
  have w_sl: "IsEmpty_sl sl_none \<and>
     values_sl sl_none = Some (Ok []) \<and>
     RemoveFirst_sl sl_none = Ok sl_none \<and>
     RemoveLast_sl sl_none = Some (Ok sl_none) \<and>
     Remove_sl 7 sl_none = Some (Ok sl_none) \<and>
     Reverse_sl sl_none = Some (Ok sl_none) \<and>
     Clear_sl sl_none = sl_none \<and>
     Find_sl 7 sl_none = Some (Ok (None, sl_none)) \<and>
     Contains_sl 7 sl_none = Some (Ok (False, sl_none)) \<and>
     ForEach_sl collect (sl_none, []) = Some (Ok (sl_none, [])) \<and>
     values_sl sl_012 = Some (Ok [0, 1, 2]) \<and>
     Remove_sl 7 sl_012 = Some (Ok sl_012) \<and>
     Find_sl 7 sl_012 = Some (Ok (None, sl_012)) \<and>
     Contains_sl 7 sl_012 = Some (Ok (False, sl_012))"
    using c6e c6a by (auto simp: i_sl values_sl_012)

  have i_cs: "IsEmpty_cs cs_none" by (simp add: IsEmpty_cs_def Size_cs_def cs_none_def)
  have w_cs: "IsEmpty_cs cs_none \<and>
     values_cs cs_none = Ok [] \<and>
     RemoveFirst_cs cs_none = Ok cs_none \<and>
     RemoveLast_cs cs_none = Some (Ok cs_none) \<and>
     Remove_cs 7 cs_none = Ok cs_none \<and>
     Reverse_cs cs_none = Ok cs_none \<and>
     Clear_cs cs_none = cs_none \<and>
     Find_cs 7 cs_none = Some (Ok (None, cs_none)) \<and>
     Contains_cs 7 cs_none = Some (Ok (False, cs_none)) \<and>
     ForEach_cs collect (cs_none, []) = Ok (cs_none, []) \<and>
     values_cs cs_012 = Ok [0, 1, 2] \<and>
     Remove_cs 7 cs_012 = Ok cs_012 \<and>
     Find_cs 7 cs_012 = Some (Ok (None, cs_012)) \<and>
     Contains_cs 7 cs_012 = Some (Ok (False, cs_012))"
    using c6e c6a by (auto simp: i_cs values_cs_012)

  have i_dl: "IsEmpty_dl dl_none" by (simp add: IsEmpty_dl_def Size_dl_def dl_none_def)
  have w_dl: "IsEmpty_dl dl_none \<and>
     values_dl dl_none = Some (Ok []) \<and>
     RemoveFirst_dl dl_none = Ok dl_none \<and>
     RemoveLast_dl dl_none = Ok dl_none \<and>
     Remove_dl 7 dl_none = Some (Ok dl_none) \<and>
     Reverse_dl dl_none = Some (Ok dl_none) \<and>
     Clear_dl dl_none = dl_none \<and>
     Find_dl 7 dl_none = Some (Ok (None, dl_none)) \<and>
     ForEach_dl collect (dl_none, []) = Some (Ok (dl_none, [])) \<and>
     values_dl dl_012 = Some (Ok [0, 1, 2]) \<and>
     Remove_dl 7 dl_012 = Some (Ok dl_012) \<and>
     Find_dl 7 dl_012 = Some (Ok (None, dl_012))"
    using c6e c6a by (auto simp: i_dl values_dl_012)

  have i_cd: "IsEmpty_cd cd_none" by (simp add: IsEmpty_cd_def Size_cd_def cd_none_def)
  have w_cd: "IsEmpty_cd cd_none \<and>
     values_cd cd_none = Ok [] \<and>
     RemoveFirst_cd cd_none = Ok cd_none \<and>
     RemoveLast_cd cd_none = Ok cd_none \<and>
     Remove_cd 7 cd_none = Ok cd_none \<and>
     Reverse_cd cd_none = Ok cd_none \<and>
     Clear_cd cd_none = cd_none \<and>
     Find_cd 7 cd_none = Ok (None, cd_none) \<and>
     Contains_cd 7 cd_none = Ok (False, cd_none) \<and>
     ForEach_cd collect (cd_none, []) = Ok (cd_none, []) \<and>
     values_cd cd_012 = Ok [0, 1, 2] \<and>
     Remove_cd 7 cd_012 = Ok cd_012 \<and>
     Find_cd 7 cd_012 = Ok (None, cd_012) \<and>
     Contains_cd 7 cd_012 = Ok (False, cd_012)"
    using c6e c6a by (auto simp: i_cd values_cd_012)

  show ?thesis using w_sl w_cs w_dl w_cd by simp
qed

section \<open>The traversals of the circular lists\<close>

lemma map_of_zip_first_index:
  "length vs = length as \<Longrightarrow>
     map_of (zip vs as) v = (if v \<in> set vs then Some (as ! first_index v vs) else None)"
  by (induction vs as rule: list_induct2) (auto simp: first_index_def)

lemma first_index_less: "v \<in> set vs \<Longrightarrow> first_index v vs < length vs"
  unfolding first_index_def by (induction vs) auto

lemma Find_count_loop_seg:
  assumes "seg (nxs h) cur rest e"
  shows "Find_count_loop (length rest) h cur v = Ok (map_of (zip (map (vls h) rest) rest) v)"
  using assms
proof (induction rest arbitrary: cur)
  case Nil
  then show ?case by simp
next
  case (Cons a rs)
  from Cons.prems obtain r where r: "cur = Some a" "nxs h a = Some r" "seg (nxs h) r rs e" by auto
  have b: "a < length h" using r(2) by (rule nxs_Some_less)
  show ?case using Cons.IH[OF r(3)] r b by (simp add: Value_sn_Some Next_sn_nxs)
qed

lemma Find_spec_cs_rep:
  assumes "cs_rep l as vs"
  shows "Find_spec_cs v l = Ok (map_of (zip vs as) v, l)"
proof (cases "as = []")
  case True
  then show ?thesis using cs_rep_size[OF assms]
    by (simp add: Find_spec_cs_def IsEmpty_cs_def Size_cs_def)
next
  case False
  have vs: "vs = map (vls (cells_cs l)) as" using assms by (simp add: cs_rep_def)
  from Find_count_loop_seg[OF cs_rep_seg[OF assms False], of v]
  show ?thesis using False cs_rep_Head[OF assms] cs_rep_size[OF assms] vs
    by (simp add: Find_spec_cs_def IsEmpty_cs_def Size_cs_def)
qed

lemma first_index_Cons: "first_index v (x # xs) = (if x = v then 0 else Suc (first_index v xs))"
  by (simp add: first_index_def)

lemma Find_trace_cs_loop_seg:
  assumes "seg (nxs (cells_cs l)) (Some c) (c # rest) (Some hp)" "hp \<notin> set rest"
    "Head_cs l = Ok (Some hp)"
  shows "Find_trace_cs_loop l (Some c) v acc
           = Some (Ok (map_of (zip (map (vls (cells_cs l)) (c # rest)) (c # rest)) v,
                       acc @ map Some (take (Suc (first_index v (map (vls (cells_cs l)) (c # rest))))
                                         (c # rest))))"
  using assms
proof (induction rest arbitrary: c acc)
  case Nil
  then have "c < length (cells_cs l)" by (auto dest: nxs_Some_less)
  with Nil show ?case
    by (subst Find_trace_cs_loop.simps) (auto simp: Value_sn_Some Next_sn_nxs first_index_Cons)
next
  case (Cons b rs)
  then have cb: "c < length (cells_cs l)" by (auto dest: nxs_Some_less)
  from Cons.prems have nx: "nxs (cells_cs l) c = Some (Some b)"
    "seg (nxs (cells_cs l)) (Some b) (b # rs) (Some hp)" "hp \<notin> set rs" "b \<noteq> hp" by auto
  show ?case using Cons.IH[OF nx(2,3) Cons.prems(3), of "acc @ [Some c]"] nx(1,4) cb Cons.prems(3)
    by (subst Find_trace_cs_loop.simps) (auto simp: Value_sn_Some Next_sn_nxs first_index_Cons)
qed

lemma Find_trace_cs_rep:
  assumes "cs_rep l as vs"
  shows "Find_trace_cs v l =
           Some (Ok ((map_of (zip vs as) v, l), map Some (take (Suc (first_index v vs)) as)))"
proof (cases as)
  case Nil
  then show ?thesis using cs_rep_size[OF assms]
    by (simp add: Find_trace_cs_def IsEmpty_cs_def Size_cs_def)
next
  case (Cons c rest)
  have hdl: "Head_cs l = Ok (Some c)" using cs_rep_Head[OF assms] Cons by simp
  have "c \<notin> set rest" using assms Cons by (auto simp: cs_rep_def cs_inv_def)
  from Find_trace_cs_loop_seg[OF _ this hdl, where v = v and acc = "[]"] cs_rep_seg[OF assms] Cons
  have "Find_trace_cs_loop l (Some c) v []
          = Some (Ok (map_of (zip vs as) v, map Some (take (Suc (first_index v vs)) as)))"
    using assms by (simp add: cs_rep_def)
  then show ?thesis using hdl cs_rep_size[OF assms] Cons
    by (simp add: Find_trace_cs_def IsEmpty_cs_def Size_cs_def)
qed

lemma Find_trace_cd_loop_seg:
  assumes "seg (nxd h) cur rest e"
  shows "Find_trace_cd_loop (length rest) h cur v acc
           = Ok (map_of (zip (map (vld h) rest) rest) v,
                 acc @ map Some (take (Suc (first_index v (map (vld h) rest))) rest))"
  using assms
proof (induction rest arbitrary: cur acc)
  case Nil
  then show ?case by simp
next
  case (Cons a rs)
  from Cons.prems obtain r where r: "cur = Some a" "nxd h a = Some r" "seg (nxd h) r rs e" by auto
  have b: "a < length h" using r(2) by (rule nxd_Some_less)
  show ?case using Cons.IH[OF r(3), of "acc @ [Some a]"] r b
    by (simp add: Value_dn_Some Next_dn_nxd first_index_Cons)
qed

lemma Find_trace_cd_rep:
  assumes "cd_rep l as vs"
  shows "Find_trace_cd v l =
           Ok ((map_of (zip vs as) v, l), map Some (take (Suc (first_index v vs)) as))"
proof (cases "as = []")
  case True
  then show ?thesis using cd_rep_size[OF assms]
    by (simp add: Find_trace_cd_def IsEmpty_cd_def Size_cd_def)
next
  case False
  have vs: "vs = map (vld (cells_cd l)) as" using assms by (simp add: cd_rep_def)
  from Find_trace_cd_loop_seg[OF cd_rep_seg[OF assms False], of v "[]"]
  show ?thesis using False cd_rep_Head[OF assms] cd_rep_size[OF assms] vs
    by (simp add: Find_trace_cd_def IsEmpty_cd_def Size_cd_def)
qed

lemma first_index_absent: "v \<notin> set vs \<Longrightarrow> first_index v vs = length vs"
  by (induction vs) (auto simp: first_index_def)

lemma take_as_walk:
  assumes "\<And>i. i < length as \<Longrightarrow> f i = Ok (Some (as ! i))" "m \<le> length as"
  shows "map Ok (map Some (take m as)) = map f [0..<m]"
  using assms by (intro nth_equalityI) simp_all

text \<open>
  \<open>Find\<close> of the circular singly linked list reads the size only in its test for the empty
  list: with any other non-zero number in the size field of a reachable list it returns the
  same node. The scan stopped by the count returns \<open>nil\<close> for a value that first occurs at or
  after the position the count gives.
\<close>

lemma Find_cs_ignores_size:
  assumes "cs_rep l as vs" "as \<noteq> []" "n \<noteq> 0"
  shows "Find_cs v (l\<lparr>size_cs := n\<rparr>) = Some (Ok (map_of (zip vs as) v, l\<lparr>size_cs := n\<rparr>))"
proof -
  obtain c rest where as: "as = c # rest" using assms(2) by (cases as) auto
  let ?l = "l\<lparr>size_cs := n\<rparr>"
  have "Head_cs ?l = Head_cs l" by (simp add: Head_cs_def Tail_cs_def)
  then have hdl: "Head_cs ?l = Ok (Some c)" using cs_rep_Head[OF assms(1)] as by simp
  have "c \<notin> set rest" using assms(1) as by (auto simp: cs_rep_def cs_inv_def)
  moreover have "seg (nxs (cells_cs ?l)) (Some c) (c # rest) (Some c)"
    using cs_rep_seg[OF assms(1,2)] as by simp
  ultimately have "Find_cs_loop ?l (Some c) v
      = Some (Ok (map_of (zip (map (vls (cells_cs ?l)) (c # rest)) (c # rest)) v))"
    using hdl by (intro Find_cs_loop_seg)
  moreover have "vs = map (vls (cells_cs ?l)) (c # rest)"
    using assms(1) as by (simp add: cs_rep_def)
  ultimately show ?thesis using hdl assms(3) as
    by (simp add: Find_cs_def IsEmpty_cs_def Size_cs_def)
qed

lemma Find_cs_size_overwritten:
  "Find_cs ''c'' (cs_abc\<lparr>size_cs := 1\<rparr>) = Some (Ok (Some 1, cs_abc\<lparr>size_cs := 1\<rparr>)) \<and>
   Find_spec_cs ''c'' (cs_abc\<lparr>size_cs := 1\<rparr>) = Ok (None, cs_abc\<lparr>size_cs := 1\<rparr>)"
  by (simp add: cs_abc_def cs_eval node_eval)

lemma cs_rep_visit:
  assumes "cs_rep l as vs"
  shows "int (length vs) = Size_cs l"
    and "k < length vs \<Longrightarrow>
           \<exists>a. nth_node_cs l k = Ok (Some a) \<and> Value_sn (cells_cs l) (Some a) = Ok (vs ! k)"
    and "j < k \<Longrightarrow> k < length vs \<Longrightarrow> nth_node_cs l j \<noteq> nth_node_cs l k"
    and "Find_cs v l = Some (Find_spec_cs v l)"
    and "Find_cs v l =
           Some (bind_res (if v \<in> set vs then nth_node_cs l (first_index v vs) else Ok None)
                   (\<lambda>r. Ok (r, l)))"
    and "\<exists>r visited. Find_trace_cs v l = Some (Ok ((r, l), visited)) \<and> Find_cs v l = Some (Ok (r, l)) \<and>
           map Ok visited = map (nth_node_cs l) [0..<min (Suc (first_index v vs)) (length vs)] \<and>
           length visited = (if v \<in> set vs then Suc (first_index v vs) else length vs)"
proof -
  have len: "length vs = length as" using cs_rep_length[OF assms] .
  have vs: "vs = map (vls (cells_cs l)) as" and d: "distinct as"
    using assms by (simp_all add: cs_rep_def cs_inv_def)
  have nth: "nth_node_cs l i = Ok (Some (as ! i))" if "i < length as" for i
    using cs_rep_nth_node[OF assms, of i] that by (cases "as = []") simp_all
  show "int (length vs) = Size_cs l" using cs_rep_size[OF assms] len by (simp add: Size_cs_def)
  show "\<exists>a. nth_node_cs l k = Ok (Some a) \<and> Value_sn (cells_cs l) (Some a) = Ok (vs ! k)"
    if "k < length vs"
    using that nth[of k] cs_rep_bound[OF assms, of "as ! k"] len vs by (simp add: Value_sn_Some)
  show "nth_node_cs l j \<noteq> nth_node_cs l k" if "j < k" "k < length vs"
    using that nth[of j] nth[of k] d len by (simp add: nth_eq_iff_index_eq)
  show "Find_cs v l = Some (Find_spec_cs v l)"
    using Find_cs_rep[OF assms, of v] Find_spec_cs_rep[OF assms, of v] by simp
  show "Find_cs v l =
           Some (bind_res (if v \<in> set vs then nth_node_cs l (first_index v vs) else Ok None)
                   (\<lambda>r. Ok (r, l)))"
    using Find_cs_rep[OF assms, of v] map_of_zip_first_index[OF len, of v]
      nth[of "first_index v vs"] first_index_less[of v vs] len by simp
  let ?m = "min (Suc (first_index v vs)) (length vs)"
  have "map Ok (map Some (take ?m as)) = map (nth_node_cs l) [0..<?m]"
    using nth len by (intro take_as_walk) simp_all
  moreover have "take ?m as = take (Suc (first_index v vs)) as"
    using len by (cases "Suc (first_index v vs) \<le> length as") (simp_all add: min_def)
  moreover have "length (take (Suc (first_index v vs)) as)
                   = (if v \<in> set vs then Suc (first_index v vs) else length vs)"
    using first_index_less[of v vs] first_index_absent[of v vs] len by auto
  ultimately show "\<exists>r visited. Find_trace_cs v l = Some (Ok ((r, l), visited)) \<and> Find_cs v l = Some (Ok (r, l)) \<and>
           map Ok visited = map (nth_node_cs l) [0..<min (Suc (first_index v vs)) (length vs)] \<and>
           length visited = (if v \<in> set vs then Suc (first_index v vs) else length vs)"
    using Find_trace_cs_rep[OF assms, of v] Find_cs_rep[OF assms, of v] by simp
qed

lemma cd_rep_visit:
  assumes "cd_rep l as vs"
  shows "int (length vs) = Size_cd l"
    and "k < length vs \<Longrightarrow>
           \<exists>a. nth_node_cd l k = Ok (Some a) \<and> Value_dn (cells_cd l) (Some a) = Ok (vs ! k)"
    and "j < k \<Longrightarrow> k < length vs \<Longrightarrow> nth_node_cd l j \<noteq> nth_node_cd l k"
    and "Find_cd v l =
           bind_res (if v \<in> set vs then nth_node_cd l (first_index v vs) else Ok None)
             (\<lambda>r. Ok (r, l))"
    and "\<exists>r visited. Find_trace_cd v l = Ok ((r, l), visited) \<and> Find_cd v l = Ok (r, l) \<and>
           map Ok visited = map (nth_node_cd l) [0..<min (Suc (first_index v vs)) (length vs)] \<and>
           length visited = (if v \<in> set vs then Suc (first_index v vs) else length vs)"
proof -
  have len: "length vs = length as" using cd_rep_length[OF assms] .
  have vs: "vs = map (vld (cells_cd l)) as" and d: "distinct as"
    using assms by (simp_all add: cd_rep_def cd_inv_def)
  have nth: "nth_node_cd l i = Ok (Some (as ! i))" if "i < length as" for i
    using cd_rep_nth_node[OF assms, of i] that by (cases "as = []") simp_all
  show "int (length vs) = Size_cd l" using cd_rep_size[OF assms] len by (simp add: Size_cd_def)
  show "\<exists>a. nth_node_cd l k = Ok (Some a) \<and> Value_dn (cells_cd l) (Some a) = Ok (vs ! k)"
    if "k < length vs"
    using that nth[of k] cd_rep_bound[OF assms, of "as ! k"] len vs by (simp add: Value_dn_Some)
  show "nth_node_cd l j \<noteq> nth_node_cd l k" if "j < k" "k < length vs"
    using that nth[of j] nth[of k] d len by (simp add: nth_eq_iff_index_eq)
  show "Find_cd v l =
           bind_res (if v \<in> set vs then nth_node_cd l (first_index v vs) else Ok None)
             (\<lambda>r. Ok (r, l))"
    using Find_cd_rep[OF assms, of v] map_of_zip_first_index[OF len, of v]
      nth[of "first_index v vs"] first_index_less[of v vs] len by simp
  let ?m = "min (Suc (first_index v vs)) (length vs)"
  have "map Ok (map Some (take ?m as)) = map (nth_node_cd l) [0..<?m]"
    using nth len by (intro take_as_walk) simp_all
  moreover have "take ?m as = take (Suc (first_index v vs)) as"
    using len by (cases "Suc (first_index v vs) \<le> length as") (simp_all add: min_def)
  moreover have "length (take (Suc (first_index v vs)) as)
                   = (if v \<in> set vs then Suc (first_index v vs) else length vs)"
    using first_index_less[of v vs] first_index_absent[of v vs] len by auto
  ultimately show "\<exists>r visited. Find_trace_cd v l = Ok ((r, l), visited) \<and> Find_cd v l = Ok (r, l) \<and>
           map Ok visited = map (nth_node_cd l) [0..<min (Suc (first_index v vs)) (length vs)] \<and>
           length visited = (if v \<in> set vs then Suc (first_index v vs) else length vs)"
    using Find_trace_cd_rep[OF assms, of v] Find_cd_rep[OF assms, of v] by simp
qed

text \<open>
  Claim C8, amended. On every circular list reached from the empty list, with \<open>vs\<close> its
  head-to-tail sequence of values as \<open>ForEach\<close> hands them out: the length of \<open>vs\<close> is the size;
  the node \<open>k\<close> steps after the head, for every \<open>k\<close> below the size, holds the value \<open>vs ! k\<close>,
  and these nodes are pairwise different; \<open>ForEach\<close> with an action that leaves the list alone
  returns the fold of the action over \<open>vs\<close>, one call for each of the \<open>size\<close> nodes; \<open>String\<close>
  returns the display of \<open>vs\<close>. \<open>Find(v)\<close> returns without a panic; the nodes it visits are the
  nodes \<open>0, 1, ...\<close> steps after the head, in this order, up to and including the first one
  that holds \<open>v\<close>, which it returns: one more iteration than the position of the first
  occurrence of \<open>v\<close>, and \<open>size\<close> iterations, returning \<open>nil\<close>, when \<open>v\<close> does not occur. \<open>Find\<close>
  of the circular singly linked list, which stops when its walk is back at the head and not by
  the count, returns on these lists what the scan stopped by the count of \<open>size\<close> iterations
  returns.
\<close>

theorem C8_circular_traversals:
  "(\<exists>l vs. run_cs ops NewCircularSinglyLinkedList = Some (Ok l) \<and> values_cs l = Ok vs \<and>
      int (length vs) = Size_cs l \<and>
      (\<forall>k. k < length vs \<longrightarrow>
         (\<exists>a. nth_node_cs l k = Ok (Some a) \<and> Value_sn (cells_cs l) (Some a) = Ok (vs ! k))) \<and>
      (\<forall>j k. j < k \<and> k < length vs \<longrightarrow> nth_node_cs l j \<noteq> nth_node_cs l k) \<and>
      ((\<forall>x st. fst (f_cs x st) = fst st) \<longrightarrow>
         ForEach_cs f_cs (l, e_cs) = Ok (l, foldl (\<lambda>e x. snd (f_cs x (l, e))) e_cs vs)) \<and>
      String_cs showv l = Ok (display ''CircularSinglyLinkedList'' '' -> '' showv vs, l) \<and>
      Find_cs v l = Some (Find_spec_cs v l) \<and>
      Find_cs v l =
        Some (bind_res (if v \<in> set vs then nth_node_cs l (first_index v vs) else Ok None)
                (\<lambda>r. Ok (r, l))) \<and>
      (\<exists>r visited. Find_trace_cs v l = Some (Ok ((r, l), visited)) \<and> Find_cs v l = Some (Ok (r, l)) \<and>
         map Ok visited = map (nth_node_cs l) [0..<min (Suc (first_index v vs)) (length vs)] \<and>
         length visited = (if v \<in> set vs then Suc (first_index v vs) else length vs))) \<and>
   (\<exists>l vs. run_cd ops NewCircularDoublyLinkedList = Some (Ok l) \<and> values_cd l = Ok vs \<and>
      int (length vs) = Size_cd l \<and>
      (\<forall>k. k < length vs \<longrightarrow>
         (\<exists>a. nth_node_cd l k = Ok (Some a) \<and> Value_dn (cells_cd l) (Some a) = Ok (vs ! k))) \<and>
      (\<forall>j k. j < k \<and> k < length vs \<longrightarrow> nth_node_cd l j \<noteq> nth_node_cd l k) \<and>
      ((\<forall>x st. fst (f_cd x st) = fst st) \<longrightarrow>
         ForEach_cd f_cd (l, e_cd) = Ok (l, foldl (\<lambda>e x. snd (f_cd x (l, e))) e_cd vs)) \<and>
      String_cd showv l = Ok (display ''CircularDoublyLinkedList'' '' <-> '' showv vs, l) \<and>
      Find_cd v l =
        bind_res (if v \<in> set vs then nth_node_cd l (first_index v vs) else Ok None)
          (\<lambda>r. Ok (r, l)) \<and>
      (\<exists>r visited. Find_trace_cd v l = Ok ((r, l), visited) \<and> Find_cd v l = Ok (r, l) \<and>
         map Ok visited = map (nth_node_cd l) [0..<min (Suc (first_index v vs)) (length vs)] \<and>
         length visited = (if v \<in> set vs then Suc (first_index v vs) else length vs)))"
proof
  obtain l as vs where r: "run_cs ops NewCircularSinglyLinkedList = Some (Ok l)" "cs_rep l as vs"
    using reach_cs[of ops] by blast
  have fe: "(\<forall>x st. fst (f_cs x st) = fst st) \<longrightarrow>
         ForEach_cs f_cs (l, e_cs) = Ok (l, foldl (\<lambda>e x. snd (f_cs x (l, e))) e_cs vs)"
  proof
    assume a: "\<forall>x st. fst (f_cs x st) = fst st"
    show "ForEach_cs f_cs (l, e_cs) = Ok (l, foldl (\<lambda>e x. snd (f_cs x (l, e))) e_cs vs)"
      by (rule ForEach_cs_rep[OF r(2)]) (simp add: a)
  qed
  show "\<exists>l vs. run_cs ops NewCircularSinglyLinkedList = Some (Ok l) \<and> values_cs l = Ok vs \<and>
      int (length vs) = Size_cs l \<and>
      (\<forall>k. k < length vs \<longrightarrow>
         (\<exists>a. nth_node_cs l k = Ok (Some a) \<and> Value_sn (cells_cs l) (Some a) = Ok (vs ! k))) \<and>
      (\<forall>j k. j < k \<and> k < length vs \<longrightarrow> nth_node_cs l j \<noteq> nth_node_cs l k) \<and>
      ((\<forall>x st. fst (f_cs x st) = fst st) \<longrightarrow>
         ForEach_cs f_cs (l, e_cs) = Ok (l, foldl (\<lambda>e x. snd (f_cs x (l, e))) e_cs vs)) \<and>
      String_cs showv l = Ok (display ''CircularSinglyLinkedList'' '' -> '' showv vs, l) \<and>
      Find_cs v l = Some (Find_spec_cs v l) \<and>
      Find_cs v l =
        Some (bind_res (if v \<in> set vs then nth_node_cs l (first_index v vs) else Ok None)
                (\<lambda>r. Ok (r, l))) \<and>
      (\<exists>r visited. Find_trace_cs v l = Some (Ok ((r, l), visited)) \<and> Find_cs v l = Some (Ok (r, l)) \<and>
         map Ok visited = map (nth_node_cs l) [0..<min (Suc (first_index v vs)) (length vs)] \<and>
         length visited = (if v \<in> set vs then Suc (first_index v vs) else length vs))"
    using r(1) values_cs_rep[OF r(2)] cs_rep_visit[OF r(2)] fe String_cs_rep[OF r(2)]
    by (intro exI[of _ l] exI[of _ vs]) blast
next
  obtain l as vs where r: "run_cd ops NewCircularDoublyLinkedList = Some (Ok l)" "cd_rep l as vs"
    using reach_cd[of ops] by blast
  have fe: "(\<forall>x st. fst (f_cd x st) = fst st) \<longrightarrow>
         ForEach_cd f_cd (l, e_cd) = Ok (l, foldl (\<lambda>e x. snd (f_cd x (l, e))) e_cd vs)"
  proof
    assume a: "\<forall>x st. fst (f_cd x st) = fst st"
    show "ForEach_cd f_cd (l, e_cd) = Ok (l, foldl (\<lambda>e x. snd (f_cd x (l, e))) e_cd vs)"
      by (rule ForEach_cd_rep[OF r(2)]) (simp add: a)
  qed
  show "\<exists>l vs. run_cd ops NewCircularDoublyLinkedList = Some (Ok l) \<and> values_cd l = Ok vs \<and>
      int (length vs) = Size_cd l \<and>
      (\<forall>k. k < length vs \<longrightarrow>
         (\<exists>a. nth_node_cd l k = Ok (Some a) \<and> Value_dn (cells_cd l) (Some a) = Ok (vs ! k))) \<and>
      (\<forall>j k. j < k \<and> k < length vs \<longrightarrow> nth_node_cd l j \<noteq> nth_node_cd l k) \<and>
      ((\<forall>x st. fst (f_cd x st) = fst st) \<longrightarrow>
         ForEach_cd f_cd (l, e_cd) = Ok (l, foldl (\<lambda>e x. snd (f_cd x (l, e))) e_cd vs)) \<and>
      String_cd showv l = Ok (display ''CircularDoublyLinkedList'' '' <-> '' showv vs, l) \<and>
      Find_cd v l =
        bind_res (if v \<in> set vs then nth_node_cd l (first_index v vs) else Ok None)
          (\<lambda>r. Ok (r, l)) \<and>
      (\<exists>r visited. Find_trace_cd v l = Ok ((r, l), visited) \<and> Find_cd v l = Ok (r, l) \<and>
         map Ok visited = map (nth_node_cd l) [0..<min (Suc (first_index v vs)) (length vs)] \<and>
         length visited = (if v \<in> set vs then Suc (first_index v vs) else length vs))"
    using r(1) values_cd_rep[OF r(2)] cd_rep_visit[OF r(2)] fe String_cd_rep[OF r(2)]
    by (intro exI[of _ l] exI[of _ vs]) blast
qed

theorem C8_circular_traversals_witness:
  "values_cs cs_abc = Ok [''a'', ''b'', ''c''] \<and> Size_cs cs_abc = 3 \<and>
   map (nth_node_cs cs_abc) [0, 1, 2, 3] = [Ok (Some 2), Ok (Some 0), Ok (Some 1), Ok (Some 2)] \<and>
   map (Value_sn (cells_cs cs_abc)) [Some 2, Some 0, Some 1] = [Ok ''a'', Ok ''b'', Ok ''c''] \<and>
   ForEach_cs collect (cs_abc, []) = Ok (cs_abc, [''a'', ''b'', ''c'']) \<and>
   String_cs (\<lambda>s. s) cs_abc = Ok (''CircularSinglyLinkedList: [a] -> [b] -> [c]'', cs_abc) \<and>
   first_index ''b'' [''a'', ''b'', ''c''] = 1 \<and>
   Find_cs ''b'' cs_abc = Some (Ok (Some 0, cs_abc)) \<and>
   Find_spec_cs ''b'' cs_abc = Ok (Some 0, cs_abc) \<and>
   Find_cs ''z'' cs_abc = Some (Ok (None, cs_abc)) \<and>
   Find_trace_cs ''b'' cs_abc = Some (Ok ((Some 0, cs_abc), [Some 2, Some 0])) \<and>
   Find_trace_cs ''z'' cs_abc = Some (Ok ((None, cs_abc), [Some 2, Some 0, Some 1])) \<and>
   values_cd cd_abc = Ok [''a'', ''b'', ''c''] \<and> Size_cd cd_abc = 3 \<and>
   map (nth_node_cd cd_abc) [0, 1, 2, 3] = [Ok (Some 2), Ok (Some 0), Ok (Some 1), Ok (Some 2)] \<and>
   map (Value_dn (cells_cd cd_abc)) [Some 2, Some 0, Some 1] = [Ok ''a'', Ok ''b'', Ok ''c''] \<and>
   ForEach_cd collect (cd_abc, []) = Ok (cd_abc, [''a'', ''b'', ''c'']) \<and>
   String_cd (\<lambda>s. s) cd_abc = Ok (''CircularDoublyLinkedList: [a] <-> [b] <-> [c]'', cd_abc) \<and>
   first_index ''b'' [''a'', ''b'', ''c''] = 1 \<and>
   Find_cd ''b'' cd_abc = Ok (Some 0, cd_abc) \<and>
   Find_cd ''z'' cd_abc = Ok (None, cd_abc) \<and>
   Find_trace_cd ''b'' cd_abc = Ok ((Some 0, cd_abc), [Some 2, Some 0]) \<and>
   Find_trace_cd ''z'' cd_abc = Ok ((None, cd_abc), [Some 2, Some 0, Some 1])"
proof -
  note b = C8_circular_traversals[where ops = "[OpAppend ''b'', OpAppend ''c'', OpPrepend ''a'']"
      and v = "''b''" and showv = "\<lambda>s. s" and f_cs = collect and e_cs = "[]" and f_cd = collect
      and e_cd = "[]", unfolded run_cs_abc run_cd_abc]
  note z = C8_circular_traversals[where ops = "[OpAppend ''b'', OpAppend ''c'', OpPrepend ''a'']"
      and v = "''z''" and showv = "\<lambda>s. s" and f_cs = collect and e_cs = "[]" and f_cd = collect
      and e_cd = "[]", unfolded run_cs_abc run_cd_abc]
  have fi: "first_index ''b'' [''a'', ''b'', ''c''] = 1" by (simp add: first_index_def)
  have ns: "map (nth_node_cs cs_abc) [0, 1, 2, 3] =
              [Ok (Some 2), Ok (Some 0), Ok (Some 1), Ok (Some 2)] \<and>
            map (Value_sn (cells_cs cs_abc)) [Some 2, Some 0, Some 1] = [Ok ''a'', Ok ''b'', Ok ''c''] \<and>
            Size_cs cs_abc = 3"
    by (simp add: cs_abc_def cs_eval node_eval)
  have nd: "map (nth_node_cd cd_abc) [0, 1, 2, 3] =
              [Ok (Some 2), Ok (Some 0), Ok (Some 1), Ok (Some 2)] \<and>
            map (Value_dn (cells_cd cd_abc)) [Some 2, Some 0, Some 1] = [Ok ''a'', Ok ''b'', Ok ''c''] \<and>
            Size_cd cd_abc = 3"
    by (simp add: cd_abc_def cd_eval node_eval)
  have ts: "Find_trace_cs ''b'' cs_abc = Some (Ok ((Some 0, cs_abc), [Some 2, Some 0])) \<and>
            Find_trace_cs ''z'' cs_abc = Some (Ok ((None, cs_abc), [Some 2, Some 0, Some 1]))"
    by (simp add: cs_abc_def cs_eval node_eval Find_trace_cs_def Find_trace_cs_loop.simps)
  have td: "Find_trace_cd ''b'' cd_abc = Ok ((Some 0, cd_abc), [Some 2, Some 0]) \<and>
            Find_trace_cd ''z'' cd_abc = Ok ((None, cd_abc), [Some 2, Some 0, Some 1])"
    by (simp add: cd_abc_def cd_eval node_eval Find_trace_cd_def)
  have ws: "values_cs cs_abc = Ok [''a'', ''b'', ''c''] \<and> Size_cs cs_abc = 3 \<and>
     map (nth_node_cs cs_abc) [0, 1, 2, 3] = [Ok (Some 2), Ok (Some 0), Ok (Some 1), Ok (Some 2)] \<and>
     map (Value_sn (cells_cs cs_abc)) [Some 2, Some 0, Some 1] = [Ok ''a'', Ok ''b'', Ok ''c''] \<and>
     ForEach_cs collect (cs_abc, []) = Ok (cs_abc, [''a'', ''b'', ''c'']) \<and>
     String_cs (\<lambda>s. s) cs_abc = Ok (''CircularSinglyLinkedList: [a] -> [b] -> [c]'', cs_abc) \<and>
     first_index ''b'' [''a'', ''b'', ''c''] = 1 \<and>
     Find_cs ''b'' cs_abc = Some (Ok (Some 0, cs_abc)) \<and>
     Find_spec_cs ''b'' cs_abc = Ok (Some 0, cs_abc) \<and>
     Find_cs ''z'' cs_abc = Some (Ok (None, cs_abc)) \<and>
     Find_trace_cs ''b'' cs_abc = Some (Ok ((Some 0, cs_abc), [Some 2, Some 0])) \<and>
     Find_trace_cs ''z'' cs_abc = Some (Ok ((None, cs_abc), [Some 2, Some 0, Some 1]))"
    using b[THEN conjunct1] z[THEN conjunct1] ns ts
    by (auto simp: values_cs_abc fst_collect fi collect_def display_def boxed_def)
  have wd: "values_cd cd_abc = Ok [''a'', ''b'', ''c''] \<and> Size_cd cd_abc = 3 \<and>
     map (nth_node_cd cd_abc) [0, 1, 2, 3] = [Ok (Some 2), Ok (Some 0), Ok (Some 1), Ok (Some 2)] \<and>
     map (Value_dn (cells_cd cd_abc)) [Some 2, Some 0, Some 1] = [Ok ''a'', Ok ''b'', Ok ''c''] \<and>
     ForEach_cd collect (cd_abc, []) = Ok (cd_abc, [''a'', ''b'', ''c'']) \<and>
     String_cd (\<lambda>s. s) cd_abc = Ok (''CircularDoublyLinkedList: [a] <-> [b] <-> [c]'', cd_abc) \<and>
     first_index ''b'' [''a'', ''b'', ''c''] = 1 \<and>
     Find_cd ''b'' cd_abc = Ok (Some 0, cd_abc) \<and>
     Find_cd ''z'' cd_abc = Ok (None, cd_abc) \<and>
     Find_trace_cd ''b'' cd_abc = Ok ((Some 0, cd_abc), [Some 2, Some 0]) \<and>
     Find_trace_cd ''z'' cd_abc = Ok ((None, cd_abc), [Some 2, Some 0, Some 1])"
    using b[THEN conjunct2] z[THEN conjunct2] nd td
    by (auto simp: values_cd_abc fst_collect fi collect_def display_def boxed_def)
  show ?thesis using ws wd by simp
qed

text \<open>
  The claim as it is written fails for \<open>Find\<close>: on the lists of size 3 with the values
  \<open>a\<close>, \<open>b\<close>, \<open>c\<close>, reached by \<open>Append("b")\<close>, \<open>Append("c")\<close>, \<open>Prepend("a")\<close>, the call
  \<open>Find("a")\<close> compares the value of the head node, returns it, and has made one iteration,
  not three: it has not visited the other two nodes.
\<close>

theorem C8_find_returns_at_first_match:
  "run_cs [OpAppend ''b'', OpAppend ''c'', OpPrepend ''a''] NewCircularSinglyLinkedList =
     Some (Ok cs_abc) \<and>
   Size_cs cs_abc = 3 \<and> Head_cs cs_abc = Ok (Some 2) \<and>
   Find_cs ''a'' cs_abc = Some (Ok (Some 2, cs_abc)) \<and>
   Find_trace_cs ''a'' cs_abc = Some (Ok ((Some 2, cs_abc), [Some 2])) \<and>
   int (length [Some (2::nat)]) \<noteq> Size_cs cs_abc \<and>
   run_cd [OpAppend ''b'', OpAppend ''c'', OpPrepend ''a''] NewCircularDoublyLinkedList =
     Some (Ok cd_abc) \<and>
   Size_cd cd_abc = 3 \<and> Head_cd cd_abc = Ok (Some 2) \<and>
   Find_cd ''a'' cd_abc = Ok (Some 2, cd_abc) \<and>
   Find_trace_cd ''a'' cd_abc = Ok ((Some 2, cd_abc), [Some 2]) \<and>
   int (length [Some (2::nat)]) \<noteq> Size_cd cd_abc"
  unfolding run_cs_abc run_cd_abc
  by (simp add: cs_abc_def cd_abc_def cs_eval cd_eval node_eval Find_trace_cs_def
      Find_trace_cs_loop.simps Find_trace_cd_def)

end
